(* ===== verification/Quic_Prelude.thy ===== *)
theory Quic_Prelude
  imports Main "HOL-Library.Word"
begin

text \<open>
  Shared ground of the development: the machine types of the wire layer, the sum-typed
  results that stand for Zig's error unions, the saturating arithmetic of the Zig
  operators \<open>+|\<close>, \<open>-|\<close> and \<open>*|\<close>, and the generic list facts that several
  components use.

  Two conventions hold everywhere.  The wire layer (varints, packet numbers, frames)
  keeps its integers at their width as words, because shifts, masks and truncation are
  what that code is about.  The state machines above it use \<open>nat\<close> for unsigned fields;
  every operator of the source that saturates, wraps or is refused on overflow is
  written out there (\<open>sat_add\<close>, \<open>sat_sub\<close>, \<open>sat_mul\<close>, explicit guards).
\<close>

unbundle bit_operations_syntax

named_theorems zig_arith \<open>unfolding rules of the saturating operators\<close>
named_theorems bind_simps \<open>evaluation of error-union sequencing\<close>

type_synonym byte = "8 word"
type_synonym u16 = "16 word"
type_synonym u32 = "32 word"
type_synonym u64 = "64 word"

subsection \<open>Error unions\<close>

text \<open>
  \<open>zbind r k\<close> is Zig's \<open>const x = try r; k(x)\<close>: an error returns at once, a value is
  passed on.
\<close>

definition zbind :: "'e + 'a \<Rightarrow> ('a \<Rightarrow> 'e + 'b) \<Rightarrow> 'e + 'b" where
  "zbind r k = (case r of Inl e \<Rightarrow> Inl e | Inr x \<Rightarrow> k x)"

lemma zbind_Inl [simp, bind_simps]: "zbind (Inl e) k = Inl e"
  by (simp add: zbind_def)

lemma zbind_Inr [simp, bind_simps]: "zbind (Inr x) k = k x"
  by (simp add: zbind_def)

lemma zbind_eq_Inr: "zbind r k = Inr y \<longleftrightarrow> (\<exists>x. r = Inr x \<and> k x = Inr y)"
  by (cases r) simp_all

lemma zbind_eq_Inl: "zbind r k = Inl e \<longleftrightarrow> r = Inl e \<or> (\<exists>x. r = Inr x \<and> k x = Inl e)"
  by (cases r) simp_all

lemma zbind_cong [fundef_cong]:
  "r = r' \<Longrightarrow> (\<And>x. r' = Inr x \<Longrightarrow> k x = k' x) \<Longrightarrow> zbind r k = zbind r' k'"
  by (cases r') simp_all

text \<open>\<open>guard c e\<close> is \<open>if (c) return e;\<close> in a function with no other result so far.\<close>

definition fail_if :: "bool \<Rightarrow> 'e \<Rightarrow> 'e + unit" where
  "fail_if c e = (if c then Inl e else Inr ())"

lemma fail_if_simps [simp, bind_simps]: "fail_if True e = Inl e" "fail_if False e = Inr ()"
  by (simp_all add: fail_if_def)

lemma fail_if_Inr [simp]: "fail_if c e = Inr u \<longleftrightarrow> \<not> c"
  by (simp add: fail_if_def)

lemma fail_if_Inl [simp]: "fail_if c e = Inl e' \<longleftrightarrow> c \<and> e = e'"
  by (simp add: fail_if_def)

subsection \<open>Saturating arithmetic on unsigned 64-bit fields\<close>

definition u64_max :: nat where
  "u64_max = 18446744073709551615"

definition sat_add :: "nat \<Rightarrow> nat \<Rightarrow> nat" where
  [zig_arith]: "sat_add a b = min (a + b) u64_max"

definition sat_sub :: "nat \<Rightarrow> nat \<Rightarrow> nat" where
  [zig_arith]: "sat_sub a b = a - b"

definition sat_mul :: "nat \<Rightarrow> nat \<Rightarrow> nat" where
  [zig_arith]: "sat_mul a b = min (a * b) u64_max"

lemma sat_add_le: "sat_add a b \<le> u64_max"
  by (simp add: sat_add_def)

lemma sat_add_exact: "a + b \<le> u64_max \<Longrightarrow> sat_add a b = a + b"
  by (simp add: sat_add_def)

lemma sat_add_mono: "a \<le> a' \<Longrightarrow> b \<le> b' \<Longrightarrow> sat_add a b \<le> sat_add a' b'"
  by (auto simp: sat_add_def min_def)

lemma sat_mul_le: "sat_mul a b \<le> u64_max"
  by (simp add: sat_mul_def)

lemma sat_mul_exact: "a * b \<le> u64_max \<Longrightarrow> sat_mul a b = a * b"
  by (simp add: sat_mul_def)

subsection \<open>Lists addressed by index\<close>

text \<open>\<open>ArrayList.insert\<close>, \<open>orderedRemove\<close> and \<open>replaceRange\<close> on an in-range index.\<close>

definition list_insert_at :: "nat \<Rightarrow> 'a \<Rightarrow> 'a list \<Rightarrow> 'a list" where
  "list_insert_at i x xs = take i xs @ x # drop i xs"

definition list_remove_at :: "nat \<Rightarrow> 'a list \<Rightarrow> 'a list" where
  "list_remove_at i xs = take i xs @ drop (Suc i) xs"

lemma length_list_insert_at [simp]: "length (list_insert_at i x xs) = Suc (length xs)"
  by (simp add: list_insert_at_def)

lemma length_list_remove_at [simp]:
  "i < length xs \<Longrightarrow> length (list_remove_at i xs) = length xs - 1"
  by (simp add: list_remove_at_def)

lemma set_list_insert_at [simp]: "set (list_insert_at i x xs) = insert x (set xs)"
proof -
  have "set xs = set (take i xs @ drop i xs)" by simp
  also have "\<dots> = set (take i xs) \<union> set (drop i xs)" by (simp only: set_append)
  finally show ?thesis by (auto simp: list_insert_at_def)
qed

lemma list_insert_at_append [simp]:
  "list_insert_at (length ys) x (ys @ zs) = ys @ x # zs"
  by (simp add: list_insert_at_def)

lemma list_remove_at_append [simp]:
  "list_remove_at (length ys) (ys @ z # zs) = ys @ zs"
  by (simp add: list_remove_at_def)

lemma split_at_index:
  "i < length xs \<Longrightarrow> xs = take i xs @ xs ! i # drop (Suc i) xs"
  by (rule id_take_nth_drop)

text \<open>Bounds of the machine integers, in the form the arithmetic proofs use.\<close>

lemma unat_u64_bound: "unat (x :: u64) < 18446744073709551616"
proof -
  have "unat x < 2 ^ LENGTH(64)" by (rule unsigned_less)
  then show ?thesis by simp
qed

lemma unat_u32_bound: "unat (x :: u32) < 4294967296"
proof -
  have "unat x < 2 ^ LENGTH(32)" by (rule unsigned_less)
  then show ?thesis by simp
qed

end
