(* ===== verification/Wire_Base.thy ===== *)
theory Wire_Base
  imports Quic_Prelude
begin

text \<open>
  Shared by every codec of \<open>src/src/wire\<close> and \<open>src/src/frame\<close>: the error set, the
  big-endian byte strings behind varints, packet numbers and ports, and the two
  compositional notions the codec proofs use.  A writer \<open>emits\<close> a byte string when at
  every cursor it writes exactly that string if the buffer has room and otherwise reports
  \<open>BufferTooSmall\<close>; sequencing writers concatenates what they emit.
\<close>

datatype wire_error =
    BufferTooSmall
  | InsufficientBytes
  | ValueTooLarge
  | InvalidLength
  | UnacknowledgedTooFar
  | ConnIdTooLong
  | InvalidVersionNegotiation
  | UnknownFrameType
  | PathIdTooLarge
  | AckRangeCountTooLarge
  | OverlappingAckRanges

subsection \<open>Big-endian byte strings\<close>

fun be_bytes :: "nat \<Rightarrow> nat \<Rightarrow> byte list" where
  "be_bytes 0 x = []"
| "be_bytes (Suc n) x = be_bytes n (x div 256) @ [word_of_nat x]"

definition be_val :: "byte list \<Rightarrow> nat" where
  "be_val bs = foldl (\<lambda>a b. a * 256 + unat b) 0 bs"

lemma length_be_bytes [simp]: "length (be_bytes n x) = n"
  by (induction n arbitrary: x) simp_all

lemma be_val_Nil [simp]: "be_val [] = 0"
  by (simp add: be_val_def)

lemma be_val_snoc [simp]: "be_val (bs @ [b]) = be_val bs * 256 + unat b"
  by (simp add: be_val_def)

lemma unat_lt_256: "unat (b :: byte) < 256"
  using unsigned_less [of b] by simp

lemma be_val_bound: "be_val bs < 256 ^ length bs"
proof (induction bs rule: rev_induct)
  case Nil
  then show ?case by simp
next
  case (snoc b bs)
  have "be_val bs * 256 + unat b < (be_val bs + 1) * 256" using unat_lt_256 [of b] by simp
  also have "\<dots> \<le> 256 ^ length bs * 256" using snoc.IH by (intro mult_right_mono) simp_all
  finally show ?case by simp
qed

lemma unat_byte_of_nat: "unat (word_of_nat x :: byte) = x mod 256"
  by (simp add: unat_of_nat)

lemma be_val_be_bytes: "be_val (be_bytes n x) = x mod 256 ^ n"
proof (induction n arbitrary: x)
  case 0
  then show ?case by simp
next
  case (Suc n)
  have "be_val (be_bytes (Suc n) x) = (x div 256 mod 256 ^ n) * 256 + x mod 256"
    using Suc.IH [of "x div 256"] by (simp add: unat_byte_of_nat)
  also have "\<dots> = x mod (256 * 256 ^ n)"
    by (simp add: mod_mult2_eq)
  finally show ?case by simp
qed

lemma be_bytes_be_val: "be_bytes (length bs) (be_val bs) = bs"
proof (induction bs rule: rev_induct)
  case Nil
  then show ?case by simp
next
  case (snoc b bs)
  have "(be_val bs * 256 + unat b) div 256 = be_val bs" using unat_lt_256 [of b] by simp
  moreover have "unat (word_of_nat (be_val bs * 256 + unat b) :: byte) = unat b"
    by (simp only: unat_byte_of_nat) (use unat_lt_256 [of b] in simp)
  then have "(word_of_nat (be_val bs * 256 + unat b) :: byte) = b" by (rule unsigned_word_eqI)
  ultimately show ?case using snoc.IH by simp
qed

lemma be_bytes_mod: "be_bytes n (x mod 256 ^ n) = be_bytes n x"
  using be_bytes_be_val [of "be_bytes n x"] by (simp add: be_val_be_bytes)

lemma be_bytes_Cons:
  "be_bytes (Suc n) x = word_of_nat (x div 256 ^ n) # be_bytes n x"
proof (induction n arbitrary: x)
  case 0
  then show ?case by simp
next
  case (Suc n)
  have "be_bytes (Suc (Suc n)) x = be_bytes (Suc n) (x div 256) @ [word_of_nat x]" by simp
  also have "\<dots> = word_of_nat (x div 256 div 256 ^ n) # be_bytes n (x div 256) @ [word_of_nat x]"
    using Suc.IH [of "x div 256"] by simp
  finally show ?case by (simp add: div_mult2_eq)
qed

text \<open>The accumulator step of every reader loop: shift by a byte and or the next one in.\<close>

lemma unat_shift_or:
  "unat (push_bit 8 v OR ucast (b :: byte) :: u64) = (unat v * 256) mod 2 ^ 64 + unat b"
proof -
  have "push_bit 8 v AND (ucast b :: u64) = 0"
    by (rule bit_word_eqI) (auto simp: bit_simps dest: bit_imp_le_length)
  then have "push_bit 8 v OR ucast b = push_bit 8 v + (ucast b :: u64)"
    by (simp add: disjunctive_add_eq_or)
  moreover have p: "unat (push_bit 8 v) = (unat v * 256) mod 2 ^ 64"
    by (simp add: push_bit_eq_mult unat_word_ariths)
  moreover have "unat (ucast b :: u64) = unat b"
    using unat_lt_256 [of b] by (simp add: unsigned_ucast_eq take_bit_nat_eq_self)
  moreover have "(unat v * 256) mod 2 ^ 64 + unat b < 2 ^ 64"
  proof -
    have "(unat v * 256) mod 2 ^ 64 = (unat v mod 2 ^ 56) * 256"
      using mult_mod_left [of "unat v" "2 ^ 56" 256] by simp
    also have "\<dots> + unat b < (unat v mod 2 ^ 56 + 1) * 256" using unat_lt_256 [of b] by simp
    also have "\<dots> \<le> 2 ^ 56 * 256" by (intro mult_right_mono) (simp_all add: Suc_leI)
    finally show ?thesis by simp
  qed
  ultimately show ?thesis by (simp add: unat_word_ariths)
qed

lemma unat_shift_or_small:
  "unat v < 2 ^ 56 \<Longrightarrow> unat (push_bit 8 v OR ucast (b :: byte) :: u64) = unat v * 256 + unat b"
  by (simp add: unat_shift_or)

lemma ucast_drop_bit_byte:
  "(ucast (drop_bit k (v :: u64)) :: byte) = word_of_nat (unat v div 2 ^ k)"
proof (rule unsigned_word_eqI [where ?'a = nat])
  have "unat (drop_bit k v) = unat v div 2 ^ k" 
    by (simp only: unat_drop_bit_eq) (simp only: drop_bit_eq_div)
  then show "unat (ucast (drop_bit k v) :: byte) = unat (word_of_nat (unat v div 2 ^ k) :: byte)"
    by (simp only: unat_byte_of_nat unsigned_ucast_eq take_bit_eq_mod) simp
qed

subsection \<open>Writers\<close>

text \<open>
  A writer takes the destination buffer and the cursor, and returns the buffer and the
  cursor after it.  \<open>write_all\<close> is the straight-line \<open>pos += try ...\<close> of the source.
\<close>

type_synonym writer = "byte list \<Rightarrow> nat \<Rightarrow> wire_error + (byte list \<times> nat)"

fun write_all :: "writer list \<Rightarrow> writer" where
  "write_all [] dst pos = Inr (dst, pos)"
| "write_all (w # ws) dst pos = zbind (w dst pos) (\<lambda>(dst', pos'). write_all ws dst' pos')"

text \<open>\<open>@memcpy(dst[pos..][0..n], data)\<close> behind its length check.\<close>

definition put_bytes :: "byte list \<Rightarrow> writer" where
  "put_bytes data dst pos =
     (if length dst < pos + length data then Inl BufferTooSmall
      else Inr (take pos dst @ data @ drop (pos + length data) dst, pos + length data))"

definition emits :: "writer \<Rightarrow> byte list \<Rightarrow> bool" where
  "emits w bs \<longleftrightarrow> (\<forall>dst pos. pos \<le> length dst \<longrightarrow> w dst pos = put_bytes bs dst pos)"

lemma emits_put_bytes [simp, intro]: "emits (put_bytes bs) bs"
  by (simp add: emits_def)

lemma emitsD: "emits w bs \<Longrightarrow> pos \<le> length dst \<Longrightarrow> w dst pos = put_bytes bs dst pos"
  by (simp add: emits_def)

lemma emits_Nil [simp, intro]: "emits (write_all []) []"
  by (simp add: emits_def put_bytes_def)

lemma put_bytes_append:
  "pos \<le> length dst \<Longrightarrow>
   zbind (put_bytes as dst pos) (\<lambda>(dst', pos'). put_bytes bs dst' pos') = put_bytes (as @ bs) dst pos"
  by (auto simp: put_bytes_def min_def ac_simps)

lemma emits_Cons:
  assumes "emits w as" "emits (write_all ws) bs"
  shows "emits (write_all (w # ws)) (as @ bs)"
proof (unfold emits_def, intro allI impI)
  fix dst :: "byte list" and pos :: nat
  assume pos: "pos \<le> length dst"
  show "write_all (w # ws) dst pos = put_bytes (as @ bs) dst pos"
  proof (cases "length dst < pos + length as")
    case True
    with emitsD [OF assms(1) pos] show ?thesis by (simp add: put_bytes_def)
  next
    case False
    then have "write_all (w # ws) dst pos = write_all ws (take pos dst @ as @ drop (pos + length as) dst)
        (pos + length as)"
      using emitsD [OF assms(1) pos] by (simp add: put_bytes_def)
    also have "\<dots> = put_bytes bs (take pos dst @ as @ drop (pos + length as) dst) (pos + length as)"
      using False by (intro emitsD [OF assms(2)]) simp
    also have "\<dots> = put_bytes (as @ bs) dst pos"
      using put_bytes_append [OF pos, of as bs] False by (simp add: put_bytes_def)
    finally show ?thesis .
  qed
qed

lemma write_all_append:
  "write_all (ws @ vs) dst pos = zbind (write_all ws dst pos) (\<lambda>(d, p). write_all vs d p)"
  by (induction ws arbitrary: dst pos) (auto simp: zbind_def split: sum.splits prod.splits)

lemma emits_append:
  assumes "emits (write_all ws) as" "emits (write_all vs) bs"
  shows "emits (write_all (ws @ vs)) (as @ bs)"
proof (unfold emits_def, intro allI impI)
  fix dst :: "byte list" and pos :: nat
  assume pos: "pos \<le> length dst"
  show "write_all (ws @ vs) dst pos = put_bytes (as @ bs) dst pos"
    using emitsD [OF assms(1) pos] emitsD [OF assms(2)] put_bytes_append [OF pos, of as bs]
    by (auto simp: write_all_append put_bytes_def split: if_splits)
qed

end
