(* ===== verification/Varint.thy ===== *)
theory Varint
  imports Wire_Base
begin

text \<open>
  Model of \<open>src/src/wire/varint.zig\<close> (RFC 9000, section 16): the minimal and the
  fixed-length encoder and the decoder, with their loops over the buffer.  Values are
  64-bit words as in the source; buffers are byte lists.
\<close>

definition max_value :: u64 where
  "max_value = push_bit 62 1 - 1"

definition encodedLen :: "u64 \<Rightarrow> nat" where
  "encodedLen v =
     (if v < push_bit 6 1 then 1
      else if v < push_bit 14 1 then 2
      else if v < push_bit 30 1 then 4
      else if v \<le> max_value then 8
      else 0)"

definition length_tag :: "nat \<Rightarrow> wire_error + byte" where
  "length_tag len =
     (if len = 1 then Inr 0x00 else if len = 2 then Inr 0x40
      else if len = 4 then Inr 0x80 else if len = 8 then Inr 0xc0
      else Inl InvalidLength)"

definition max_for_length :: "nat \<Rightarrow> u64" where
  "max_for_length len =
     (if len = 1 then push_bit 6 1 - 1 else if len = 2 then push_bit 14 1 - 1
      else if len = 4 then push_bit 30 1 - 1 else max_value)"

text \<open>\<open>while (i > 0) : (i -= 1) dst[i - 1] = @truncate(v >> ((length - i) * 8))\<close>\<close>

fun encodeFixed_loop :: "byte list \<Rightarrow> u64 \<Rightarrow> nat \<Rightarrow> nat \<Rightarrow> byte list" where
  "encodeFixed_loop dst v len 0 = dst"
| "encodeFixed_loop dst v len (Suc i) =
     encodeFixed_loop (dst[i := ucast (drop_bit ((len - Suc i) * 8) v)]) v len i"

definition encodeFixed :: "byte list \<Rightarrow> u64 \<Rightarrow> nat \<Rightarrow> wire_error + (byte list \<times> nat)" where
  "encodeFixed dst v len =
     zbind (length_tag len) (\<lambda>tag.
     if v > max_for_length len then Inl ValueTooLarge
     else if length dst < len then Inl BufferTooSmall
     else let dst' = encodeFixed_loop dst v len len
          in Inr (dst'[0 := dst' ! 0 OR tag], len))"

definition encode :: "byte list \<Rightarrow> u64 \<Rightarrow> wire_error + (byte list \<times> nat)" where
  "encode dst v =
     (let len = encodedLen v
      in if len = 0 then Inl ValueTooLarge else encodeFixed dst v len)"

text \<open>\<open>while (i < length) : (i += 1) v = (v << 8) | src[i]\<close>\<close>

function decode_loop :: "byte list \<Rightarrow> u64 \<Rightarrow> nat \<Rightarrow> nat \<Rightarrow> u64" where
  "decode_loop src v i len =
     (if i < len then decode_loop src (push_bit 8 v OR ucast (src ! i)) (i + 1) len else v)"
  by pat_completeness auto
termination
  by (relation "measure (\<lambda>(src, v, i, len). len - i)") auto

declare decode_loop.simps [simp del]

definition decode :: "byte list \<Rightarrow> wire_error + (u64 \<times> nat)" where
  "decode src =
     (if length src = 0 then Inl InsufficientBytes
      else let first = src ! 0; len = push_bit (unat (drop_bit 6 first)) (1 :: nat)
        in if length src < len then Inl InsufficientBytes
           else Inr (decode_loop src (ucast (first AND 0x3f)) 1 len, len))"

subsection \<open>The byte string a v has at a length\<close>

definition legal_len :: "nat \<Rightarrow> bool" where
  "legal_len len \<longleftrightarrow> len = 1 \<or> len = 2 \<or> len = 4 \<or> len = 8"

definition tag_bits :: "nat \<Rightarrow> nat" where
  "tag_bits len = (if len = 1 then 0 else if len = 2 then 1 else if len = 4 then 2 else 3)"

text \<open>Big-endian bytes of \<open>v\<close> with the length code in the top two bits.\<close>

definition vbytes_at :: "nat \<Rightarrow> u64 \<Rightarrow> byte list" where
  "vbytes_at len v = be_bytes len (tag_bits len * 2 ^ (8 * len - 2) + unat v)"

definition vbytes :: "u64 \<Rightarrow> byte list" where
  "vbytes v = vbytes_at (encodedLen v) v"

lemma length_vbytes_at [simp]: "length (vbytes_at len v) = len"
  by (simp add: vbytes_at_def)

lemma length_vbytes [simp]: "length (vbytes v) = encodedLen v"
  by (simp add: vbytes_def)

lemma unat_max_value [simp]: "unat max_value = 2 ^ 62 - 1"
  by (simp add: max_value_def)

lemma max_for_length_unat:
  "legal_len len \<Longrightarrow> unat (max_for_length len) = 2 ^ (8 * len - 2) - 1"
  by (auto simp: legal_len_def max_for_length_def max_value_def)

lemma le_max_for_length:
  "legal_len len \<Longrightarrow> v \<le> max_for_length len \<longleftrightarrow> unat v < 2 ^ (8 * len - 2)"
proof -
  assume "legal_len len"
  moreover have "0 < (2 :: nat) ^ (8 * len - 2)" by simp
  ultimately show ?thesis by (simp only: word_le_nat_alt max_for_length_unat) linarith
qed

lemma encodedLen_legal: "v \<le> max_value \<Longrightarrow> legal_len (encodedLen v)"
  by (simp add: encodedLen_def legal_len_def)

lemma encodedLen_zero_iff: "encodedLen v = 0 \<longleftrightarrow> \<not> v \<le> max_value"
  by (auto simp: encodedLen_def max_value_def word_less_nat_alt word_le_nat_alt)

lemma encodedLen_fits:
  "v \<le> max_value \<Longrightarrow> v \<le> max_for_length (encodedLen v)"
  by (auto simp: encodedLen_def max_for_length_def max_value_def word_less_nat_alt word_le_nat_alt)

text \<open>\<open>encodedLen\<close> is minimal among the legal lengths.\<close>

lemma encodedLen_minimal:
  "legal_len len \<Longrightarrow> v \<le> max_for_length len \<Longrightarrow> encodedLen v \<le> len"
  by (auto simp: encodedLen_def legal_len_def max_for_length_def max_value_def
      word_less_nat_alt word_le_nat_alt)

subsection \<open>The encoder loop writes the big-endian bytes\<close>

lemma encodeFixed_loop_eq:
  "i \<le> len \<Longrightarrow> len \<le> length dst \<Longrightarrow>
   encodeFixed_loop dst v len i =
     be_bytes i (unat v div 256 ^ (len - i)) @ drop i dst"
proof (induction i arbitrary: dst)
  case 0
  then show ?case by simp
next
  case (Suc i)
  let ?b = "ucast (drop_bit ((len - Suc i) * 8) v) :: byte"
  have b: "?b = word_of_nat (unat v div 256 ^ (len - Suc i))"
    by (simp add: ucast_drop_bit_byte mult.commute [of _ 8] power_mult)
  have dv: "unat v div 256 ^ (len - i) = unat v div 256 ^ (len - Suc i) div 256"
  proof -
    have "len - i = Suc (len - Suc i)" using Suc.prems(1) by simp
    then show ?thesis by (simp only: power_Suc2 div_mult2_eq)
  qed
  have "encodeFixed_loop dst v len (Suc i) =
      be_bytes i (unat v div 256 ^ (len - i)) @ drop i (dst[i := ?b])"
    using Suc.prems Suc.IH [of "dst[i := ?b]"] by simp
  also have "drop i (dst[i := ?b]) = ?b # drop (Suc i) dst"
    using Suc.prems by (simp add: drop_update_swap Cons_nth_drop_Suc [symmetric])
  finally show ?case by (simp add: b dv)
qed

lemma or_tag_byte:
  assumes "x < 64" "t < 4"
  shows "(word_of_nat x :: byte) OR word_of_nat (64 * t) = word_of_nat (64 * t + x)"
proof -
  have x: "take_bit 6 x = x" using assms(1) by (simp add: take_bit_nat_eq_self)
  then have hi: "\<not> bit x n" if "6 \<le> n" for n using that by (metis bit_take_bit_iff not_less)
  have "(word_of_nat (64 * t) :: byte) = push_bit 6 (word_of_nat t)"
    by (simp add: push_bit_eq_mult)
  then have "(word_of_nat x :: byte) AND word_of_nat (64 * t) = 0"
    by (auto intro!: bit_word_eqI simp: bit_simps dest: hi)
  then show ?thesis by (simp add: disjunctive_add_eq_or [symmetric] add.commute)
qed

lemma encodeFixed_eq:
  assumes len: "legal_len len" and fits: "v \<le> max_for_length len"
  shows "encodeFixed dst v len =
     (if length dst < len then Inl BufferTooSmall else Inr (vbytes_at len v @ drop len dst, len))"
proof (cases "length dst < len")
  case True
  with assms show ?thesis
    by (auto simp: encodeFixed_def length_tag_def legal_len_def)
next
  case False
  define x where "x = unat v"
  define n where "n = len - 1"
  have n: "len = Suc n" "8 * len - 2 = 8 * n + 6" using len by (auto simp: n_def legal_len_def)
  have x: "x < 2 ^ (8 * n + 6)" 
    using fits le_max_for_length [OF len, of v] n(2) by (simp only: x_def)
  have p: "(2 :: nat) ^ (8 * n + 6) = 64 * 256 ^ n" by (simp add: power_add power_mult)
  have hi: "x div 256 ^ n < 64" using x p by (simp add: less_mult_imp_div_less)
  obtain tag where tag: "length_tag len = Inr tag" "tag = word_of_nat (64 * tag_bits len)"
    "tag_bits len < 4"
    using len by (auto simp: length_tag_def tag_bits_def legal_len_def)
  have loop: "encodeFixed_loop dst v len len = be_bytes len x @ drop len dst"
    using encodeFixed_loop_eq [of len len dst v] False by (simp add: x_def)
  have "(be_bytes len x @ drop len dst)[0 := (be_bytes len x @ drop len dst) ! 0 OR tag]
      = (word_of_nat (x div 256 ^ n) OR tag) # be_bytes n x @ drop len dst"
    by (simp add: n be_bytes_Cons del: be_bytes.simps)
  also have "word_of_nat (x div 256 ^ n) OR tag = word_of_nat (64 * tag_bits len + x div 256 ^ n)"
    using or_tag_byte [OF hi tag(3)] tag(2) by simp
  also have "64 * tag_bits len + x div 256 ^ n = (tag_bits len * 2 ^ (8 * len - 2) + x) div 256 ^ n"
    by (simp add: n(2) p mult.assoc [symmetric])
  also have "be_bytes n x = be_bytes n (tag_bits len * 2 ^ (8 * len - 2) + x)"
    using be_bytes_mod [of n x] be_bytes_mod [of n "tag_bits len * 2 ^ (8 * len - 2) + x"] n(2)
    by (simp add: p mult.assoc [symmetric])
  also have "word_of_nat ((tag_bits len * 2 ^ (8 * len - 2) + x) div 256 ^ n) #
      be_bytes n (tag_bits len * 2 ^ (8 * len - 2) + x) @ drop len dst = vbytes_at len v @ drop len dst"
    by (simp add: vbytes_at_def x_def n(1) be_bytes_Cons del: be_bytes.simps)
  finally show ?thesis
    using False fits tag(1) loop by (simp add: encodeFixed_def Let_def)
qed

lemma encode_eq:
  "encode dst v =
     (if \<not> v \<le> max_value then Inl ValueTooLarge
      else if length dst < encodedLen v then Inl BufferTooSmall
      else Inr (vbytes v @ drop (encodedLen v) dst, encodedLen v))"
  using encodedLen_zero_iff [of v] encodeFixed_eq [OF encodedLen_legal encodedLen_fits, of v dst]
  by (simp add: encode_def vbytes_def)

subsection \<open>The decoder loop reads the big-endian value\<close>

lemma be_val_Cons: "be_val (b # bs) = unat b * 256 ^ length bs + be_val bs"
proof (induction bs rule: rev_induct)
  case Nil
  then show ?case by (simp add: be_val_def)
next
  case (snoc c bs)
  have "be_val (b # bs @ [c]) = be_val (b # bs) * 256 + unat c"
    using be_val_snoc [of "b # bs" c] by simp
  then show ?case using snoc.IH by (simp add: algebra_simps)
qed

lemma decode_loop_eq:
  "1 \<le> i \<Longrightarrow> i \<le> len \<Longrightarrow> len \<le> 8 \<Longrightarrow> len \<le> length src \<Longrightarrow> unat v < 64 * 256 ^ (i - 1) \<Longrightarrow>
   unat (decode_loop src v i len) = unat v * 256 ^ (len - i) + be_val (take (len - i) (drop i src))"
proof (induction src v i len rule: decode_loop.induct)
  case (1 src v i len)
  show ?case
  proof (cases "i < len")
    case False
    with "1.prems" show ?thesis by (simp add: decode_loop.simps)
  next
    case True
    let ?b = "src ! i"
    let ?v = "push_bit 8 v OR ucast ?b :: u64"
    have "(256 :: nat) ^ (i - 1) \<le> 256 ^ 6" using True "1.prems" by (intro power_increasing) simp_all
    then have "unat v < 2 ^ 56" using "1.prems"(5) by simp
    then have v: "unat ?v = unat v * 256 + unat ?b" by (rule unat_shift_or_small)
    have "unat v + 1 \<le> 64 * 256 ^ (i - 1)" using "1.prems"(5) by simp
    then have "(unat v + 1) * 256 \<le> 64 * 256 ^ (i - 1) * 256" by (rule mult_right_mono) simp
    also have "\<dots> = 64 * 256 ^ (i + 1 - 1)" using "1.prems"(1) by (cases i) simp_all
    finally have "unat ?v < 64 * 256 ^ (i + 1 - 1)" using v unat_lt_256 [of ?b] by simp
    then have "unat (decode_loop src ?v (i + 1) len) =
        unat ?v * 256 ^ (len - (i + 1)) + be_val (take (len - (i + 1)) (drop (i + 1) src))"
      using True "1.prems" by (intro "1.IH") simp_all
    moreover have "take (len - i) (drop i src) = ?b # take (len - (i + 1)) (drop (i + 1) src)"
      using True "1.prems" by (simp add: Cons_nth_drop_Suc [symmetric] Suc_diff_Suc [symmetric])
    moreover have "(256 :: nat) ^ (len - i) = 256 * 256 ^ (len - (i + 1))"
      using True by (simp add: Suc_diff_Suc [symmetric])
    ultimately show ?thesis using True "1.prems"
      by (simp add: decode_loop.simps [of src v i len] be_val_Cons v algebra_simps)
  qed
qed

lemma first_byte_split:
  "unat (drop_bit 6 (b :: byte)) = unat b div 64" "unat (ucast (b AND 0x3f) :: u64) = unat b mod 64"
proof -
  show "unat (drop_bit 6 b) = unat b div 64"
    by (simp only: unat_drop_bit_eq) (simp add: drop_bit_eq_div)
  have m: "b AND 0x3f = take_bit 6 b" by (simp add: take_bit_eq_mask mask_eq_exp_minus_1)
  then have "unat (b AND 0x3f) = take_bit 6 (unat b)" by (simp only: unsigned_take_bit_eq)
  then have "unat (b AND 0x3f) = unat b mod 64" by (simp only: take_bit_eq_mod) simp
  then show "unat (ucast (b AND 0x3f) :: u64) = unat b mod 64"
    by (simp add: unsigned_ucast_eq take_bit_nat_eq_self)
qed

lemma decode_cases:
  assumes "src = b # bs" "len = 2 ^ (unat b div 64)"
  shows "legal_len len" "tag_bits len = unat b div 64"
    "length src < len \<Longrightarrow> decode src = Inl InsufficientBytes"
    "len \<le> length src \<Longrightarrow> \<exists>v. decode src = Inr (v, len) \<and> v \<le> max_for_length len \<and>
        be_val (take len src) = tag_bits len * 2 ^ (8 * len - 2) + unat v"
proof -
  have "unat b div 64 < 4" using unat_lt_256 [of b] by (simp add: less_mult_imp_div_less)
  then have "unat b div 64 \<in> {0, 1, 2, 3}" by auto
  then show legal: "legal_len len" and tag: "tag_bits len = unat b div 64"
    using assms(2) by (auto simp: legal_len_def tag_bits_def)
  have len: "push_bit (unat (drop_bit 6 b)) (1 :: nat) = len"
    using assms(2) first_byte_split(1) [of b] by (simp add: push_bit_eq_mult)
  show "length src < len \<Longrightarrow> decode src = Inl InsufficientBytes"
    using assms(1) len by (simp add: decode_def)
  assume fit: "len \<le> length src"
  define n where "n = len - 1"
  have n: "len = Suc n" "8 * len - 2 = 8 * n + 6" "n \<le> 7"
    using legal by (auto simp: n_def legal_len_def)
  have p: "(2 :: nat) ^ (8 * n + 6) = 64 * 256 ^ n" by (simp add: power_add power_mult)
  let ?v = "decode_loop src (ucast (b AND 0x3f)) 1 len"
  have "unat ?v = unat b mod 64 * 256 ^ (len - 1) + be_val (take (len - 1) (drop 1 src))"
    using n fit by (subst decode_loop_eq) (simp_all add: first_byte_split)
  then have v: "unat ?v = unat b mod 64 * 256 ^ n + be_val (take n bs)"
    using n assms(1) by simp
  have tl: "be_val (take n bs) < 256 ^ n" using be_val_bound [of "take n bs"] fit n assms(1) by simp
  have "unat ?v < (unat b mod 64 + 1) * 256 ^ n" using v tl by simp
  also have "\<dots> \<le> 64 * 256 ^ n" by (intro mult_right_mono) (simp_all add: Suc_leI)
  finally have vmax: "?v \<le> max_for_length len"
    by (simp only: le_max_for_length [OF legal] n(2) p)
  have "be_val (take len src) = unat b * 256 ^ n + be_val (take n bs)"
    using assms(1) n fit by (simp add: be_val_Cons min_absorb2)
  moreover have "unat b * 256 ^ n = (unat b div 64 * 64 + unat b mod 64) * 256 ^ n" by simp
  ultimately have "be_val (take len src) = tag_bits len * 2 ^ (8 * len - 2) + unat ?v"
    using v by (simp only: tag n(2) p distrib_right mult.assoc add.assoc)
  moreover have "decode src = Inr (?v, len)"
    using assms(1) fit len by (simp add: decode_def)
  moreover note vmax
  ultimately show "\<exists>v. decode src = Inr (v, len) \<and> v \<le> max_for_length len \<and>
        be_val (take len src) = tag_bits len * 2 ^ (8 * len - 2) + unat v" by blast
qed

text \<open>What a successful decode means: the bytes read are the value's bytes at that length.\<close>

lemma decode_sound:
  assumes "decode src = Inr (v, len)"
  shows "legal_len len" "len \<le> length src" "v \<le> max_for_length len" "take len src = vbytes_at len v"
proof -
  obtain b bs where src: "src = b # bs" using assms by (cases src) (auto simp: decode_def)
  note c = decode_cases [OF src refl]
  have fit: "2 ^ (unat b div 64) \<le> length src" using c(3) assms by (cases "length src < 2 ^ (unat b div 64)") auto
  with c(4) assms have len: "len = 2 ^ (unat b div 64)" and v: "v \<le> max_for_length len"
    and val: "be_val (take len src) = tag_bits len * 2 ^ (8 * len - 2) + unat v" by auto
  show "legal_len len" "len \<le> length src" "v \<le> max_for_length len" using c(1) fit len v by auto
  show "take len src = vbytes_at len v"
    using be_bytes_be_val [of "take len src"] fit len val by (simp add: vbytes_at_def min_absorb2)
qed

lemma decode_error: "decode src = Inl e \<Longrightarrow> e = InsufficientBytes"
  by (auto simp: decode_def Let_def split: if_splits)

lemma legal_len_tag: "legal_len len \<Longrightarrow> len = 2 ^ tag_bits len \<and> tag_bits len < 4"
  by (auto simp: legal_len_def tag_bits_def)

lemma decode_vbytes_at:
  assumes legal: "legal_len len" and fits: "v \<le> max_for_length len"
  shows "decode (vbytes_at len v @ rest) = Inr (v, len)"
proof -
  define n where "n = len - 1"
  have n: "len = Suc n" "8 * len - 2 = 8 * n + 6" using legal by (auto simp: n_def legal_len_def)
  have p: "(2 :: nat) ^ (8 * n + 6) = 64 * 256 ^ n" by (simp add: power_add power_mult)
  define x where "x = tag_bits len * 2 ^ (8 * len - 2) + unat v"
  have v: "unat v < 64 * 256 ^ n" using fits le_max_for_length [OF legal, of v] n(2) p by simp
  then have hv: "unat v div 256 ^ n < 64" by (simp add: less_mult_imp_div_less)
  have "x div 256 ^ n = 64 * tag_bits len + unat v div 256 ^ n"
    by (simp add: x_def n(2) p mult.assoc [symmetric])
  moreover define b where "b = (word_of_nat (x div 256 ^ n) :: byte)"
  ultimately have ub: "unat b = 64 * tag_bits len + unat v div 256 ^ n"
    using hv legal_len_tag [OF legal] by (simp only: unat_byte_of_nat) simp
  then have "unat b div 64 = tag_bits len" using hv by simp
  then have len: "len = 2 ^ (unat b div 64)" using legal_len_tag [OF legal] by simp
  define src where "src = vbytes_at len v @ rest"
  have src: "src = b # be_bytes n x @ rest"
    unfolding src_def vbytes_at_def x_def [symmetric] b_def
    by (subst n(1)) (simp add: be_bytes_Cons del: be_bytes.simps)
  have "len \<le> length src" by (simp add: src_def)
  from decode_cases(4) [OF src len this] obtain v' where v': "decode src = Inr (v', len)"
    "be_val (take len src) = tag_bits len * 2 ^ (8 * len - 2) + unat v'" by blast
  have "x < 256 ^ len"
  proof -
    have "x < (tag_bits len + 1) * (64 * 256 ^ n)" using v by (simp add: x_def n(2) p)
    also have "\<dots> \<le> 4 * (64 * 256 ^ n)"
      using legal_len_tag [OF legal] by (intro mult_right_mono) simp_all
    finally show ?thesis by (simp add: n(1))
  qed
  then have "be_val (take len src) = x"
    by (simp add: src_def vbytes_at_def x_def be_val_be_bytes)
  then have "unat v' = unat v" using v'(2) by (simp add: x_def)
  then have "v' = v" by (rule unsigned_word_eqI)
  with v'(1) show ?thesis by (simp add: src_def)
qed

lemma decode_vbytes: "v \<le> max_value \<Longrightarrow> decode (vbytes v @ rest) = Inr (v, encodedLen v)"
  unfolding vbytes_def by (rule decode_vbytes_at [OF encodedLen_legal encodedLen_fits])

text \<open>Cutting the encoding short is always reported.\<close>

lemma decode_truncated:
  assumes "legal_len len" "v \<le> max_for_length len" "k < len"
  shows "decode (take k (vbytes_at len v)) = Inl InsufficientBytes"
proof (cases "decode (take k (vbytes_at len v))")
  case (Inl e)
  then show ?thesis using decode_error by simp
next
  case (Inr r)
  obtain v' n where r: "r = (v', n)" by fastforce
  note s = decode_sound [OF Inr [unfolded r]]
  have "decode (take k (vbytes_at len v) @ drop k (vbytes_at len v)) = Inr (v, len)"
    using decode_vbytes_at [OF assms(1,2), of "[]"] by simp
  moreover have "take k (vbytes_at len v) =
      vbytes_at n v' @ drop n (take k (vbytes_at len v))"
    using s(4) by (metis append_take_drop_id)
  then have "decode (take k (vbytes_at len v) @ drop k (vbytes_at len v)) = Inr (v', n)"
    using decode_vbytes_at [OF s(1,3)] by (metis append_assoc)
  ultimately have "n = len" by simp
  with s(2) assms(3) show ?thesis by simp
qed

subsection \<open>Properties\<close>

text \<open>C23: Variable-length integers round trip and are minimal.  Every value up to \<open>2 ^ 62 - 1\<close>
  that fits the buffer is encoded at the front of it, in the fewest of 1, 2, 4 or 8 bytes
  that can hold it, the rest of the buffer unchanged, and decoding what was written returns
  the value and the same length; every other call is reported.\<close>

theorem varint_roundtrip:
  "case encode dst v of
     Inr (dst', n) \<Rightarrow> n = encodedLen v \<and> v \<le> max_value \<and> decode dst' = Inr (v, n) \<and>
       length dst' = length dst \<and> drop n dst' = drop n dst \<and>
       (\<forall>len. legal_len len \<and> v \<le> max_for_length len \<longrightarrow> n \<le> len)
   | Inl e \<Rightarrow> (e = ValueTooLarge \<and> max_value < v) \<or> (e = BufferTooSmall \<and> length dst < encodedLen v)"
  using encode_eq [of dst v] decode_vbytes [of v "drop (encodedLen v) dst"] encodedLen_minimal [where v = v]
  by (auto simp: not_le split: sum.splits if_splits)

theorem varint_roundtrip_witness: "encode [9, 9, 9] 300 = Inr ([65, 44, 9], 2) \<and> decode [65, 44, 9] = Inr (300, 2)"
proof -
  have e: "encode [9, 9, 9] 300 = Inr ([65, 44, 9], 2)" by code_simp
  with varint_roundtrip [where dst = "[9, 9, 9]" and v = 300] show ?thesis by simp
qed

text \<open>C24: The decoder is exact.  It fails if and only if bytes are missing, that is, the source is
  empty or shorter than the length its first two bits announce, and then says so.  What it
  returns is within the bound of that length, and encoding the value at that length gives
  back the bytes it consumed, so no two values share an encoding of a given length; and any
  proper prefix of an encoding is reported as incomplete.\<close>

theorem varint_decode_exact:
  "case decode src of
     Inr (v, n) \<Rightarrow> src \<noteq> [] \<and> n = 2 ^ (unat (hd src) div 64) \<and> legal_len n \<and> n \<le> length src \<and> v \<le> max_for_length n \<and>
       (\<forall>dst. n \<le> length dst \<longrightarrow> encodeFixed dst v n = Inr (take n src @ drop n dst, n)) \<and>
       (\<forall>k<n. decode (take k src) = Inl InsufficientBytes)
   | Inl e \<Rightarrow> e = InsufficientBytes \<and> (src = [] \<or> length src < 2 ^ (unat (hd src) div 64))"
proof (cases "decode src")
  case (Inl e)
  have "src = [] \<or> length src < 2 ^ (unat (hd src) div 64)"
  proof (rule ccontr)
    assume "\<not> ?thesis"
    then obtain b bs where "src = b # bs" "2 ^ (unat b div 64) \<le> length src" by (cases src) auto
    from decode_cases(4) [OF this(1) refl this(2)] Inl show False by auto
  qed
  with Inl show ?thesis using decode_error by simp
next
  case (Inr r)
  obtain v n where r: "r = (v, n)" by fastforce
  note s = decode_sound [OF Inr [unfolded r]]
  have "decode (take k src) = Inl InsufficientBytes" if "k < n" for k
    using decode_truncated [OF s(1,3) that] s(4) that by (metis less_imp_le min_absorb1 take_take)
  moreover have "src \<noteq> [] \<and> n = 2 ^ (unat (hd src) div 64)"
  proof -
    obtain b bs where src: "src = b # bs" using Inr by (cases src) (simp_all add: decode_def)
    note c = decode_cases [OF src refl]
    have fit: "2 ^ (unat b div 64) \<le> length src"
      using c(3) Inr by (cases "length src < 2 ^ (unat b div 64)") auto
    from c(4) [OF this] Inr r src show ?thesis by auto
  qed
  ultimately show ?thesis using s Inr r encodeFixed_eq [OF s(1,3)] by simp
qed

theorem varint_decode_exact_witness:
  "decode [0x7b, 0xbd, 7] = Inr (15293, 2) \<and> encodeFixed [0, 0] 15293 2 = Inr ([0x7b, 0xbd], 2)"
proof -
  have d: "decode [0x7b, 0xbd, 7] = Inr (15293, 2)" by code_simp
  with varint_decode_exact [of "[0x7b, 0xbd, 7]"] show ?thesis by simp
qed

end
