(* ===== verification/Frame_Types.thy ===== *)
theory Frame_Types
  imports Varint
begin

text \<open>
  Model of \<open>src/src/frame/types.zig\<close> and of the connection-ID type of
  \<open>src/src/wire/header.zig\<close>: one record per frame struct and the tagged union of all
  frames.  Fixed-size arrays are byte lists whose length the well-formedness predicate of
  the encoder states; \<open>u64\<close> and \<open>u32\<close> fields are words.
\<close>

subsection \<open>Connection IDs\<close>

definition max_cid_len :: nat where
  "max_cid_len = 20"

record conn_id =
  cid_bytes :: "byte list"
  cid_len :: nat

definition fromSlice :: "byte list \<Rightarrow> wire_error + conn_id" where
  "fromSlice src =
     (if length src > max_cid_len then Inl ConnIdTooLong
      else Inr \<lparr>cid_bytes = src @ replicate (max_cid_len - length src) 0, cid_len = length src\<rparr>)"

definition cid_slice :: "conn_id \<Rightarrow> byte list" where
  "cid_slice c = take (cid_len c) (cid_bytes c)"

text \<open>The shape every \<open>ConnId\<close> built by \<open>fromSlice\<close> has.\<close>

definition cid_ok :: "conn_id \<Rightarrow> bool" where
  "cid_ok c \<longleftrightarrow> length (cid_bytes c) = max_cid_len \<and> cid_len c \<le> max_cid_len \<and>
     drop (cid_len c) (cid_bytes c) = replicate (max_cid_len - cid_len c) 0"

lemma fromSlice_ok: "fromSlice src = Inr c \<Longrightarrow> cid_ok c \<and> cid_slice c = src \<and> length src \<le> 20"
  by (auto simp: fromSlice_def cid_ok_def cid_slice_def max_cid_len_def split: if_splits)

lemma fromSlice_slice: "cid_ok c \<Longrightarrow> fromSlice (cid_slice c) = Inr c"
proof -
  assume ok: "cid_ok c"
  then have "cid_bytes c = cid_slice c @ replicate (max_cid_len - cid_len c) 0"
    unfolding cid_ok_def cid_slice_def by (metis append_take_drop_id)
  moreover have "length (cid_slice c) = cid_len c"
    using ok by (simp add: cid_ok_def cid_slice_def)
  ultimately show ?thesis using ok
    by (cases c) (auto simp: fromSlice_def cid_ok_def)
qed

lemma length_cid_slice: "cid_ok c \<Longrightarrow> length (cid_slice c) = cid_len c"
  by (simp add: cid_ok_def cid_slice_def)

subsection \<open>Frame payloads\<close>

record padding = pd_count :: u64

record reset_stream =
  rs_stream_id :: u64
  rs_application_error_code :: u64
  rs_final_size :: u64

record stop_sending =
  ss_stream_id :: u64
  ss_application_error_code :: u64

record crypto =
  cr_offset :: u64
  cr_data :: "byte list"

record new_token = nt_token :: "byte list"

record max_data = md_maximum_data :: u64

record max_stream_data =
  msd_stream_id :: u64
  msd_maximum_stream_data :: u64

record max_streams =
  mst_bidi :: bool
  mst_maximum_streams :: u64

record data_blocked = db_maximum_data :: u64

record stream_data_blocked =
  sdb_stream_id :: u64
  sdb_maximum_stream_data :: u64

record streams_blocked =
  sb_bidi :: bool
  sb_maximum_streams :: u64

record new_connection_id =
  nci_sequence_number :: u64
  nci_retire_prior_to :: u64
  nci_connection_id :: conn_id
  nci_stateless_reset_token :: "byte list"

record retire_connection_id = rci_sequence_number :: u64

record path_challenge = pc_data :: "byte list"

record path_response = pr_data :: "byte list"

record connection_close =
  cc_is_transport :: bool
  cc_error_code :: u64
  cc_frame_type :: u64
  cc_reason_phrase :: "byte list"

record ack_range =
  ar_gap :: u64
  ar_length :: u64

record ecn_counts =
  ec_ect0 :: u64
  ec_ect1 :: u64
  ec_ecn_ce :: u64

record ack =
  ak_largest_acked :: u64
  ak_ack_delay :: u64
  ak_first_range :: u64
  ak_range_count :: u64
  ak_ranges_bytes :: "byte list"
  ak_ecn_counts :: "ecn_counts option"

record path_ack =
  pa_path_id :: u32
  pa_largest_acked :: u64
  pa_ack_delay :: u64
  pa_first_range :: u64
  pa_range_count :: u64
  pa_ranges_bytes :: "byte list"
  pa_ecn_counts :: "ecn_counts option"

record path_abandon =
  pab_path_id :: u32
  pab_error_code :: u64

record path_status =
  ps_path_id :: u32
  ps_sequence_number :: u64

record path_new_connection_id =
  pnc_path_id :: u32
  pnc_sequence_number :: u64
  pnc_retire_prior_to :: u64
  pnc_connection_id :: conn_id
  pnc_stateless_reset_token :: "byte list"

record path_retire_connection_id =
  prc_path_id :: u32
  prc_sequence_number :: u64

record max_path_id = mpi_maximum_path_id :: u32

record paths_blocked = pb_maximum_path_id :: u32

record path_cids_blocked =
  pcb_path_id :: u32
  pcb_next_sequence_number :: u64

text \<open>The two alternative-address structs differ only in the width of \<open>address\<close>.\<close>

record alternative_address =
  aa_preferred :: bool
  aa_retire :: bool
  aa_status_sequence_number :: u64
  aa_address :: "byte list"
  aa_port :: u16

record stream_frame =
  sf_stream_id :: u64
  sf_offset :: u64
  sf_data :: "byte list"
  sf_has_offset :: bool
  sf_has_length :: bool
  sf_fin :: bool

record datagram =
  dg_data :: "byte list"
  dg_has_length :: bool

record ack_frequency =
  af_sequence_number :: u64
  af_ack_eliciting_threshold :: u64
  af_request_max_ack_delay_us :: u64
  af_reordering_threshold :: u64

datatype frame =
    Padding padding
  | Ping
  | Ack ack
  | ResetStream reset_stream
  | StopSending stop_sending
  | Crypto crypto
  | NewToken new_token
  | Stream stream_frame
  | MaxData max_data
  | MaxStreamData max_stream_data
  | MaxStreams max_streams
  | DataBlocked data_blocked
  | StreamDataBlocked stream_data_blocked
  | StreamsBlocked streams_blocked
  | NewConnectionId new_connection_id
  | RetireConnectionId retire_connection_id
  | PathChallenge path_challenge
  | PathResponse path_response
  | ConnectionClose connection_close
  | HandshakeDone
  | Datagram datagram
  | PathAck path_ack
  | PathAbandon path_abandon
  | PathStatusBackup path_status
  | PathStatusAvailable path_status
  | PathNewConnectionId path_new_connection_id
  | PathRetireConnectionId path_retire_connection_id
  | MaxPathId max_path_id
  | PathsBlocked paths_blocked
  | PathCidsBlocked path_cids_blocked
  | AlternativeV4Address alternative_address
  | AlternativeV6Address alternative_address
  | AckFrequency ack_frequency
  | ImmediateAck

end
