(* ===== verification/Frame_Encode.thy ===== *)
theory Frame_Encode
  imports Frame_Types
begin

text \<open>
  Model of \<open>src/src/frame/encode.zig\<close>.  Each \<open>encodeX\<close> of the source is a straight
  line of \<open>pos += try ...\<close> steps; its model is the list of those steps, and \<open>run_put\<close>
  performs one step on the buffer.  \<open>frame_encode\<close> runs the list from cursor 0.  The
  length function \<open>frame_encodedLen\<close> is translated on its own, as the source keeps it
  apart from the encoder.
\<close>

subsection \<open>Steps\<close>

datatype put =
    PutType byte              \<comment> \<open>\<open>writeTypeOnly\<close>\<close>
  | PutVarint u64             \<comment> \<open>\<open>varint.encode(dst[pos..], v)\<close>, also \<open>writeFrameType\<close>\<close>
  | PutBytes "byte list"      \<comment> \<open>length check and \<open>@memcpy\<close>, or a single byte store\<close>

definition writeTypeOnly :: "byte \<Rightarrow> writer" where
  "writeTypeOnly type_byte dst pos =
     (if length dst < pos + 1 then Inl BufferTooSmall else Inr (dst[pos := type_byte], pos + 1))"

definition put_varint :: "u64 \<Rightarrow> writer" where
  "put_varint v dst pos =
     zbind (encode (drop pos dst) v) (\<lambda>(t, n). Inr (take pos dst @ t, pos + n))"

fun run_put :: "put \<Rightarrow> writer" where
  "run_put (PutType b) = writeTypeOnly b"
| "run_put (PutVarint v) = put_varint v"
| "run_put (PutBytes bs) = put_bytes bs"

definition run_puts :: "put list \<Rightarrow> byte list \<Rightarrow> wire_error + (byte list \<times> nat)" where
  "run_puts ps dst = write_all (map run_put ps) dst 0"

subsection \<open>Frame type constants\<close>

definition frame_type_path_ack :: u64 where "frame_type_path_ack = 0x3e"
definition frame_type_path_ack_ecn :: u64 where "frame_type_path_ack_ecn = 0x3f"
definition frame_type_path_abandon :: u64 where "frame_type_path_abandon = 0x3e75"
definition frame_type_path_status_backup :: u64 where "frame_type_path_status_backup = 0x3e76"
definition frame_type_path_status_available :: u64 where
  "frame_type_path_status_available = 0x3e77"
definition frame_type_path_new_connection_id :: u64 where
  "frame_type_path_new_connection_id = 0x3e78"
definition frame_type_path_retire_connection_id :: u64 where
  "frame_type_path_retire_connection_id = 0x3e79"
definition frame_type_max_path_id :: u64 where "frame_type_max_path_id = 0x3e7a"
definition frame_type_paths_blocked :: u64 where "frame_type_paths_blocked = 0x3e7b"
definition frame_type_path_cids_blocked :: u64 where "frame_type_path_cids_blocked = 0x3e7c"
definition frame_type_alternative_v4_address :: u64 where
  "frame_type_alternative_v4_address = 0x1d5845e2"
definition frame_type_alternative_v6_address :: u64 where
  "frame_type_alternative_v6_address = 0x1d5845e3"
definition frame_type_ack_frequency :: u64 where "frame_type_ack_frequency = 0xaf"
definition frame_type_immediate_ack :: u64 where "frame_type_immediate_ack = 0x1f"

lemmas frame_type_defs =
  frame_type_path_ack_def frame_type_path_ack_ecn_def frame_type_path_abandon_def
  frame_type_path_status_backup_def frame_type_path_status_available_def
  frame_type_path_new_connection_id_def frame_type_path_retire_connection_id_def
  frame_type_max_path_id_def frame_type_paths_blocked_def frame_type_path_cids_blocked_def
  frame_type_alternative_v4_address_def frame_type_alternative_v6_address_def
  frame_type_ack_frequency_def frame_type_immediate_ack_def

subsection \<open>The encoders\<close>

definition slice_len :: "byte list \<Rightarrow> u64" where
  "slice_len bs = word_of_nat (length bs)"

definition encodePadding :: "padding \<Rightarrow> put list" where
  "encodePadding p = [PutBytes (replicate (unat (pd_count p)) 0)]"

definition encodeSingleVarint :: "byte \<Rightarrow> u64 \<Rightarrow> put list" where
  "encodeSingleVarint type_byte v = [PutType type_byte, PutVarint v]"

definition encodeResetStream :: "reset_stream \<Rightarrow> put list" where
  "encodeResetStream f =
     [PutType 0x04, PutVarint (rs_stream_id f), PutVarint (rs_application_error_code f),
      PutVarint (rs_final_size f)]"

definition encodeAckFrequency :: "ack_frequency \<Rightarrow> put list" where
  "encodeAckFrequency f =
     [PutVarint frame_type_ack_frequency, PutVarint (af_sequence_number f),
      PutVarint (af_ack_eliciting_threshold f), PutVarint (af_request_max_ack_delay_us f),
      PutVarint (af_reordering_threshold f)]"

definition encodeStopSending :: "stop_sending \<Rightarrow> put list" where
  "encodeStopSending f =
     [PutType 0x05, PutVarint (ss_stream_id f), PutVarint (ss_application_error_code f)]"

definition encodeCrypto :: "crypto \<Rightarrow> put list" where
  "encodeCrypto f =
     [PutType 0x06, PutVarint (cr_offset f), PutVarint (slice_len (cr_data f)), PutBytes (cr_data f)]"

definition encodeNewToken :: "new_token \<Rightarrow> put list" where
  "encodeNewToken f = [PutType 0x07, PutVarint (slice_len (nt_token f)), PutBytes (nt_token f)]"

definition encodeMaxStreamData :: "max_stream_data \<Rightarrow> put list" where
  "encodeMaxStreamData f =
     [PutType 0x11, PutVarint (msd_stream_id f), PutVarint (msd_maximum_stream_data f)]"

definition encodeStreamDataBlocked :: "stream_data_blocked \<Rightarrow> put list" where
  "encodeStreamDataBlocked f =
     [PutType 0x15, PutVarint (sdb_stream_id f), PutVarint (sdb_maximum_stream_data f)]"

definition writeCidAndResetToken :: "conn_id \<Rightarrow> byte list \<Rightarrow> put list" where
  "writeCidAndResetToken cid token =
     [PutBytes [word_of_nat (cid_len cid)], PutBytes (cid_slice cid), PutBytes token]"

definition cidAndResetTokenLen :: "conn_id \<Rightarrow> nat" where
  "cidAndResetTokenLen cid = 1 + cid_len cid + 16"

definition encodeNewConnectionId :: "new_connection_id \<Rightarrow> put list" where
  "encodeNewConnectionId f =
     [PutType 0x18, PutVarint (nci_sequence_number f), PutVarint (nci_retire_prior_to f)]
     @ writeCidAndResetToken (nci_connection_id f) (nci_stateless_reset_token f)"

text \<open>One length check for the type byte and the eight data bytes together.\<close>

definition encodeFixed8 :: "byte \<Rightarrow> byte list \<Rightarrow> put list" where
  "encodeFixed8 type_byte data = [PutBytes (type_byte # data)]"

definition encodeEcn :: "ecn_counts option \<Rightarrow> put list" where
  "encodeEcn ecn =
     (case ecn of None \<Rightarrow> []
      | Some e \<Rightarrow> [PutVarint (ec_ect0 e), PutVarint (ec_ect1 e), PutVarint (ec_ecn_ce e)])"

definition encodeAckBody ::
  "u64 \<Rightarrow> u64 \<Rightarrow> u64 \<Rightarrow> u64 \<Rightarrow> byte list \<Rightarrow> ecn_counts option \<Rightarrow> put list" where
  "encodeAckBody largest_acked ack_delay range_count first_range ranges_bytes ecn =
     [PutVarint largest_acked, PutVarint ack_delay, PutVarint range_count, PutVarint first_range,
      PutBytes ranges_bytes] @ encodeEcn ecn"

definition ackBodyLen ::
  "u64 \<Rightarrow> u64 \<Rightarrow> u64 \<Rightarrow> u64 \<Rightarrow> byte list \<Rightarrow> ecn_counts option \<Rightarrow> nat" where
  "ackBodyLen largest_acked ack_delay range_count first_range ranges_bytes ecn =
     encodedLen largest_acked + encodedLen ack_delay + encodedLen range_count
     + encodedLen first_range + length ranges_bytes
     + (case ecn of None \<Rightarrow> 0
        | Some e \<Rightarrow> encodedLen (ec_ect0 e) + encodedLen (ec_ect1 e) + encodedLen (ec_ecn_ce e))"

definition encodeAck :: "ack \<Rightarrow> put list" where
  "encodeAck f =
     PutType (if ak_ecn_counts f = None then 0x02 else 0x03)
     # encodeAckBody (ak_largest_acked f) (ak_ack_delay f) (ak_range_count f) (ak_first_range f)
         (ak_ranges_bytes f) (ak_ecn_counts f)"

definition stream_type_byte :: "stream_frame \<Rightarrow> byte" where
  "stream_type_byte f =
     (let t = 0x08;
          t = (if sf_has_offset f then t OR 0x04 else t);
          t = (if sf_has_length f then t OR 0x02 else t);
          t = (if sf_fin f then t OR 0x01 else t)
      in t)"

definition encodeStream :: "stream_frame \<Rightarrow> put list" where
  "encodeStream f =
     [PutType (stream_type_byte f), PutVarint (sf_stream_id f)]
     @ (if sf_has_offset f then [PutVarint (sf_offset f)] else [])
     @ (if sf_has_length f then [PutVarint (slice_len (sf_data f))] else [])
     @ [PutBytes (sf_data f)]"

definition encodeDatagram :: "datagram \<Rightarrow> put list" where
  "encodeDatagram f =
     [PutType (if dg_has_length f then 0x31 else 0x30)]
     @ (if dg_has_length f then [PutVarint (slice_len (dg_data f))] else [])
     @ [PutBytes (dg_data f)]"

definition encodeConnectionClose :: "connection_close \<Rightarrow> put list" where
  "encodeConnectionClose f =
     [PutType (if cc_is_transport f then 0x1c else 0x1d), PutVarint (cc_error_code f)]
     @ (if cc_is_transport f then [PutVarint (cc_frame_type f)] else [])
     @ [PutVarint (slice_len (cc_reason_phrase f)), PutBytes (cc_reason_phrase f)]"

definition encodePathAck :: "path_ack \<Rightarrow> put list" where
  "encodePathAck f =
     [PutVarint (if pa_ecn_counts f = None then frame_type_path_ack else frame_type_path_ack_ecn),
      PutVarint (ucast (pa_path_id f))]
     @ encodeAckBody (pa_largest_acked f) (pa_ack_delay f) (pa_range_count f) (pa_first_range f)
         (pa_ranges_bytes f) (pa_ecn_counts f)"

definition encodePathAbandon :: "path_abandon \<Rightarrow> put list" where
  "encodePathAbandon f =
     [PutVarint frame_type_path_abandon, PutVarint (ucast (pab_path_id f)),
      PutVarint (pab_error_code f)]"

definition encodePathStatus :: "u64 \<Rightarrow> path_status \<Rightarrow> put list" where
  "encodePathStatus frame_type f =
     [PutVarint frame_type, PutVarint (ucast (ps_path_id f)), PutVarint (ps_sequence_number f)]"

definition encodePathNewConnectionId :: "path_new_connection_id \<Rightarrow> put list" where
  "encodePathNewConnectionId f =
     [PutVarint frame_type_path_new_connection_id, PutVarint (ucast (pnc_path_id f)),
      PutVarint (pnc_sequence_number f), PutVarint (pnc_retire_prior_to f)]
     @ writeCidAndResetToken (pnc_connection_id f) (pnc_stateless_reset_token f)"

definition encodePathRetireConnectionId :: "path_retire_connection_id \<Rightarrow> put list" where
  "encodePathRetireConnectionId f =
     [PutVarint frame_type_path_retire_connection_id, PutVarint (ucast (prc_path_id f)),
      PutVarint (prc_sequence_number f)]"

definition encodePathIdOnly :: "u64 \<Rightarrow> u32 \<Rightarrow> put list" where
  "encodePathIdOnly frame_type path_id = [PutVarint frame_type, PutVarint (ucast path_id)]"

definition encodePathCidsBlocked :: "path_cids_blocked \<Rightarrow> put list" where
  "encodePathCidsBlocked f =
     [PutVarint frame_type_path_cids_blocked, PutVarint (ucast (pcb_path_id f)),
      PutVarint (pcb_next_sequence_number f)]"

definition altAddressFlags :: "bool \<Rightarrow> bool \<Rightarrow> byte" where
  "altAddressFlags preferred retire =
     (let flags = 0;
          flags = (if preferred then flags OR 0x80 else flags);
          flags = (if retire then flags OR 0x40 else flags)
      in flags)"

definition encodeAltAddress :: "u64 \<Rightarrow> alternative_address \<Rightarrow> put list" where
  "encodeAltAddress frame_type f =
     [PutVarint frame_type, PutBytes [altAddressFlags (aa_preferred f) (aa_retire f)],
      PutVarint (aa_status_sequence_number f), PutBytes (aa_address f),
      PutBytes (be_bytes 2 (unat (aa_port f)))]"

definition encodedAltAddressLen :: "u64 \<Rightarrow> alternative_address \<Rightarrow> nat" where
  "encodedAltAddressLen frame_type f =
     encodedLen frame_type + 1 + encodedLen (aa_status_sequence_number f) + length (aa_address f) + 2"

definition encodedPathStatusLen :: "u64 \<Rightarrow> path_status \<Rightarrow> nat" where
  "encodedPathStatusLen frame_type f =
     encodedLen frame_type + encodedLen (ucast (ps_path_id f)) + encodedLen (ps_sequence_number f)"

subsection \<open>Dispatch\<close>

fun frame_puts :: "frame \<Rightarrow> put list" where
  "frame_puts (Padding f) = encodePadding f"
| "frame_puts Ping = [PutType 0x01]"
| "frame_puts (Ack f) = encodeAck f"
| "frame_puts (ResetStream f) = encodeResetStream f"
| "frame_puts (StopSending f) = encodeStopSending f"
| "frame_puts (Crypto f) = encodeCrypto f"
| "frame_puts (NewToken f) = encodeNewToken f"
| "frame_puts (Stream f) = encodeStream f"
| "frame_puts (MaxData f) = encodeSingleVarint 0x10 (md_maximum_data f)"
| "frame_puts (AckFrequency f) = encodeAckFrequency f"
| "frame_puts ImmediateAck = [PutVarint frame_type_immediate_ack]"
| "frame_puts (MaxStreamData f) = encodeMaxStreamData f"
| "frame_puts (MaxStreams f) =
     encodeSingleVarint (if mst_bidi f then 0x12 else 0x13) (mst_maximum_streams f)"
| "frame_puts (DataBlocked f) = encodeSingleVarint 0x14 (db_maximum_data f)"
| "frame_puts (StreamDataBlocked f) = encodeStreamDataBlocked f"
| "frame_puts (StreamsBlocked f) =
     encodeSingleVarint (if sb_bidi f then 0x16 else 0x17) (sb_maximum_streams f)"
| "frame_puts (NewConnectionId f) = encodeNewConnectionId f"
| "frame_puts (RetireConnectionId f) = encodeSingleVarint 0x19 (rci_sequence_number f)"
| "frame_puts (PathChallenge f) = encodeFixed8 0x1a (pc_data f)"
| "frame_puts (PathResponse f) = encodeFixed8 0x1b (pr_data f)"
| "frame_puts (ConnectionClose f) = encodeConnectionClose f"
| "frame_puts HandshakeDone = [PutType 0x1e]"
| "frame_puts (Datagram f) = encodeDatagram f"
| "frame_puts (PathAck f) = encodePathAck f"
| "frame_puts (PathAbandon f) = encodePathAbandon f"
| "frame_puts (PathStatusBackup f) = encodePathStatus frame_type_path_status_backup f"
| "frame_puts (PathStatusAvailable f) = encodePathStatus frame_type_path_status_available f"
| "frame_puts (PathNewConnectionId f) = encodePathNewConnectionId f"
| "frame_puts (PathRetireConnectionId f) = encodePathRetireConnectionId f"
| "frame_puts (MaxPathId f) = encodePathIdOnly frame_type_max_path_id (mpi_maximum_path_id f)"
| "frame_puts (PathsBlocked f) = encodePathIdOnly frame_type_paths_blocked (pb_maximum_path_id f)"
| "frame_puts (PathCidsBlocked f) = encodePathCidsBlocked f"
| "frame_puts (AlternativeV4Address f) = encodeAltAddress frame_type_alternative_v4_address f"
| "frame_puts (AlternativeV6Address f) = encodeAltAddress frame_type_alternative_v6_address f"

definition frame_encode :: "byte list \<Rightarrow> frame \<Rightarrow> wire_error + (byte list \<times> nat)" where
  "frame_encode dst f = run_puts (frame_puts f) dst"

fun frame_encodedLen :: "frame \<Rightarrow> nat" where
  "frame_encodedLen (Padding f) = unat (pd_count f)"
| "frame_encodedLen Ping = 1"
| "frame_encodedLen (Ack f) =
     1 + ackBodyLen (ak_largest_acked f) (ak_ack_delay f) (ak_range_count f) (ak_first_range f)
           (ak_ranges_bytes f) (ak_ecn_counts f)"
| "frame_encodedLen (ResetStream f) =
     1 + encodedLen (rs_stream_id f) + encodedLen (rs_application_error_code f)
     + encodedLen (rs_final_size f)"
| "frame_encodedLen (AckFrequency f) =
     encodedLen frame_type_ack_frequency + encodedLen (af_sequence_number f)
     + encodedLen (af_ack_eliciting_threshold f) + encodedLen (af_request_max_ack_delay_us f)
     + encodedLen (af_reordering_threshold f)"
| "frame_encodedLen ImmediateAck = encodedLen frame_type_immediate_ack"
| "frame_encodedLen (StopSending f) =
     1 + encodedLen (ss_stream_id f) + encodedLen (ss_application_error_code f)"
| "frame_encodedLen (Crypto f) =
     1 + encodedLen (cr_offset f) + encodedLen (slice_len (cr_data f)) + length (cr_data f)"
| "frame_encodedLen (NewToken f) =
     1 + encodedLen (slice_len (nt_token f)) + length (nt_token f)"
| "frame_encodedLen (Stream f) =
     1 + encodedLen (sf_stream_id f)
     + (if sf_has_offset f then encodedLen (sf_offset f) else 0)
     + (if sf_has_length f then encodedLen (slice_len (sf_data f)) else 0)
     + length (sf_data f)"
| "frame_encodedLen (MaxData f) = 1 + encodedLen (md_maximum_data f)"
| "frame_encodedLen (MaxStreamData f) =
     1 + encodedLen (msd_stream_id f) + encodedLen (msd_maximum_stream_data f)"
| "frame_encodedLen (MaxStreams f) = 1 + encodedLen (mst_maximum_streams f)"
| "frame_encodedLen (DataBlocked f) = 1 + encodedLen (db_maximum_data f)"
| "frame_encodedLen (StreamDataBlocked f) =
     1 + encodedLen (sdb_stream_id f) + encodedLen (sdb_maximum_stream_data f)"
| "frame_encodedLen (StreamsBlocked f) = 1 + encodedLen (sb_maximum_streams f)"
| "frame_encodedLen (NewConnectionId f) =
     1 + encodedLen (nci_sequence_number f) + encodedLen (nci_retire_prior_to f)
     + cidAndResetTokenLen (nci_connection_id f)"
| "frame_encodedLen (RetireConnectionId f) = 1 + encodedLen (rci_sequence_number f)"
| "frame_encodedLen (PathChallenge f) = 1 + 8"
| "frame_encodedLen (PathResponse f) = 1 + 8"
| "frame_encodedLen (ConnectionClose f) =
     1 + encodedLen (cc_error_code f)
     + (if cc_is_transport f then encodedLen (cc_frame_type f) else 0)
     + encodedLen (slice_len (cc_reason_phrase f)) + length (cc_reason_phrase f)"
| "frame_encodedLen HandshakeDone = 1"
| "frame_encodedLen (Datagram f) =
     1 + (if dg_has_length f then encodedLen (slice_len (dg_data f)) else 0) + length (dg_data f)"
| "frame_encodedLen (PathAck f) =
     encodedLen (if pa_ecn_counts f = None then frame_type_path_ack else frame_type_path_ack_ecn)
     + encodedLen (ucast (pa_path_id f))
     + ackBodyLen (pa_largest_acked f) (pa_ack_delay f) (pa_range_count f) (pa_first_range f)
         (pa_ranges_bytes f) (pa_ecn_counts f)"
| "frame_encodedLen (PathAbandon f) =
     encodedLen frame_type_path_abandon + encodedLen (ucast (pab_path_id f))
     + encodedLen (pab_error_code f)"
| "frame_encodedLen (PathStatusBackup f) = encodedPathStatusLen frame_type_path_status_backup f"
| "frame_encodedLen (PathStatusAvailable f) =
     encodedPathStatusLen frame_type_path_status_available f"
| "frame_encodedLen (PathNewConnectionId f) =
     encodedLen frame_type_path_new_connection_id + encodedLen (ucast (pnc_path_id f))
     + encodedLen (pnc_sequence_number f) + encodedLen (pnc_retire_prior_to f)
     + cidAndResetTokenLen (pnc_connection_id f)"
| "frame_encodedLen (PathRetireConnectionId f) =
     encodedLen frame_type_path_retire_connection_id + encodedLen (ucast (prc_path_id f))
     + encodedLen (prc_sequence_number f)"
| "frame_encodedLen (MaxPathId f) =
     encodedLen frame_type_max_path_id + encodedLen (ucast (mpi_maximum_path_id f))"
| "frame_encodedLen (PathsBlocked f) =
     encodedLen frame_type_paths_blocked + encodedLen (ucast (pb_maximum_path_id f))"
| "frame_encodedLen (PathCidsBlocked f) =
     encodedLen frame_type_path_cids_blocked + encodedLen (ucast (pcb_path_id f))
     + encodedLen (pcb_next_sequence_number f)"
| "frame_encodedLen (AlternativeV4Address f) =
     encodedAltAddressLen frame_type_alternative_v4_address f"
| "frame_encodedLen (AlternativeV6Address f) =
     encodedAltAddressLen frame_type_alternative_v6_address f"

subsection \<open>What a step writes\<close>

fun put_out :: "put \<Rightarrow> byte list" where
  "put_out (PutType b) = [b]"
| "put_out (PutVarint v) = vbytes v"
| "put_out (PutBytes bs) = bs"

fun put_ok :: "put \<Rightarrow> bool" where
  "put_ok (PutVarint v) = (v \<le> max_value)"
| "put_ok _ = True"

definition frame_bytes :: "frame \<Rightarrow> byte list" where
  "frame_bytes f = concat (map put_out (frame_puts f))"

text \<open>Every varint field of the frame is in range.\<close>

definition frame_encodable :: "frame \<Rightarrow> bool" where
  "frame_encodable f = list_all put_ok (frame_puts f)"

text \<open>The fixed-size arrays of the structs have their declared sizes.\<close>

fun frame_shaped :: "frame \<Rightarrow> bool" where
  "frame_shaped (NewConnectionId f) =
     (cid_ok (nci_connection_id f) \<and> length (nci_stateless_reset_token f) = 16)"
| "frame_shaped (PathNewConnectionId f) =
     (cid_ok (pnc_connection_id f) \<and> length (pnc_stateless_reset_token f) = 16)"
| "frame_shaped (PathChallenge f) = (length (pc_data f) = 8)"
| "frame_shaped (PathResponse f) = (length (pr_data f) = 8)"
| "frame_shaped (AlternativeV4Address f) = (length (aa_address f) = 4)"
| "frame_shaped (AlternativeV6Address f) = (length (aa_address f) = 16)"
| "frame_shaped _ = True"

lemma emits_put_type: "emits (writeTypeOnly b) [b]"
  by (simp add: emits_def writeTypeOnly_def put_bytes_def upd_conv_take_nth_drop)

lemma emits_put_varint: "v \<le> max_value \<Longrightarrow> emits (put_varint v) (vbytes v)"
  by (auto simp: emits_def put_varint_def put_bytes_def encode_eq add.commute)

lemma emits_run_put: "put_ok p \<Longrightarrow> emits (run_put p) (put_out p)"
  by (cases p) (simp_all add: emits_put_type emits_put_varint)

lemma emits_run_puts:
  "list_all put_ok ps \<Longrightarrow> emits (write_all (map run_put ps)) (concat (map put_out ps))"
proof (induction ps)
  case Nil
  show ?case by (simp add: emits_def put_bytes_def)
next
  case (Cons p ps)
  then show ?case using emits_Cons [OF emits_run_put [of p], of "map run_put ps"]
    by (simp del: write_all.simps)
qed

lemma run_puts_ok:
  "list_all put_ok ps \<Longrightarrow> run_puts ps dst = put_bytes (concat (map put_out ps)) dst 0"
  unfolding run_puts_def by (rule emitsD [OF emits_run_puts]) simp_all

lemma write_all_fails:
  "w \<in> set ws \<Longrightarrow> (\<And>d p. \<exists>e. w d p = Inl e) \<Longrightarrow> \<exists>e. write_all ws dst pos = Inl e"
proof (induction ws arbitrary: dst pos)
  case Nil
  then show ?case by simp
next
  case (Cons v ws)
  show ?case
  proof (cases "v dst pos")
    case (Inl e)
    then show ?thesis by simp
  next
    case (Inr r)
    moreover have "v \<noteq> w" using Inr Cons.prems(2) [of dst pos] by auto
    ultimately show ?thesis using Cons.IH [of "fst r" "snd r"] Cons.prems by (cases r) auto
  qed
qed

lemma run_puts_bad: "\<not> list_all put_ok ps \<Longrightarrow> \<exists>e. run_puts ps dst = Inl e"
proof -
  assume "\<not> list_all put_ok ps"
  then obtain v where v: "PutVarint v \<in> set ps" "\<not> v \<le> max_value"
    by (auto simp: list_all_iff elim: put_ok.elims)
  have "\<exists>e. put_varint v d p = Inl e" for d p
    using v(2) by (simp add: put_varint_def encode_eq)
  with v(1) show ?thesis
    unfolding run_puts_def by (intro write_all_fails [where w = "put_varint v"]) force+
qed

lemma max_value_numeral: "(max_value :: u64) = 4611686018427387903"
  by (simp add: max_value_def)

lemma encodedLen_numeral:
  "encodedLen v = (if v < 64 then 1 else if v < 16384 then 2 else if v < 1073741824 then 4
     else if v \<le> 4611686018427387903 then 8 else 0)"
  by (simp add: encodedLen_def max_value_numeral)

lemmas encode_frame_defs =
  encodePadding_def encodeSingleVarint_def encodeResetStream_def encodeAckFrequency_def
  encodeStopSending_def encodeCrypto_def encodeNewToken_def encodeMaxStreamData_def
  encodeStreamDataBlocked_def writeCidAndResetToken_def encodeNewConnectionId_def
  encodeFixed8_def encodeEcn_def encodeAckBody_def encodeAck_def encodeStream_def
  encodeDatagram_def encodeConnectionClose_def encodePathAck_def encodePathAbandon_def
  encodePathStatus_def encodePathNewConnectionId_def encodePathRetireConnectionId_def
  encodePathIdOnly_def encodePathCidsBlocked_def encodeAltAddress_def

lemma frame_encodedLen_correct:
  "frame_shaped f \<Longrightarrow> frame_encodedLen f = length (frame_bytes f)"
  by (cases f)
     (simp_all add: frame_bytes_def encode_frame_defs ackBodyLen_def cidAndResetTokenLen_def
       encodedAltAddressLen_def encodedPathStatusLen_def length_cid_slice split: option.split)

text \<open>The encoder, in one equation.\<close>

lemma frame_encode_eq:
  assumes "frame_encodable f" "frame_shaped f"
  shows "frame_encode dst f =
     (if length dst < frame_encodedLen f then Inl BufferTooSmall
      else Inr (frame_bytes f @ drop (frame_encodedLen f) dst, frame_encodedLen f))"
  using run_puts_ok [of "frame_puts f" dst] assms frame_encodedLen_correct [OF assms(2)]
  by (simp add: frame_encode_def frame_encodable_def put_bytes_def frame_bytes_def)

lemma frame_encode_refuses: "\<not> frame_encodable f \<Longrightarrow> \<exists>e. frame_encode dst f = Inl e"
  using run_puts_bad [of "frame_puts f" dst] by (simp add: frame_encode_def frame_encodable_def)

end
