(* ===== verification/Frame_Decode.thy ===== *)
theory Frame_Decode
  imports Frame_Encode
begin

text \<open>
  Model of \<open>src/src/frame/decode.zig\<close>: every decoder reads the input slice \<open>src\<close> from a
  cursor and returns the frame with the cursor after it, or the first error.  The lemmas
  show that the decoder inverts the encoder of \<open>Frame_Encode\<close>, that a decoded frame is
  always one the encoder accepts, and that the decoder makes progress inside the input.
\<close>

subsection \<open>Reading steps\<close>

text \<open>\<open>const v = try varint.decode(src[pos..]); pos += v.bytes_read;\<close>\<close>

definition get_varint :: "byte list \<Rightarrow> nat \<Rightarrow> wire_error + (u64 \<times> nat)" where
  "get_varint src pos = zbind (decode (drop pos src)) (\<lambda>(v, n). Inr (v, pos + n))"

definition readBorrowed :: "byte list \<Rightarrow> nat \<Rightarrow> u64 \<Rightarrow> wire_error + byte list" where
  "readBorrowed src pos len_value =
     (if unat len_value > length src - pos then Inl InsufficientBytes
      else Inr (take (unat len_value) (drop pos src)))"

text \<open>A length check followed by the copy of \<open>k\<close> bytes.\<close>

definition read_fixed :: "byte list \<Rightarrow> nat \<Rightarrow> nat \<Rightarrow> wire_error + (byte list \<times> nat)" where
  "read_fixed src pos k =
     (if length src < pos + k then Inl InsufficientBytes
      else Inr (take k (drop pos src), pos + k))"

definition decodePathId :: "byte list \<Rightarrow> nat \<Rightarrow> wire_error + (u32 \<times> nat)" where
  "decodePathId src pos =
     zbind (get_varint src pos) (\<lambda>(v, pos).
       if v > 0xffffffff then Inl PathIdTooLarge else Inr (ucast v, pos))"

subsection \<open>ACK bodies\<close>

definition max_incoming_ack_ranges :: u64 where "max_incoming_ack_ranges = 256"

text \<open>The parse loop over \<open>range_count\<close> gap and length pairs.\<close>

fun skip_ranges :: "nat \<Rightarrow> byte list \<Rightarrow> nat \<Rightarrow> wire_error + nat" where
  "skip_ranges 0 src pos = Inr pos"
| "skip_ranges (Suc k) src pos =
     zbind (get_varint src pos) (\<lambda>(gap, pos).
     zbind (get_varint src pos) (\<lambda>(len, pos).
     skip_ranges k src pos))"

fun validate_loop :: "nat \<Rightarrow> u64 \<Rightarrow> byte list \<Rightarrow> nat \<Rightarrow> wire_error + unit" where
  "validate_loop 0 cursor rb pos = Inr ()"
| "validate_loop (Suc k) cursor rb pos =
     zbind (get_varint rb pos) (\<lambda>(gap, pos).
     zbind (get_varint rb pos) (\<lambda>(len, pos).
       if cursor < gap + 2 then Inl OverlappingAckRanges
       else let new_largest = cursor - gap - 2 in
         if new_largest < len then Inl OverlappingAckRanges
         else validate_loop k (new_largest - len) rb pos))"

definition validateAckRanges :: "u64 \<Rightarrow> u64 \<Rightarrow> u64 \<Rightarrow> byte list \<Rightarrow> wire_error + unit" where
  "validateAckRanges largest_acked first_range range_count ranges_bytes =
     (if first_range > largest_acked then Inl OverlappingAckRanges
      else validate_loop (unat range_count) (largest_acked - first_range) ranges_bytes 0)"

record ack_body =
  ab_largest_acked :: u64
  ab_ack_delay :: u64
  ab_first_range :: u64
  ab_range_count :: u64
  ab_ranges_bytes :: "byte list"
  ab_ecn_counts :: "ecn_counts option"
  ab_end :: nat

definition decodeEcn :: "bool \<Rightarrow> byte list \<Rightarrow> nat \<Rightarrow> wire_error + (ecn_counts option \<times> nat)" where
  "decodeEcn with_ecn src pos =
     (if with_ecn then
        zbind (get_varint src pos) (\<lambda>(e0, pos).
        zbind (get_varint src pos) (\<lambda>(e1, pos).
        zbind (get_varint src pos) (\<lambda>(ce, pos).
          Inr (Some \<lparr>ec_ect0 = e0, ec_ect1 = e1, ec_ecn_ce = ce\<rparr>, pos))))
      else Inr (None, pos))"

definition decodeAckBody :: "byte list \<Rightarrow> nat \<Rightarrow> bool \<Rightarrow> wire_error + ack_body" where
  "decodeAckBody src start with_ecn =
     zbind (get_varint src start) (\<lambda>(largest, pos).
     zbind (get_varint src pos) (\<lambda>(ack_delay, pos).
     zbind (get_varint src pos) (\<lambda>(range_count, pos).
     if range_count > max_incoming_ack_ranges then Inl AckRangeCountTooLarge
     else
     zbind (get_varint src pos) (\<lambda>(first_range, ranges_start).
     zbind (skip_ranges (unat range_count) src ranges_start) (\<lambda>pos.
     let ranges_bytes = take (pos - ranges_start) (drop ranges_start src) in
     zbind (validateAckRanges largest first_range range_count ranges_bytes) (\<lambda>_.
     zbind (decodeEcn with_ecn src pos) (\<lambda>(ecn, pos).
       Inr \<lparr>ab_largest_acked = largest, ab_ack_delay = ack_delay, ab_first_range = first_range,
            ab_range_count = range_count, ab_ranges_bytes = ranges_bytes, ab_ecn_counts = ecn,
            ab_end = pos\<rparr>)))))))"

type_synonym decoded = "wire_error + (frame \<times> nat)"

definition decodeAck :: "byte list \<Rightarrow> nat \<Rightarrow> bool \<Rightarrow> decoded" where
  "decodeAck src start with_ecn =
     zbind (decodeAckBody src start with_ecn) (\<lambda>b.
       Inr (Ack \<lparr>ak_largest_acked = ab_largest_acked b, ak_ack_delay = ab_ack_delay b,
                 ak_first_range = ab_first_range b, ak_range_count = ab_range_count b,
                 ak_ranges_bytes = ab_ranges_bytes b, ak_ecn_counts = ab_ecn_counts b\<rparr>,
            ab_end b))"

definition decodePathAck :: "byte list \<Rightarrow> nat \<Rightarrow> bool \<Rightarrow> decoded" where
  "decodePathAck src start with_ecn =
     zbind (decodePathId src start) (\<lambda>(path_id, pos).
     zbind (decodeAckBody src pos with_ecn) (\<lambda>b.
       Inr (PathAck \<lparr>pa_path_id = path_id, pa_largest_acked = ab_largest_acked b,
                     pa_ack_delay = ab_ack_delay b, pa_first_range = ab_first_range b,
                     pa_range_count = ab_range_count b, pa_ranges_bytes = ab_ranges_bytes b,
                     pa_ecn_counts = ab_ecn_counts b\<rparr>,
            ab_end b)))"

subsection \<open>Frames with payload bytes\<close>

definition decodeStream :: "byte list \<Rightarrow> nat \<Rightarrow> byte \<Rightarrow> decoded" where
  "decodeStream src start type_byte =
     (let has_offset = type_byte AND 0x04 \<noteq> 0;
          has_length = type_byte AND 0x02 \<noteq> 0;
          fin = type_byte AND 0x01 \<noteq> 0 in
      zbind (get_varint src start) (\<lambda>(sid, pos).
      zbind (if has_offset then get_varint src pos else Inr (0, pos)) (\<lambda>(off, pos).
      zbind (if has_length
             then zbind (get_varint src pos) (\<lambda>(len, pos).
                  zbind (readBorrowed src pos len) (\<lambda>data. Inr (data, pos + length data)))
             else Inr (drop pos src, length src)) (\<lambda>(data, pos).
        Inr (Stream \<lparr>sf_stream_id = sid, sf_offset = off, sf_data = data,
                     sf_has_offset = has_offset, sf_has_length = has_length, sf_fin = fin\<rparr>,
             pos)))))"

definition decodeCrypto :: "byte list \<Rightarrow> nat \<Rightarrow> decoded" where
  "decodeCrypto src start =
     zbind (get_varint src start) (\<lambda>(off, pos).
     zbind (get_varint src pos) (\<lambda>(len, pos).
     zbind (readBorrowed src pos len) (\<lambda>data.
       Inr (Crypto \<lparr>cr_offset = off, cr_data = data\<rparr>, pos + length data))))"

definition decodeNewToken :: "byte list \<Rightarrow> nat \<Rightarrow> decoded" where
  "decodeNewToken src start =
     zbind (get_varint src start) (\<lambda>(len, pos).
     zbind (readBorrowed src pos len) (\<lambda>token.
       Inr (NewToken \<lparr>nt_token = token\<rparr>, pos + length token)))"

definition decodeDatagram :: "byte list \<Rightarrow> nat \<Rightarrow> bool \<Rightarrow> decoded" where
  "decodeDatagram src start has_length =
     (if has_length
      then zbind (get_varint src start) (\<lambda>(len, pos).
           zbind (readBorrowed src pos len) (\<lambda>data.
             Inr (Datagram \<lparr>dg_data = data, dg_has_length = has_length\<rparr>, pos + length data)))
      else Inr (Datagram \<lparr>dg_data = drop start src, dg_has_length = has_length\<rparr>, length src))"

definition decodeConnectionClose :: "byte list \<Rightarrow> nat \<Rightarrow> bool \<Rightarrow> decoded" where
  "decodeConnectionClose src start is_transport =
     zbind (get_varint src start) (\<lambda>(ec, pos).
     zbind (if is_transport then get_varint src pos else Inr (0, pos)) (\<lambda>(ft, pos).
     zbind (get_varint src pos) (\<lambda>(rl, pos).
     zbind (readBorrowed src pos rl) (\<lambda>reason.
       Inr (ConnectionClose \<lparr>cc_is_transport = is_transport, cc_error_code = ec,
                             cc_frame_type = ft, cc_reason_phrase = reason\<rparr>,
            pos + length reason)))))"

subsection \<open>Frames of varints\<close>

definition decodeResetStream :: "byte list \<Rightarrow> nat \<Rightarrow> decoded" where
  "decodeResetStream src start =
     zbind (get_varint src start) (\<lambda>(sid, pos).
     zbind (get_varint src pos) (\<lambda>(ec, pos).
     zbind (get_varint src pos) (\<lambda>(sz, pos).
       Inr (ResetStream \<lparr>rs_stream_id = sid, rs_application_error_code = ec,
                         rs_final_size = sz\<rparr>, pos))))"

definition decodeStopSending :: "byte list \<Rightarrow> nat \<Rightarrow> decoded" where
  "decodeStopSending src start =
     zbind (get_varint src start) (\<lambda>(sid, pos).
     zbind (get_varint src pos) (\<lambda>(ec, pos).
       Inr (StopSending \<lparr>ss_stream_id = sid, ss_application_error_code = ec\<rparr>, pos)))"

definition decodeAckFrequency :: "byte list \<Rightarrow> nat \<Rightarrow> decoded" where
  "decodeAckFrequency src start =
     zbind (get_varint src start) (\<lambda>(sq, pos).
     zbind (get_varint src pos) (\<lambda>(threshold, pos).
     zbind (get_varint src pos) (\<lambda>(delay, pos).
     zbind (get_varint src pos) (\<lambda>(reorder, pos).
       Inr (AckFrequency \<lparr>af_sequence_number = sq, af_ack_eliciting_threshold = threshold,
                          af_request_max_ack_delay_us = delay,
                          af_reordering_threshold = reorder\<rparr>, pos)))))"

definition decodeMaxData :: "byte list \<Rightarrow> nat \<Rightarrow> decoded" where
  "decodeMaxData src start =
     zbind (get_varint src start) (\<lambda>(v, pos). Inr (MaxData \<lparr>md_maximum_data = v\<rparr>, pos))"

definition decodeMaxStreamData :: "byte list \<Rightarrow> nat \<Rightarrow> decoded" where
  "decodeMaxStreamData src start =
     zbind (get_varint src start) (\<lambda>(sid, pos).
     zbind (get_varint src pos) (\<lambda>(m, pos).
       Inr (MaxStreamData \<lparr>msd_stream_id = sid, msd_maximum_stream_data = m\<rparr>, pos)))"

definition decodeMaxStreams :: "byte list \<Rightarrow> nat \<Rightarrow> bool \<Rightarrow> decoded" where
  "decodeMaxStreams src start bidi =
     zbind (get_varint src start) (\<lambda>(v, pos).
       Inr (MaxStreams \<lparr>mst_bidi = bidi, mst_maximum_streams = v\<rparr>, pos))"

definition decodeDataBlocked :: "byte list \<Rightarrow> nat \<Rightarrow> decoded" where
  "decodeDataBlocked src start =
     zbind (get_varint src start) (\<lambda>(v, pos).
       Inr (DataBlocked \<lparr>db_maximum_data = v\<rparr>, pos))"

definition decodeStreamDataBlocked :: "byte list \<Rightarrow> nat \<Rightarrow> decoded" where
  "decodeStreamDataBlocked src start =
     zbind (get_varint src start) (\<lambda>(sid, pos).
     zbind (get_varint src pos) (\<lambda>(m, pos).
       Inr (StreamDataBlocked \<lparr>sdb_stream_id = sid, sdb_maximum_stream_data = m\<rparr>, pos)))"

definition decodeStreamsBlocked :: "byte list \<Rightarrow> nat \<Rightarrow> bool \<Rightarrow> decoded" where
  "decodeStreamsBlocked src start bidi =
     zbind (get_varint src start) (\<lambda>(v, pos).
       Inr (StreamsBlocked \<lparr>sb_bidi = bidi, sb_maximum_streams = v\<rparr>, pos))"

definition decodeRetireConnectionId :: "byte list \<Rightarrow> nat \<Rightarrow> decoded" where
  "decodeRetireConnectionId src start =
     zbind (get_varint src start) (\<lambda>(v, pos).
       Inr (RetireConnectionId \<lparr>rci_sequence_number = v\<rparr>, pos))"

subsection \<open>Connection ids, tokens and challenges\<close>

definition readCidAndResetToken ::
  "byte list \<Rightarrow> nat \<Rightarrow> wire_error + (conn_id \<times> byte list \<times> nat)" where
  "readCidAndResetToken src start =
     (if length src < start + 1 then Inl InsufficientBytes
      else let cid_len = unat (src ! start); pos = start + 1 in
        if cid_len > max_cid_len then Inl ConnIdTooLong
        else if length src < pos + cid_len then Inl InsufficientBytes
        else zbind (fromSlice (take cid_len (drop pos src))) (\<lambda>cid.
             zbind (read_fixed src (pos + cid_len) 16) (\<lambda>(token, pos).
               Inr (cid, token, pos))))"

definition decodeNewConnectionId :: "byte list \<Rightarrow> nat \<Rightarrow> decoded" where
  "decodeNewConnectionId src start =
     zbind (get_varint src start) (\<lambda>(sq, pos).
     zbind (get_varint src pos) (\<lambda>(ret, pos).
     zbind (readCidAndResetToken src pos) (\<lambda>(cid, token, pos).
       Inr (NewConnectionId \<lparr>nci_sequence_number = sq, nci_retire_prior_to = ret,
              nci_connection_id = cid, nci_stateless_reset_token = token\<rparr>, pos))))"

definition decodePathChallenge :: "byte list \<Rightarrow> nat \<Rightarrow> decoded" where
  "decodePathChallenge src start =
     zbind (read_fixed src start 8) (\<lambda>(data, pos). Inr (PathChallenge \<lparr>pc_data = data\<rparr>, pos))"

definition decodePathResponse :: "byte list \<Rightarrow> nat \<Rightarrow> decoded" where
  "decodePathResponse src start =
     zbind (read_fixed src start 8) (\<lambda>(data, pos). Inr (PathResponse \<lparr>pr_data = data\<rparr>, pos))"

subsection \<open>Multipath and alternative-address frames\<close>

definition decodePathAbandon :: "byte list \<Rightarrow> nat \<Rightarrow> decoded" where
  "decodePathAbandon src start =
     zbind (decodePathId src start) (\<lambda>(path_id, pos).
     zbind (get_varint src pos) (\<lambda>(ec, pos).
       Inr (PathAbandon \<lparr>pab_path_id = path_id, pab_error_code = ec\<rparr>, pos)))"

definition decodePathStatus :: "byte list \<Rightarrow> nat \<Rightarrow> bool \<Rightarrow> decoded" where
  "decodePathStatus src start available =
     zbind (decodePathId src start) (\<lambda>(path_id, pos).
     zbind (get_varint src pos) (\<lambda>(sq, pos).
       let status = \<lparr>ps_path_id = path_id, ps_sequence_number = sq\<rparr> in
       Inr (if available then PathStatusAvailable status else PathStatusBackup status, pos)))"

definition decodePathNewConnectionId :: "byte list \<Rightarrow> nat \<Rightarrow> decoded" where
  "decodePathNewConnectionId src start =
     zbind (decodePathId src start) (\<lambda>(path_id, pos).
     zbind (get_varint src pos) (\<lambda>(sq, pos).
     zbind (get_varint src pos) (\<lambda>(ret, pos).
     zbind (readCidAndResetToken src pos) (\<lambda>(cid, token, pos).
       Inr (PathNewConnectionId \<lparr>pnc_path_id = path_id, pnc_sequence_number = sq,
              pnc_retire_prior_to = ret, pnc_connection_id = cid,
              pnc_stateless_reset_token = token\<rparr>, pos)))))"

definition decodePathRetireConnectionId :: "byte list \<Rightarrow> nat \<Rightarrow> decoded" where
  "decodePathRetireConnectionId src start =
     zbind (decodePathId src start) (\<lambda>(path_id, pos).
     zbind (get_varint src pos) (\<lambda>(sq, pos).
       Inr (PathRetireConnectionId \<lparr>prc_path_id = path_id, prc_sequence_number = sq\<rparr>, pos)))"

definition decodeMaxPathId :: "byte list \<Rightarrow> nat \<Rightarrow> decoded" where
  "decodeMaxPathId src start =
     zbind (decodePathId src start) (\<lambda>(path_id, pos).
       Inr (MaxPathId \<lparr>mpi_maximum_path_id = path_id\<rparr>, pos))"

definition decodePathsBlocked :: "byte list \<Rightarrow> nat \<Rightarrow> decoded" where
  "decodePathsBlocked src start =
     zbind (decodePathId src start) (\<lambda>(path_id, pos).
       Inr (PathsBlocked \<lparr>pb_maximum_path_id = path_id\<rparr>, pos))"

definition decodePathCidsBlocked :: "byte list \<Rightarrow> nat \<Rightarrow> decoded" where
  "decodePathCidsBlocked src start =
     zbind (decodePathId src start) (\<lambda>(path_id, pos).
     zbind (get_varint src pos) (\<lambda>(next_seq, pos).
       Inr (PathCidsBlocked \<lparr>pcb_path_id = path_id, pcb_next_sequence_number = next_seq\<rparr>, pos)))"

text \<open>\<open>addr_len\<close> stands for the comptime width of \<open>T.address\<close> (4 or 16).\<close>

definition decodeAltAddress ::
  "nat \<Rightarrow> byte list \<Rightarrow> nat \<Rightarrow> wire_error + (alternative_address \<times> nat)" where
  "decodeAltAddress addr_len src start =
     (if length src < start + 1 then Inl InsufficientBytes
      else let flags = src ! start; preferred = flags AND 0x80 \<noteq> 0;
               retire = flags AND 0x40 \<noteq> 0 in
        zbind (get_varint src (start + 1)) (\<lambda>(sq, pos).
        zbind (read_fixed src pos addr_len) (\<lambda>(address, pos).
        zbind (read_fixed src pos 2) (\<lambda>(port, pos).
          Inr (\<lparr>aa_preferred = preferred, aa_retire = retire, aa_status_sequence_number = sq,
                aa_address = address, aa_port = word_of_nat (be_val port)\<rparr>, pos)))))"

definition decodeAlternativeV4Address :: "byte list \<Rightarrow> nat \<Rightarrow> decoded" where
  "decodeAlternativeV4Address src start =
     zbind (decodeAltAddress 4 src start) (\<lambda>(v, pos). Inr (AlternativeV4Address v, pos))"

definition decodeAlternativeV6Address :: "byte list \<Rightarrow> nat \<Rightarrow> decoded" where
  "decodeAlternativeV6Address src start =
     zbind (decodeAltAddress 16 src start) (\<lambda>(v, pos). Inr (AlternativeV6Address v, pos))"

subsection \<open>Dispatch\<close>

definition decode_typed :: "u64 \<Rightarrow> byte list \<Rightarrow> nat \<Rightarrow> decoded" where
  "decode_typed frame_type src start =
     (if frame_type = 0x01 then Inr (Ping, start)
      else if frame_type = 0x02 then decodeAck src start False
      else if frame_type = 0x03 then decodeAck src start True
      else if frame_type = 0x04 then decodeResetStream src start
      else if frame_type = 0x05 then decodeStopSending src start
      else if frame_type = 0x06 then decodeCrypto src start
      else if frame_type = 0x07 then decodeNewToken src start
      else if 0x08 \<le> frame_type \<and> frame_type \<le> 0x0f then decodeStream src start (ucast frame_type)
      else if frame_type = 0x10 then decodeMaxData src start
      else if frame_type = frame_type_ack_frequency then decodeAckFrequency src start
      else if frame_type = frame_type_immediate_ack then Inr (ImmediateAck, start)
      else if frame_type = 0x11 then decodeMaxStreamData src start
      else if frame_type = 0x12 then decodeMaxStreams src start True
      else if frame_type = 0x13 then decodeMaxStreams src start False
      else if frame_type = 0x14 then decodeDataBlocked src start
      else if frame_type = 0x15 then decodeStreamDataBlocked src start
      else if frame_type = 0x16 then decodeStreamsBlocked src start True
      else if frame_type = 0x17 then decodeStreamsBlocked src start False
      else if frame_type = 0x18 then decodeNewConnectionId src start
      else if frame_type = 0x19 then decodeRetireConnectionId src start
      else if frame_type = 0x1a then decodePathChallenge src start
      else if frame_type = 0x1b then decodePathResponse src start
      else if frame_type = 0x1c then decodeConnectionClose src start True
      else if frame_type = 0x1d then decodeConnectionClose src start False
      else if frame_type = 0x1e then Inr (HandshakeDone, start)
      else if frame_type = 0x30 then decodeDatagram src start False
      else if frame_type = 0x31 then decodeDatagram src start True
      else if frame_type = frame_type_path_ack then decodePathAck src start False
      else if frame_type = frame_type_path_ack_ecn then decodePathAck src start True
      else if frame_type = frame_type_path_abandon then decodePathAbandon src start
      else if frame_type = frame_type_path_status_backup then decodePathStatus src start False
      else if frame_type = frame_type_path_status_available then decodePathStatus src start True
      else if frame_type = frame_type_path_new_connection_id
           then decodePathNewConnectionId src start
      else if frame_type = frame_type_path_retire_connection_id
           then decodePathRetireConnectionId src start
      else if frame_type = frame_type_max_path_id then decodeMaxPathId src start
      else if frame_type = frame_type_paths_blocked then decodePathsBlocked src start
      else if frame_type = frame_type_path_cids_blocked then decodePathCidsBlocked src start
      else if frame_type = frame_type_alternative_v4_address
           then decodeAlternativeV4Address src start
      else if frame_type = frame_type_alternative_v6_address
           then decodeAlternativeV6Address src start
      else Inl UnknownFrameType)"

definition frame_decode :: "byte list \<Rightarrow> decoded" where
  "frame_decode src =
     (if src = [] then Inl InsufficientBytes
      else if src ! 0 = 0 then
        let n = length (takeWhile (\<lambda>b. b = 0) src) in
        Inr (Padding \<lparr>pd_count = word_of_nat n\<rparr>, n)
      else zbind (decode src) (\<lambda>(frame_type, start). decode_typed frame_type src start))"

subsection \<open>Reading what the encoder wrote\<close>

lemma unat_ucast_up:
  "LENGTH('a) \<le> LENGTH('b) \<Longrightarrow> unat (ucast (x :: 'a::len word) :: 'b::len word) = unat x"
proof -
  assume l: "LENGTH('a) \<le> LENGTH('b)"
  have "unat x < 2 ^ LENGTH('a)" by (rule unsigned_less)
  also have "\<dots> \<le> 2 ^ LENGTH('b)" using l by (intro power_increasing) simp_all
  finally show ?thesis by (simp only: unsigned_ucast_eq) (rule take_bit_nat_eq_self)
qed

lemma get_varint_vbytes:
  "drop pos src = vbytes v @ rest \<Longrightarrow> v \<le> max_value \<Longrightarrow>
   get_varint src pos = Inr (v, pos + encodedLen v)"
  by (simp add: get_varint_def decode_vbytes)

lemma vbytes_small: "v < 64 \<Longrightarrow> vbytes v = [ucast v]"
proof -
  assume v: "v < 64"
  then have "encodedLen v = 1" by (simp add: encodedLen_def)
  with v show ?thesis
    by (simp add: vbytes_def vbytes_at_def tag_bits_def word_less_nat_alt unsigned_ucast_eq)
qed

lemma frame_decode_typed:
  assumes "decode src = Inr (t, n)" "t \<noteq> 0"
  shows "frame_decode src = decode_typed t src n"
proof -
  have "src \<noteq> []" using assms(1) by (auto simp: decode_def)
  moreover have "src ! 0 \<noteq> 0"
  proof
    assume "src ! 0 = 0"
    with \<open>src \<noteq> []\<close> obtain bs where "src = vbytes 0 @ bs"
      by (cases src) (auto simp: vbytes_small)
    then have "decode src = Inr (0, encodedLen 0)"
      using decode_vbytes [of 0 bs] by (simp add: max_value_numeral)
    with assms show False by simp
  qed
  ultimately show ?thesis using assms(1) by (simp add: frame_decode_def)
qed

lemma frame_decode_type_byte:
  assumes "b < 64" "b \<noteq> 0"
  shows "frame_decode (b # r) = decode_typed (ucast b) (b # r) 1"
proof -
  have u: "unat (ucast b :: u64) = unat b"
    by (rule unat_ucast_up) simp
  have lt: "(ucast b :: u64) < 64" using assms(1) by (simp add: word_less_nat_alt u)
  then have le: "(ucast b :: u64) \<le> max_value" by (simp add: word_less_nat_alt word_le_nat_alt)
  have len: "encodedLen (ucast b) = 1" using lt by (simp add: encodedLen_def)
  have "(ucast (ucast b :: u64) :: byte) = b"
    by (rule bit_word_eqI) (auto simp: bit_simps dest: bit_imp_le_length)
  then have "decode (b # r) = Inr (ucast b, 1)"
    using decode_vbytes [OF le, of r] vbytes_small [OF lt] len by simp
  moreover have "(ucast b :: u64) \<noteq> 0" using assms(2) u by (metis unsigned_eq_0_iff)
  ultimately show ?thesis by (rule frame_decode_typed)
qed

lemma frame_decode_type_varint:
  assumes "t \<le> max_value" "t \<noteq> 0"
  shows "frame_decode (vbytes t @ r) = decode_typed t (vbytes t @ r) (encodedLen t)"
  using frame_decode_typed [OF decode_vbytes [OF assms(1), of r] assms(2)] .

lemma readBorrowed_ok:
  "drop pos src = bs @ rest \<Longrightarrow> pos \<le> length src \<Longrightarrow> length bs < 2 ^ 64 \<Longrightarrow>
   readBorrowed src pos (slice_len bs) = Inr bs"
proof -
  assume d: "drop pos src = bs @ rest" and p: "pos \<le> length src" and l: "length bs < 2 ^ 64"
  have "length src - pos = length bs + length rest"
    using arg_cong [OF d, of length] by simp
  moreover have "unat (slice_len bs) = length bs"
    using l by (simp add: slice_len_def unat_of_nat)
  ultimately show ?thesis using d by (simp add: readBorrowed_def)
qed


subsection \<open>Round trip\<close>

definition ack_ranges_ok :: "u64 \<Rightarrow> u64 \<Rightarrow> u64 \<Rightarrow> byte list \<Rightarrow> bool" where
  "ack_ranges_ok largest first_range range_count ranges_bytes \<longleftrightarrow>
     range_count \<le> max_incoming_ack_ranges
     \<and> skip_ranges (unat range_count) ranges_bytes 0 = Inr (length ranges_bytes)
     \<and> validateAckRanges largest first_range range_count ranges_bytes = Inr ()"

text \<open>
  The fields the wire format does not carry have their default, the ACK ranges pass the
  decoder's gate and a payload is shorter than the largest varint.
\<close>

fun frame_canonical :: "frame \<Rightarrow> bool" where
  "frame_canonical (Padding f) = (pd_count f \<noteq> 0)"
| "frame_canonical (Ack f) =
     ack_ranges_ok (ak_largest_acked f) (ak_first_range f) (ak_range_count f) (ak_ranges_bytes f)"
| "frame_canonical (PathAck f) =
     ack_ranges_ok (pa_largest_acked f) (pa_first_range f) (pa_range_count f) (pa_ranges_bytes f)"
| "frame_canonical (Stream f) =
     ((sf_has_offset f \<or> sf_offset f = 0) \<and> (sf_has_length f \<longrightarrow> length (sf_data f) < 2 ^ 62))"
| "frame_canonical (Crypto f) = (length (cr_data f) < 2 ^ 62)"
| "frame_canonical (NewToken f) = (length (nt_token f) < 2 ^ 62)"
| "frame_canonical (Datagram f) = (dg_has_length f \<longrightarrow> length (dg_data f) < 2 ^ 62)"
| "frame_canonical (ConnectionClose f) =
     ((cc_is_transport f \<or> cc_frame_type f = 0) \<and> length (cc_reason_phrase f) < 2 ^ 62)"
| "frame_canonical _ = True"

text \<open>What may follow the frame in the packet.\<close>

fun tail_ok :: "frame \<Rightarrow> byte list \<Rightarrow> bool" where
  "tail_ok (Padding f) rest = (rest = [] \<or> hd rest \<noteq> 0)"
| "tail_ok (Stream f) rest = (sf_has_length f \<or> rest = [])"
| "tail_ok (Datagram f) rest = (dg_has_length f \<or> rest = [])"
| "tail_ok _ rest = True"

lemma decode_append: "decode src = Inr r \<Longrightarrow> decode (src @ rest) = Inr r"
proof -
  assume d: "decode src = Inr r"
  obtain v n where r: "r = (v, n)" by (cases r)
  note s = decode_sound [OF d [unfolded r]]
  have "src @ rest = vbytes_at n v @ (drop n src @ rest)"
    using s(4) by (metis append.assoc append_take_drop_id)
  moreover have "decode (vbytes_at n v @ (drop n src @ rest)) = Inr (v, n)"
    by (rule decode_vbytes_at [OF s(1,3)])
  ultimately show ?thesis using r by metis
qed

lemma get_varint_transfer:
  "get_varint bs p = Inr (v, q) \<Longrightarrow> drop pos src = drop p bs @ rest \<Longrightarrow>
   get_varint src pos = Inr (v, pos + (q - p)) \<and> p < q \<and> q \<le> length bs \<and>
   drop (pos + (q - p)) src = drop q bs @ rest"
proof -
  assume g: "get_varint bs p = Inr (v, q)" and d: "drop pos src = drop p bs @ rest"
  obtain n where n: "decode (drop p bs) = Inr (v, n)" "q = p + n"
    using g by (auto simp: get_varint_def zbind_eq_Inr)
  note s = decode_sound [OF n(1)]
  have "0 < n" using s(1) by (auto simp: legal_len_def)
  moreover have "drop (n + pos) src = drop n (drop p bs @ rest)" using d by (metis drop_drop)
  then have "drop (n + pos) src = drop (n + p) bs @ rest" using s(2) by simp
  moreover have "decode (drop pos src) = Inr (v, n)" using decode_append [OF n(1)] d by simp
  ultimately show ?thesis using n(2) s(2) by (simp add: get_varint_def add.commute)
qed

lemma skip_ranges_transfer:
  "skip_ranges k bs p = Inr q \<Longrightarrow> drop pos src = drop p bs @ rest \<Longrightarrow>
   skip_ranges k src pos = Inr (pos + (q - p)) \<and> p \<le> q"
proof (induction k arbitrary: p pos)
  case 0
  then show ?case by simp
next
  case (Suc k)
  obtain g p1 l p2 where *: "get_varint bs p = Inr (g, p1)" "get_varint bs p1 = Inr (l, p2)"
    "skip_ranges k bs p2 = Inr q"
    using Suc.prems(1) by (auto simp: zbind_eq_Inr)
  note a = get_varint_transfer [OF *(1) Suc.prems(2)]
  note b = get_varint_transfer [OF *(2), of "pos + (p1 - p)" src rest]
  show ?case using a b Suc.IH [OF *(3), of "pos + (p1 - p) + (p2 - p1)"] by auto
qed

lemma skip_ranges_here:
  "ack_ranges_ok largest first_range range_count bs \<Longrightarrow> drop pos src = bs @ rest \<Longrightarrow>
   skip_ranges (unat range_count) src pos = Inr (pos + length bs)"
  using skip_ranges_transfer [of "unat range_count" bs 0 "length bs" pos src rest]
  by (simp add: ack_ranges_ok_def)

lemma readBorrowed_here:
  "drop pos src = bs @ rest \<Longrightarrow> length bs < 2 ^ 62 \<Longrightarrow> readBorrowed src pos (slice_len bs) = Inr bs"
  by (cases "pos \<le> length src") (simp_all add: readBorrowed_ok, simp add: readBorrowed_def slice_len_def)

lemma read_fixed_here:
  "drop pos src = bs @ rest \<Longrightarrow> 0 < k \<Longrightarrow> length bs = k \<Longrightarrow>
   read_fixed src pos k = Inr (bs, pos + k)"
proof -
  assume d: "drop pos src = bs @ rest" and ne: "0 < k" and l: "length bs = k"
  have "length src - pos = k + length rest" using arg_cong [OF d, of length] l by simp
  with ne have "\<not> length src < pos + k" by simp
  then show ?thesis using d l by (simp add: read_fixed_def)
qed

lemma ucast_path_id: "(ucast (p :: u32) :: u64) \<le> max_value" "\<not> (ucast p :: u64) > 0xffffffff"
  "(ucast (ucast p :: u64) :: u32) = p"
proof -
  have p: "unat p < 4294967296" using unsigned_less [of p] by simp
  have u: "unat (ucast p :: u64) = unat p" by (rule unat_ucast_up) simp
  show "(ucast (p :: u32) :: u64) \<le> max_value" "\<not> (ucast p :: u64) > 0xffffffff"
    using p by (simp_all add: word_le_nat_alt word_less_nat_alt u)
  show "(ucast (ucast p :: u64) :: u32) = p"
    by (rule bit_word_eqI) (auto simp: bit_simps dest: bit_imp_le_length)
qed

lemma get_varint_here:
  "drop pos src = vbytes v @ rest \<Longrightarrow> v \<le> max_value \<Longrightarrow>
   get_varint src pos = Inr (v, pos + encodedLen v)"
  by (rule get_varint_vbytes)

lemma decodePathId_here:
  "drop pos src = vbytes (ucast p) @ rest \<Longrightarrow>
   decodePathId src pos = Inr (p, pos + encodedLen (ucast p))"
  using ucast_path_id [of p] by (simp add: decodePathId_def get_varint_here)

text \<open>Reading steps, evaluated at the cursor by the simplifier.\<close>

lemmas reading = get_varint_here decodePathId_here readBorrowed_here read_fixed_here
  frame_decode_type_byte decode_typed_def frame_type_defs


lemmas decode_varint_frames = decodeResetStream_def decodeStopSending_def decodeAckFrequency_def
  decodeMaxData_def decodeMaxStreamData_def decodeMaxStreams_def decodeDataBlocked_def
  decodeStreamDataBlocked_def decodeStreamsBlocked_def decodeRetireConnectionId_def
  decodePathAbandon_def decodePathStatus_def decodePathRetireConnectionId_def decodeMaxPathId_def
  decodePathsBlocked_def decodePathCidsBlocked_def decodePathChallenge_def decodePathResponse_def

definition reads_back :: "frame \<Rightarrow> byte list \<Rightarrow> bool" where
  "reads_back f rest \<longleftrightarrow>
     frame_decode (frame_bytes f @ rest) = Inr (f, length (frame_bytes f))"

lemma rb_base:
  "reads_back Ping rest" "reads_back HandshakeDone rest"
  "frame_encodable (ResetStream f1) \<Longrightarrow> reads_back (ResetStream f1) rest"
  "frame_encodable (StopSending f2) \<Longrightarrow> reads_back (StopSending f2) rest"
  "frame_encodable (MaxData f3) \<Longrightarrow> reads_back (MaxData f3) rest"
  "frame_encodable (MaxStreamData f4) \<Longrightarrow> reads_back (MaxStreamData f4) rest"
  "frame_encodable (MaxStreams f5) \<Longrightarrow> reads_back (MaxStreams f5) rest"
  "frame_encodable (DataBlocked f6) \<Longrightarrow> reads_back (DataBlocked f6) rest"
  "frame_encodable (StreamDataBlocked f7) \<Longrightarrow> reads_back (StreamDataBlocked f7) rest"
  "frame_encodable (StreamsBlocked f8) \<Longrightarrow> reads_back (StreamsBlocked f8) rest"
  "frame_encodable (RetireConnectionId f9) \<Longrightarrow> reads_back (RetireConnectionId f9) rest"
  by (simp_all add: reads_back_def frame_bytes_def frame_encodable_def encode_frame_defs reading
      decode_varint_frames)

lemma rb_fixed:
  "frame_shaped (PathChallenge f1) \<Longrightarrow> reads_back (PathChallenge f1) rest"
  "frame_shaped (PathResponse f2) \<Longrightarrow> reads_back (PathResponse f2) rest"
  by (simp_all add: reads_back_def frame_bytes_def encode_frame_defs reading decode_varint_frames)

lemma rb_payload:
  "frame_encodable (Crypto f1) \<Longrightarrow> frame_canonical (Crypto f1) \<Longrightarrow> reads_back (Crypto f1) rest"
  "frame_encodable (NewToken f2) \<Longrightarrow> frame_canonical (NewToken f2) \<Longrightarrow> reads_back (NewToken f2) rest"
  by (simp_all add: reads_back_def frame_bytes_def frame_encodable_def encode_frame_defs reading
      decodeCrypto_def decodeNewToken_def)

lemma rb_connection_close:
  "frame_encodable (ConnectionClose f) \<Longrightarrow> frame_canonical (ConnectionClose f) \<Longrightarrow>
     reads_back (ConnectionClose f) rest"
  by (cases f; cases "cc_is_transport f")
     (simp_all add: reads_back_def frame_bytes_def frame_encodable_def encode_frame_defs reading
      decodeConnectionClose_def)

lemma rb_datagram:
  "frame_encodable (Datagram f) \<Longrightarrow> frame_canonical (Datagram f) \<Longrightarrow> tail_ok (Datagram f) rest \<Longrightarrow>
     reads_back (Datagram f) rest"
  by (cases f; cases "dg_has_length f")
     (simp_all add: reads_back_def frame_bytes_def frame_encodable_def encode_frame_defs reading
      decodeDatagram_def)

lemma rb_path:
  "frame_encodable (AckFrequency f1) \<Longrightarrow> reads_back (AckFrequency f1) rest"
  "reads_back ImmediateAck rest"
  "frame_encodable (PathAbandon f2) \<Longrightarrow> reads_back (PathAbandon f2) rest"
  "frame_encodable (PathStatusBackup f3) \<Longrightarrow> reads_back (PathStatusBackup f3) rest"
  "frame_encodable (PathStatusAvailable f4) \<Longrightarrow> reads_back (PathStatusAvailable f4) rest"
  "frame_encodable (PathRetireConnectionId f5) \<Longrightarrow> reads_back (PathRetireConnectionId f5) rest"
  "frame_encodable (MaxPathId f6) \<Longrightarrow> reads_back (MaxPathId f6) rest"
  "frame_encodable (PathsBlocked f7) \<Longrightarrow> reads_back (PathsBlocked f7) rest"
  "frame_encodable (PathCidsBlocked f8) \<Longrightarrow> reads_back (PathCidsBlocked f8) rest"
  by (simp_all add: reads_back_def frame_bytes_def frame_encodable_def encode_frame_defs reading
      decode_varint_frames frame_decode_type_varint max_value_numeral encodedLen_numeral [of "numeral k" for k])

lemma decodeEcn_here:
  "list_all put_ok (encodeEcn ecn) \<Longrightarrow>
   decodeEcn (ecn \<noteq> None) (pre @ concat (map put_out (encodeEcn ecn)) @ rest) (length pre) =
     Inr (ecn, length pre + length (concat (map put_out (encodeEcn ecn))))"
  by (cases ecn) (simp_all add: decodeEcn_def encodeEcn_def get_varint_here)

lemma decodeAckBody_here:
  assumes ok: "list_all put_ok (encodeAckBody la ad rc fr rb ecn)" "ack_ranges_ok la fr rc rb"
  defines "body \<equiv> concat (map put_out (encodeAckBody la ad rc fr rb ecn))"
  shows "decodeAckBody (pre @ body @ rest) (length pre) (ecn \<noteq> None) =
     Inr \<lparr>ab_largest_acked = la, ab_ack_delay = ad, ab_first_range = fr, ab_range_count = rc,
          ab_ranges_bytes = rb, ab_ecn_counts = ecn, ab_end = length pre + length body\<rparr>"
proof -
  define pre4 where "pre4 = pre @ vbytes la @ vbytes ad @ vbytes rc @ vbytes fr"
  define tail where "tail = concat (map put_out (encodeEcn ecn)) @ rest"
  have e: "decodeEcn (ecn \<noteq> None) ((pre4 @ rb) @ tail) (length (pre4 @ rb)) =
      Inr (ecn, length pre + length body)"
    using decodeEcn_here [of ecn "pre4 @ rb" rest] ok(1)
    by (simp add: tail_def pre4_def body_def encodeAckBody_def)
  have src: "pre @ body @ rest = pre4 @ rb @ tail"
    by (simp add: pre4_def tail_def body_def encodeAckBody_def)
  have s: "skip_ranges (unat rc) (pre4 @ rb @ tail) (length pre4) = Inr (length pre4 + length rb)"
    by (rule skip_ranges_here [OF ok(2)]) simp
  have v: "la \<le> max_value" "ad \<le> max_value" "rc \<le> max_value" "fr \<le> max_value"
    using ok(1) by (simp_all add: encodeAckBody_def)
  have g: "get_varint (pre4 @ r) (length pre) = Inr (la, length pre + encodedLen la)"
    "get_varint (pre4 @ r) (length pre + encodedLen la) =
       Inr (ad, length pre + encodedLen la + encodedLen ad)"
    "get_varint (pre4 @ r) (length pre + encodedLen la + encodedLen ad) =
       Inr (rc, length pre + encodedLen la + encodedLen ad + encodedLen rc)"
    "get_varint (pre4 @ r) (length pre + encodedLen la + encodedLen ad + encodedLen rc) =
       Inr (fr, length pre4)" for r
    using v by (simp_all add: pre4_def get_varint_here)
  from ok(2) have "\<not> rc > max_incoming_ack_ranges" "validateAckRanges la fr rc rb = Inr ()"
    by (simp_all add: ack_ranges_ok_def not_less)
  with g s e show ?thesis by (simp add: decodeAckBody_def src Let_def)
qed

lemma rb_ack:
  assumes "frame_encodable (Ack f)" "frame_canonical (Ack f)"
  shows "reads_back (Ack f) rest"
proof -
  let ?ecn = "ak_ecn_counts f"
  let ?t = "if ?ecn = None then 0x02 else 0x03 :: byte"
  have "frame_decode (?t # r) = decodeAck (?t # r) 1 (?ecn \<noteq> None)" for r
    by (simp add: reading)
  moreover have "list_all put_ok (encodeAckBody (ak_largest_acked f) (ak_ack_delay f)
      (ak_range_count f) (ak_first_range f) (ak_ranges_bytes f) ?ecn)"
    using assms(1) by (simp add: frame_encodable_def encodeAck_def)
  ultimately show ?thesis
    using decodeAckBody_here [of "ak_largest_acked f" "ak_ack_delay f" "ak_range_count f"
        "ak_first_range f" "ak_ranges_bytes f" ?ecn "[?t]" rest] assms(2)
    by (simp add: reads_back_def frame_bytes_def encodeAck_def decodeAck_def)
qed

lemma rb_path_ack:
  assumes "frame_encodable (PathAck f)" "frame_canonical (PathAck f)"
  shows "reads_back (PathAck f) rest"
proof -
  let ?ecn = "pa_ecn_counts f"
  let ?t = "if ?ecn = None then frame_type_path_ack else frame_type_path_ack_ecn"
  let ?pid = "ucast (pa_path_id f) :: u64"
  have "frame_decode (vbytes ?t @ r) = decodePathAck (vbytes ?t @ r) (encodedLen ?t) (?ecn \<noteq> None)" for r
    by (cases ?ecn) (simp_all add: reading frame_decode_type_varint max_value_numeral)
  moreover have "list_all put_ok (encodeAckBody (pa_largest_acked f) (pa_ack_delay f)
      (pa_range_count f) (pa_first_range f) (pa_ranges_bytes f) ?ecn)"
    using assms(1) by (simp add: frame_encodable_def encodePathAck_def)
  moreover have "decodePathId (vbytes ?t @ vbytes ?pid @ r) (encodedLen ?t) =
      Inr (pa_path_id f, encodedLen ?t + encodedLen ?pid)" for r
    by (simp add: reading)
  ultimately show ?thesis
    using decodeAckBody_here [of "pa_largest_acked f" "pa_ack_delay f" "pa_range_count f"
        "pa_first_range f" "pa_ranges_bytes f" ?ecn "vbytes ?t @ vbytes ?pid" rest] assms(2)
    by (simp add: reads_back_def frame_bytes_def encodePathAck_def decodePathAck_def)
qed

lemma takeWhile_zeros:
  "takeWhile (\<lambda>b. b = 0) (replicate m 0 @ r) = replicate m 0 @ takeWhile (\<lambda>b. b = 0) r"
  by (induction m) simp_all

lemma rb_padding:
  assumes "frame_canonical (Padding f)" "tail_ok (Padding f) rest"
  shows "reads_back (Padding f) rest"
proof -
  obtain n where n: "unat (pd_count f) = Suc n"
    using assms(1) by (metis frame_canonical.simps(1) not0_implies_Suc unsigned_eq_0_iff)
  have t: "takeWhile (\<lambda>b. b = (0 :: byte)) (replicate (Suc n) 0 @ rest) = replicate (Suc n) 0"
    using assms(2) by (cases rest) (auto simp: takeWhile_zeros simp del: replicate.simps)
  have "word_of_nat (Suc n) = pd_count f" unfolding n [symmetric] by simp
  with t show ?thesis
    by (simp add: reads_back_def frame_bytes_def encodePadding_def n frame_decode_def Let_def)
qed

lemma rb_stream:
  "frame_encodable (Stream f) \<Longrightarrow> frame_canonical (Stream f) \<Longrightarrow> tail_ok (Stream f) rest \<Longrightarrow>
     reads_back (Stream f) rest"
  by (cases f; cases "sf_has_offset f"; cases "sf_has_length f"; cases "sf_fin f")
     (simp_all add: reads_back_def frame_bytes_def frame_encodable_def encode_frame_defs reading
      decodeStream_def stream_type_byte_def)

lemma readCidAndResetToken_here:
  assumes "cid_ok cid" "length token = 16"
  shows "readCidAndResetToken (pre @ concat (map put_out (writeCidAndResetToken cid token)) @ rest)
      (length pre) =
    Inr (cid, token, length pre + length (concat (map put_out (writeCidAndResetToken cid token))))"
proof -
  have l: "cid_len cid \<le> 20" "length (cid_slice cid) = cid_len cid"
    using assms(1) by (simp_all add: cid_ok_def max_cid_len_def length_cid_slice)
  then have "unat (word_of_nat (cid_len cid) :: byte) = cid_len cid"
    by (simp add: unat_byte_of_nat)
  with l fromSlice_slice [OF assms(1)] assms(2) show ?thesis
    by (simp add: readCidAndResetToken_def writeCidAndResetToken_def nth_append Let_def
        max_cid_len_def read_fixed_here)
qed

lemma rb_new_connection_id:
  assumes "frame_encodable (NewConnectionId f)" "frame_shaped (NewConnectionId f)"
  shows "reads_back (NewConnectionId f) rest"
proof -
  have "nci_sequence_number f \<le> max_value" "nci_retire_prior_to f \<le> max_value"
    using assms(1) by (simp_all add: frame_encodable_def encodeNewConnectionId_def)
  then show ?thesis
    using readCidAndResetToken_here [of "nci_connection_id f" "nci_stateless_reset_token f"
        "0x18 # vbytes (nci_sequence_number f) @ vbytes (nci_retire_prior_to f)" rest] assms(2)
    by (simp add: reads_back_def frame_bytes_def encodeNewConnectionId_def reading
        decodeNewConnectionId_def)
qed

lemma rb_path_new_connection_id:
  assumes "frame_encodable (PathNewConnectionId f)" "frame_shaped (PathNewConnectionId f)"
  shows "reads_back (PathNewConnectionId f) rest"
proof -
  let ?t = "frame_type_path_new_connection_id"
  let ?pid = "ucast (pnc_path_id f) :: u64"
  have "pnc_sequence_number f \<le> max_value" "pnc_retire_prior_to f \<le> max_value"
    using assms(1) by (simp_all add: frame_encodable_def encodePathNewConnectionId_def)
  moreover have "frame_decode (vbytes ?t @ r) = decodePathNewConnectionId (vbytes ?t @ r) (encodedLen ?t)" for r
    by (simp add: reading frame_decode_type_varint max_value_numeral)
  ultimately show ?thesis
    using readCidAndResetToken_here [of "pnc_connection_id f" "pnc_stateless_reset_token f"
        "vbytes ?t @ vbytes ?pid @ vbytes (pnc_sequence_number f) @ vbytes (pnc_retire_prior_to f)"
        rest] assms(2)
    by (simp add: reads_back_def frame_bytes_def encodePathNewConnectionId_def
        get_varint_here decodePathId_here decodePathNewConnectionId_def add.assoc)
qed

lemma altAddressFlags_bits:
  "altAddressFlags p r AND 0x80 \<noteq> 0 \<longleftrightarrow> p" "altAddressFlags p r AND 0x40 \<noteq> 0 \<longleftrightarrow> r"
  by (cases p; cases r; simp add: altAddressFlags_def)+

lemma port_roundtrip: "word_of_nat (be_val (be_bytes 2 (unat p))) = (p :: u16)"
proof -
  have "unat p < 65536" using unsigned_less [of p] by simp
  then show ?thesis by (simp add: be_val_be_bytes)
qed

lemma decodeAltAddress_here:
  assumes "length (aa_address f) = k" "0 < k" "aa_status_sequence_number f \<le> max_value"
  shows "decodeAltAddress k (vbytes t @ [altAddressFlags (aa_preferred f) (aa_retire f)]
      @ vbytes (aa_status_sequence_number f) @ aa_address f
      @ be_bytes 2 (unat (aa_port f)) @ rest) (encodedLen t) =
    Inr (f, encodedLen t + 1 + encodedLen (aa_status_sequence_number f) + k + 2)"
  using assms
  by (simp add: decodeAltAddress_def nth_append get_varint_here read_fixed_here
      altAddressFlags_bits port_roundtrip Let_def del: be_bytes.simps)

lemma rb_alternative_address:
  "frame_encodable (AlternativeV4Address f) \<Longrightarrow> frame_shaped (AlternativeV4Address f) \<Longrightarrow>
     reads_back (AlternativeV4Address f) rest"
  "frame_encodable (AlternativeV6Address f) \<Longrightarrow> frame_shaped (AlternativeV6Address f) \<Longrightarrow>
     reads_back (AlternativeV6Address f) rest"
proof -
  let ?t4 = "frame_type_alternative_v4_address" and ?t6 = "frame_type_alternative_v6_address"
  have d: "frame_decode (vbytes ?t4 @ r) = decodeAlternativeV4Address (vbytes ?t4 @ r) (encodedLen ?t4)"
    "frame_decode (vbytes ?t6 @ r) = decodeAlternativeV6Address (vbytes ?t6 @ r) (encodedLen ?t6)" for r
    by (simp_all add: reading frame_decode_type_varint max_value_numeral)
  show "frame_encodable (AlternativeV4Address f) \<Longrightarrow> frame_shaped (AlternativeV4Address f) \<Longrightarrow>
     reads_back (AlternativeV4Address f) rest"
    using decodeAltAddress_here [of f 4 ?t4 rest]
    by (simp add: reads_back_def frame_bytes_def frame_encodable_def encodeAltAddress_def d
        decodeAlternativeV4Address_def)
  show "frame_encodable (AlternativeV6Address f) \<Longrightarrow> frame_shaped (AlternativeV6Address f) \<Longrightarrow>
     reads_back (AlternativeV6Address f) rest"
    using decodeAltAddress_here [of f 16 ?t6 rest]
    by (simp add: reads_back_def frame_bytes_def frame_encodable_def encodeAltAddress_def d
        decodeAlternativeV6Address_def)
qed

lemma frame_reads_back:
  assumes "frame_encodable f" "frame_shaped f" "frame_canonical f" "tail_ok f rest"
  shows "reads_back f rest"
  using assms
  by (cases f)
     (simp_all only: rb_base rb_fixed rb_payload rb_connection_close rb_datagram rb_path rb_ack
        rb_path_ack rb_padding rb_stream rb_new_connection_id rb_path_new_connection_id
        rb_alternative_address)

subsection \<open>What a decoder can return\<close>

lemma get_varintD:
  assumes "get_varint src pos = Inr (v, p)"
  shows "v \<le> max_value" "pos + encodedLen v \<le> p" "p \<le> length src" "pos < p"
proof -
  obtain n where n: "decode (drop pos src) = Inr (v, n)" "p = pos + n"
    using assms by (auto simp: get_varint_def zbind_eq_Inr)
  note s = decode_sound [OF n(1)]
  have "max_for_length n \<le> max_value"
    using s(1) by (auto simp: legal_len_def max_for_length_def max_value_def)
  with s(3) show "v \<le> max_value" by (rule order.trans)
  show "pos + encodedLen v \<le> p" using encodedLen_minimal [OF s(1,3)] n(2) by simp
  have "0 < n" using s(1) by (auto simp: legal_len_def)
  then show "pos < p" "p \<le> length src" using n(2) s(2) by simp_all
qed

lemma decodePathIdD:
  assumes "decodePathId src pos = Inr (q, p)"
  shows "pos + encodedLen (ucast q) \<le> p" "p \<le> length src" "pos < p"
proof -
  obtain v where v: "get_varint src pos = Inr (v, p)" "\<not> v > 0xffffffff" "q = ucast v"
    using assms by (auto simp: decodePathId_def zbind_eq_Inr split: if_splits)
  have "unat v < 2 ^ 32" using v(2) by (simp add: word_less_nat_alt)
  then have "unat (ucast (ucast v :: u32) :: u64) = unat v"
    by (subst unat_ucast_up) (simp_all add: unsigned_ucast_eq take_bit_nat_eq_self)
  then have "ucast q = v" using v(3) by (simp add: unsigned_word_eqI)
  then show "pos + encodedLen (ucast q) \<le> p" "p \<le> length src" "pos < p"
    using get_varintD [OF v(1)] by simp_all
qed

lemma readBorrowedD:
  assumes "readBorrowed src pos len = Inr bs" "len \<le> max_value" "pos \<le> length src"
  shows "slice_len bs = len" "length bs < 2 ^ 62" "pos + length bs \<le> length src"
proof -
  have b: "length bs = unat len" and l: "unat len \<le> length src - pos"
    using assms(1) by (auto simp: readBorrowed_def split: if_splits)
  show "slice_len bs = len" by (simp add: slice_len_def b)
  show "length bs < 2 ^ 62" using assms(2) b by (simp add: word_le_nat_alt)
  show "pos + length bs \<le> length src" using l assms(3) b by simp
qed

lemma read_fixedD:
  assumes "read_fixed src pos k = Inr (bs, p)"
  shows "length bs = k" "p = pos + k" "p \<le> length src"
  using assms by (auto simp: read_fixed_def split: if_splits)

text \<open>
  \<open>sound_at src p f\<close>: the frame is one the encoder accepts, its canonical encoding is no
  longer than the bytes consumed, and the cursor stays inside the input.
\<close>

definition sound_at :: "byte list \<Rightarrow> nat \<Rightarrow> frame \<Rightarrow> bool" where
  "sound_at src p f \<longleftrightarrow> frame_shaped f \<and> frame_encodable f \<and> frame_canonical f \<and>
     tail_ok f (drop p src) \<and> p \<le> length src \<and> frame_encodedLen f \<le> p"

lemmas sound_simps = sound_at_def frame_encodable_def encode_frame_defs zbind_eq_Inr

lemma get_varint_facts:
  "get_varint src pos = Inr (v, p) \<Longrightarrow>
   v \<le> max_value \<and> pos + encodedLen v \<le> p \<and> p \<le> length src \<and> pos < p"
  using get_varintD by blast

lemma decodePathId_facts:
  "decodePathId src pos = Inr (q, p) \<Longrightarrow>
   pos + encodedLen (ucast q) \<le> p \<and> p \<le> length src \<and> pos < p"
  using decodePathIdD by blast

lemma read_fixed_facts:
  "read_fixed src pos k = Inr (bs, p) \<Longrightarrow> length bs = k \<and> p = pos + k \<and> p \<le> length src"
  using read_fixedD by blast

lemma frame_type_lens:
  "encodedLen frame_type_path_ack = 1" "encodedLen frame_type_path_ack_ecn = 1"
  "encodedLen frame_type_path_abandon = 2" "encodedLen frame_type_path_status_backup = 2"
  "encodedLen frame_type_path_status_available = 2"
  "encodedLen frame_type_path_new_connection_id = 2"
  "encodedLen frame_type_path_retire_connection_id = 2" "encodedLen frame_type_max_path_id = 2"
  "encodedLen frame_type_paths_blocked = 2" "encodedLen frame_type_path_cids_blocked = 2"
  "encodedLen frame_type_alternative_v4_address = 4"
  "encodedLen frame_type_alternative_v6_address = 4"
  "encodedLen frame_type_ack_frequency = 2" "encodedLen frame_type_immediate_ack = 1"
  by (simp_all add: frame_type_defs encodedLen_numeral)

lemma frame_type_max:
  "frame_type_path_ack \<le> max_value" "frame_type_path_ack_ecn \<le> max_value"
  "frame_type_path_abandon \<le> max_value" "frame_type_path_status_backup \<le> max_value"
  "frame_type_path_status_available \<le> max_value"
  "frame_type_path_new_connection_id \<le> max_value"
  "frame_type_path_retire_connection_id \<le> max_value" "frame_type_max_path_id \<le> max_value"
  "frame_type_paths_blocked \<le> max_value" "frame_type_path_cids_blocked \<le> max_value"
  "frame_type_alternative_v4_address \<le> max_value"
  "frame_type_alternative_v6_address \<le> max_value"
  "frame_type_ack_frequency \<le> max_value" "frame_type_immediate_ack \<le> max_value"
  by (simp_all add: frame_type_defs max_value_numeral)

lemma sound_varints:
  "decodeResetStream src n = Inr (f, p) \<Longrightarrow> 1 \<le> n \<Longrightarrow> sound_at src p f"
  "decodeStopSending src n = Inr (f, p) \<Longrightarrow> 1 \<le> n \<Longrightarrow> sound_at src p f"
  "decodeMaxData src n = Inr (f, p) \<Longrightarrow> 1 \<le> n \<Longrightarrow> sound_at src p f"
  "decodeMaxStreamData src n = Inr (f, p) \<Longrightarrow> 1 \<le> n \<Longrightarrow> sound_at src p f"
  "decodeMaxStreams src n b = Inr (f, p) \<Longrightarrow> 1 \<le> n \<Longrightarrow> sound_at src p f"
  "decodeDataBlocked src n = Inr (f, p) \<Longrightarrow> 1 \<le> n \<Longrightarrow> sound_at src p f"
  "decodeStreamDataBlocked src n = Inr (f, p) \<Longrightarrow> 1 \<le> n \<Longrightarrow> sound_at src p f"
  "decodeStreamsBlocked src n b = Inr (f, p) \<Longrightarrow> 1 \<le> n \<Longrightarrow> sound_at src p f"
  "decodeRetireConnectionId src n = Inr (f, p) \<Longrightarrow> 1 \<le> n \<Longrightarrow> sound_at src p f"
  "decodeAckFrequency src n = Inr (f, p) \<Longrightarrow> 2 \<le> n \<Longrightarrow> sound_at src p f"
  by (auto simp: sound_simps decode_varint_frames frame_type_lens frame_type_max
      dest!: get_varint_facts)

lemma sound_path_varints:
  "decodePathAbandon src n = Inr (f, p) \<Longrightarrow> 2 \<le> n \<Longrightarrow> sound_at src p f"
  "decodePathStatus src n b = Inr (f, p) \<Longrightarrow> 2 \<le> n \<Longrightarrow> sound_at src p f"
  "decodePathRetireConnectionId src n = Inr (f, p) \<Longrightarrow> 2 \<le> n \<Longrightarrow> sound_at src p f"
  "decodeMaxPathId src n = Inr (f, p) \<Longrightarrow> 2 \<le> n \<Longrightarrow> sound_at src p f"
  "decodePathsBlocked src n = Inr (f, p) \<Longrightarrow> 2 \<le> n \<Longrightarrow> sound_at src p f"
  "decodePathCidsBlocked src n = Inr (f, p) \<Longrightarrow> 2 \<le> n \<Longrightarrow> sound_at src p f"
  by (auto simp: sound_simps decode_varint_frames frame_type_lens frame_type_max
      encodedPathStatusLen_def ucast_path_id Let_def
      dest!: get_varint_facts decodePathId_facts)

lemma sound_fixed:
  "decodePathChallenge src n = Inr (f, p) \<Longrightarrow> 1 \<le> n \<Longrightarrow> sound_at src p f"
  "decodePathResponse src n = Inr (f, p) \<Longrightarrow> 1 \<le> n \<Longrightarrow> sound_at src p f"
  by (auto simp: sound_simps decode_varint_frames dest!: read_fixed_facts)

lemma readBorrowed_facts:
  "readBorrowed src pos len = Inr bs \<Longrightarrow> len \<le> max_value \<Longrightarrow> pos \<le> length src \<Longrightarrow>
   slice_len bs = len \<and> length bs < 2 ^ 62 \<and> pos + length bs \<le> length src"
  using readBorrowedD by blast

lemma sound_payload:
  "decodeCrypto src n = Inr (f, p) \<Longrightarrow> 1 \<le> n \<Longrightarrow> sound_at src p f"
  "decodeNewToken src n = Inr (f, p) \<Longrightarrow> 1 \<le> n \<Longrightarrow> sound_at src p f"
  "decodeDatagram src n b = Inr (f, p) \<Longrightarrow> 1 \<le> n \<Longrightarrow> n \<le> length src \<Longrightarrow> sound_at src p f"
  by (auto simp: sound_simps decodeCrypto_def decodeNewToken_def decodeDatagram_def
      dest!: get_varint_facts readBorrowed_facts split: if_splits)

lemma sound_connection_close:
  "decodeConnectionClose src n t = Inr (f, p) \<Longrightarrow> 1 \<le> n \<Longrightarrow> sound_at src p f"
  by (cases t)
     (auto simp: sound_simps decodeConnectionClose_def dest!: get_varint_facts readBorrowed_facts)

lemma sound_stream:
  "decodeStream src n b = Inr (f, p) \<Longrightarrow> 1 \<le> n \<Longrightarrow> sound_at src p f"
  by (cases "b AND 4 \<noteq> 0"; cases "b AND 2 \<noteq> 0")
     (auto simp: sound_simps decodeStream_def Let_def dest!: get_varint_facts readBorrowed_facts)

lemma readCidAndResetToken_facts:
  "readCidAndResetToken src n = Inr (cid, token, p) \<Longrightarrow>
   cid_ok cid \<and> length token = 16 \<and> p \<le> length src \<and> p = n + cidAndResetTokenLen cid"
  by (auto simp: readCidAndResetToken_def zbind_eq_Inr Let_def max_cid_len_def
      cidAndResetTokenLen_def fromSlice_def cid_ok_def split: if_splits dest!: read_fixed_facts)

lemma sound_connection_ids:
  "decodeNewConnectionId src n = Inr (f, p) \<Longrightarrow> 1 \<le> n \<Longrightarrow> sound_at src p f"
  "decodePathNewConnectionId src n = Inr (f, p) \<Longrightarrow> 2 \<le> n \<Longrightarrow> sound_at src p f"
  by (auto simp: sound_simps decodeNewConnectionId_def decodePathNewConnectionId_def
      frame_type_lens frame_type_max ucast_path_id
      dest!: get_varint_facts decodePathId_facts readCidAndResetToken_facts)

lemma decodeAltAddress_facts:
  "decodeAltAddress k src n = Inr (v, p) \<Longrightarrow>
   length (aa_address v) = k \<and> aa_status_sequence_number v \<le> max_value \<and> p \<le> length src \<and>
   n + 1 + encodedLen (aa_status_sequence_number v) + k + 2 \<le> p"
  by (auto simp: decodeAltAddress_def zbind_eq_Inr Let_def split: if_splits
      dest!: get_varint_facts read_fixed_facts)

lemma sound_alternative_address:
  "decodeAlternativeV4Address src n = Inr (f, p) \<Longrightarrow> 4 \<le> n \<Longrightarrow> sound_at src p f"
  "decodeAlternativeV6Address src n = Inr (f, p) \<Longrightarrow> 4 \<le> n \<Longrightarrow> sound_at src p f"
  by (auto simp: sound_simps decodeAlternativeV4Address_def decodeAlternativeV6Address_def
      encodedAltAddressLen_def frame_type_lens frame_type_max dest!: decodeAltAddress_facts)

subsection \<open>ACK bodies\<close>

lemma skip_ranges_bounds: "skip_ranges k src pos = Inr q \<Longrightarrow> pos \<le> q \<and> (pos \<le> length src \<longrightarrow> q \<le> length src)"
proof (induction k arbitrary: pos)
  case 0
  then show ?case by simp
next
  case (Suc k)
  then show ?case by (fastforce simp: zbind_eq_Inr dest!: get_varint_facts)
qed

lemma get_varint_take:
  "get_varint src pos = Inr (v, p) \<Longrightarrow> p \<le> m \<Longrightarrow> get_varint (take m src) pos = Inr (v, p)"
proof -
  assume g: "get_varint src pos = Inr (v, p)" and m: "p \<le> m"
  obtain n where n: "decode (drop pos src) = Inr (v, n)" "p = pos + n"
    using g by (auto simp: get_varint_def zbind_eq_Inr)
  note s = decode_sound [OF n(1)]
  have "n \<le> m - pos" using m n(2) by simp
  then have "drop pos (take m src) = vbytes_at n v @ drop n (take (m - pos) (drop pos src))"
    using s(4) by (metis (no_types, lifting) append_take_drop_id drop_take min.absorb1 take_take)
  then show ?thesis using decode_vbytes_at [OF s(1,3)] n(2) by (simp add: get_varint_def)
qed

lemma skip_ranges_take:
  "skip_ranges k src pos = Inr q \<Longrightarrow> q \<le> m \<Longrightarrow> skip_ranges k (take m src) pos = Inr q"
proof (induction k arbitrary: pos)
  case 0
  then show ?case by simp
next
  case (Suc k)
  obtain g p1 l p2 where *: "get_varint src pos = Inr (g, p1)" "get_varint src p1 = Inr (l, p2)"
    "skip_ranges k src p2 = Inr q"
    using Suc.prems(1) by (auto simp: zbind_eq_Inr)
  have "p2 \<le> q" using skip_ranges_bounds [OF *(3)] by simp
  then show ?case
    using Suc.IH [OF *(3) Suc.prems(2)] get_varint_take [OF *(1), of m]
      get_varint_take [OF *(2), of m] get_varintD(4) [OF *(2)] Suc.prems(2) by simp
qed

lemma get_varint_drop:
  "get_varint src (b + pos) = Inr (v, p) \<Longrightarrow> get_varint (drop b src) pos = Inr (v, p - b)"
  by (auto simp: get_varint_def zbind_eq_Inr add.commute)

lemma skip_ranges_drop:
  "skip_ranges k src (b + pos) = Inr q \<Longrightarrow> skip_ranges k (drop b src) pos = Inr (q - b)"
proof (induction k arbitrary: pos)
  case 0
  then show ?case by simp
next
  case (Suc k)
  obtain g p1 l p2 where *: "get_varint src (b + pos) = Inr (g, p1)" "get_varint src p1 = Inr (l, p2)"
    "skip_ranges k src p2 = Inr q"
    using Suc.prems(1) by (auto simp: zbind_eq_Inr)
  have "b \<le> p1" "b \<le> p2" using get_varintD(4) [OF *(1)] get_varintD(4) [OF *(2)] by simp_all
  then show ?case
    using get_varint_drop [OF *(1)] get_varint_drop [of src b "p1 - b" l p2] *(2)
      Suc.IH [of "p2 - b"] *(3) by simp
qed

lemma skip_ranges_slice:
  assumes "skip_ranges k src s = Inr q" "s \<le> length src"
  shows "skip_ranges k (take (q - s) (drop s src)) 0 = Inr (length (take (q - s) (drop s src)))"
proof -
  have b: "s \<le> q" "q \<le> length src" using skip_ranges_bounds [OF assms(1)] assms(2) by simp_all
  have "skip_ranges k (drop s src) 0 = Inr (q - s)" using skip_ranges_drop [of k src s 0] assms(1) by simp
  from skip_ranges_take [OF this] show ?thesis using b by simp
qed

lemma decodeEcn_facts:
  "decodeEcn w src pos = Inr (ecn, p) \<Longrightarrow> pos \<le> length src \<Longrightarrow>
   list_all put_ok (encodeEcn ecn) \<and> p \<le> length src \<and> (ecn \<noteq> None) = w \<and>
   pos + length (concat (map put_out (encodeEcn ecn))) \<le> p"
  by (auto simp: decodeEcn_def encodeEcn_def zbind_eq_Inr split: if_splits dest!: get_varint_facts)

lemma decodeAckBody_facts:
  assumes "decodeAckBody src n w = Inr b"
  shows "list_all put_ok (encodeAckBody (ab_largest_acked b) (ab_ack_delay b) (ab_range_count b)
       (ab_first_range b) (ab_ranges_bytes b) (ab_ecn_counts b)) \<and>
     ack_ranges_ok (ab_largest_acked b) (ab_first_range b) (ab_range_count b) (ab_ranges_bytes b) \<and>
     ab_end b \<le> length src \<and>
     n + ackBodyLen (ab_largest_acked b) (ab_ack_delay b) (ab_range_count b)
       (ab_first_range b) (ab_ranges_bytes b) (ab_ecn_counts b) \<le> ab_end b"
proof -
  obtain la p1 ad p2 rc p3 fr s q ecn p where
    g: "get_varint src n = Inr (la, p1)" "get_varint src p1 = Inr (ad, p2)"
      "get_varint src p2 = Inr (rc, p3)" "get_varint src p3 = Inr (fr, s)"
    and rc: "\<not> rc > max_incoming_ack_ranges"
    and sk: "skip_ranges (unat rc) src s = Inr q"
    and va: "validateAckRanges la fr rc (take (q - s) (drop s src)) = Inr ()"
    and e: "decodeEcn w src q = Inr (ecn, p)"
    and b: "b = \<lparr>ab_largest_acked = la, ab_ack_delay = ad, ab_first_range = fr,
        ab_range_count = rc, ab_ranges_bytes = take (q - s) (drop s src), ab_ecn_counts = ecn,
        ab_end = p\<rparr>"
    using assms by (auto simp: decodeAckBody_def zbind_eq_Inr Let_def split: if_splits)
  note f = get_varint_facts [OF g(1)] get_varint_facts [OF g(2)] get_varint_facts [OF g(3)]
    get_varint_facts [OF g(4)]
  have q: "s \<le> q" "q \<le> length src" using skip_ranges_bounds [OF sk] f(4) by simp_all
  note ec = decodeEcn_facts [OF e q(2)]
  have "length (take (q - s) (drop s src)) = q - s" using q by simp
  moreover have "ack_ranges_ok la fr rc (take (q - s) (drop s src))"
    using rc va skip_ranges_slice [OF sk] f(4) by (simp add: ack_ranges_ok_def not_less)
  ultimately show ?thesis using f ec q
    by (cases ecn) (auto simp: b encodeAckBody_def ackBodyLen_def encodeEcn_def)
qed

lemma sound_ack:
  "decodeAck src n w = Inr (f, p) \<Longrightarrow> 1 \<le> n \<Longrightarrow> sound_at src p f"
  "decodePathAck src n w = Inr (f, p) \<Longrightarrow> 1 \<le> n \<Longrightarrow> sound_at src p f"
  by (auto simp: sound_at_def frame_encodable_def encodeAck_def encodePathAck_def decodeAck_def decodePathAck_def
      zbind_eq_Inr frame_type_lens frame_type_max ucast_path_id
      dest!: decodeAckBody_facts decodePathId_facts)

subsection \<open>The whole decoder\<close>

lemma sound_padding:
  assumes "src \<noteq> []" "src ! 0 = 0" "length src < 2 ^ 64" "n = length (takeWhile (\<lambda>b. b = 0) src)"
  shows "sound_at src n (Padding \<lparr>pd_count = word_of_nat n\<rparr>)" "0 < n"
proof -
  have n: "0 < n" using assms(1,2,4) by (cases src) auto
  have l: "n \<le> length src" using assms(4) by (simp add: length_takeWhile_le)
  with assms(3) have u: "unat (word_of_nat n :: u64) = n" by (simp add: unat_of_nat)
  then have "(word_of_nat n :: u64) \<noteq> 0" using n by (metis unsigned_0 less_numeral_extra(3))
  moreover have "drop n src = [] \<or> hd (drop n src) \<noteq> 0"
    using assms(4) hd_dropWhile [of "\<lambda>b. b = 0" src] by (auto simp: dropWhile_eq_drop)
  ultimately show "sound_at src n (Padding \<lparr>pd_count = word_of_nat n\<rparr>)"
    using l u by (simp add: sound_at_def frame_encodable_def encodePadding_def)
  show "0 < n" by (rule n)
qed

lemma sound_unit:
  "1 \<le> n \<Longrightarrow> n \<le> length src \<Longrightarrow> sound_at src n Ping"
  "1 \<le> n \<Longrightarrow> n \<le> length src \<Longrightarrow> sound_at src n HandshakeDone"
  "1 \<le> n \<Longrightarrow> n \<le> length src \<Longrightarrow> sound_at src n ImmediateAck"
  by (simp_all add: sound_simps frame_type_lens frame_type_max)

lemma if_result_cases:
  "(if c then a else b) = Inr r \<Longrightarrow> (c \<Longrightarrow> a = Inr r \<Longrightarrow> P) \<Longrightarrow> (b = Inr r \<Longrightarrow> P) \<Longrightarrow> P"
  by (simp split: if_splits)

lemma decode_typed_sound:
  assumes d: "decode_typed t src n = Inr (f, p)" and t: "encodedLen t \<le> n"
    and n: "1 \<le> n" "n \<le> length src"
  shows "sound_at src p f"
  using d t unfolding decode_typed_def
  by (elim if_result_cases)
     (use n in \<open>auto simp: frame_type_lens sound_unit
      dest: sound_varints sound_path_varints sound_fixed sound_payload sound_connection_close
        sound_stream sound_connection_ids sound_alternative_address sound_ack\<close>)

lemma frame_decode_sound:
  assumes "frame_decode src = Inr (f, p)" "length src < 2 ^ 64"
  shows "sound_at src p f"
proof (cases "src ! 0 = 0")
  case True
  with assms sound_padding(1) [of src p] show ?thesis
    by (auto simp: frame_decode_def Let_def split: if_splits)
next
  case False
  then obtain t n where d: "decode src = Inr (t, n)" "decode_typed t src n = Inr (f, p)"
    using assms(1) by (auto simp: frame_decode_def zbind_eq_Inr split: if_splits)
  note s = decode_sound [OF d(1)]
  have "1 \<le> n" using s(1) by (auto simp: legal_len_def)
  with decode_typed_sound [OF d(2) encodedLen_minimal [OF s(1,3)]] s(2) show ?thesis by simp
qed

lemma unat_pos: "w \<noteq> 0 \<Longrightarrow> 0 < unat w"
  by (metis gr0I unsigned_eq_0_iff)

lemma frame_encodedLen_pos: "frame_canonical f \<Longrightarrow> 0 < frame_encodedLen f"
  by (cases f)
     (auto simp: frame_type_lens encodedAltAddressLen_def encodedPathStatusLen_def
       intro: unat_pos)

subsection \<open>Properties\<close>

text \<open>C28: Encoding then decoding a frame gives the same frame back.  Whatever the encoder
  writes into a buffer (all 34 frame kinds, any buffer), followed by whatever bytes may
  follow that kind of frame, decodes to the frame and to exactly the number of bytes the
  encoder reported.\<close>

theorem frame_roundtrip:
  assumes "frame_shaped f" "frame_canonical f" "tail_ok f rest"
    and "frame_encode dst f = Inr (dst', n)"
  shows "frame_decode (take n dst' @ rest) = Inr (f, n)"
proof -
  have e: "frame_encodable f" using assms(4) frame_encode_refuses [of f dst] by fastforce
  from frame_encode_eq [OF e assms(1), of dst] assms(4) frame_encodedLen_correct [OF assms(1)]
  have "n = length (frame_bytes f)" "take n dst' = frame_bytes f" by (auto split: if_splits)
  with frame_reads_back [OF e assms(1-3)] show ?thesis by (simp add: reads_back_def)
qed

definition sample_stream :: frame where
  "sample_stream = Stream \<lparr>sf_stream_id = 4, sf_offset = 0x4321, sf_data = [1, 2, 3],
     sf_has_offset = True, sf_has_length = True, sf_fin = True\<rparr>"

lemmas be_bytes_numeral = be_bytes.simps(2) [of "pred_numeral k" for k, folded numeral_eq_Suc]

lemma sample_stream_bytes: "frame_bytes sample_stream = [0x0f, 4, 0x80, 0, 0x43, 0x21, 3, 1, 2, 3]"
  by (simp add: sample_stream_def frame_bytes_def encodeStream_def stream_type_byte_def
      slice_len_def vbytes_def vbytes_at_def tag_bits_def encodedLen_numeral be_bytes_numeral)

lemma sample_stream_ok: "frame_encodable sample_stream" "frame_shaped sample_stream"
  "frame_canonical sample_stream" "frame_encodedLen sample_stream = 10"
  by (simp_all add: sample_stream_def frame_encodable_def encodeStream_def slice_len_def
      max_value_numeral encodedLen_numeral)

lemma sample_stream_encode:
  "frame_encode (replicate 12 0xff) sample_stream =
     Inr ([0x0f, 4, 0x80, 0, 0x43, 0x21, 3, 1, 2, 3, 0xff, 0xff], 10)"
  using frame_encode_eq [OF sample_stream_ok(1,2), of "replicate 12 0xff"]
  by (simp add: sample_stream_bytes sample_stream_ok numeral_eq_Suc)

theorem frame_roundtrip_witness:
  "frame_decode ([0x0f, 4, 0x80, 0, 0x43, 0x21, 3, 1, 2, 3] @ [1, 0]) = Inr (sample_stream, 10)"
  using frame_roundtrip [of sample_stream "[1, 0]", OF _ _ _ sample_stream_encode]
  by (simp add: sample_stream_def)

text \<open>C29: The encoder is exact.  It succeeds precisely when every varint field of the frame
  is encodable and the buffer holds \<open>encodedLen\<close> bytes; it then reports \<open>encodedLen\<close>, and
  it leaves the buffer's length and everything after those bytes unchanged.\<close>

theorem frame_encode_exact:
  assumes "frame_shaped f"
  shows "((\<exists>dst' n. frame_encode dst f = Inr (dst', n)) \<longleftrightarrow>
           frame_encodable f \<and> frame_encodedLen f \<le> length dst) \<and>
         (\<forall>dst' n. frame_encode dst f = Inr (dst', n) \<longrightarrow>
           n = frame_encodedLen f \<and> length dst' = length dst \<and> drop n dst' = drop n dst)"
proof (cases "frame_encodable f")
  case True
  with frame_encode_eq [OF True assms, of dst] frame_encodedLen_correct [OF assms]
  show ?thesis by auto
next
  case False
  with frame_encode_refuses [OF False, of dst] show ?thesis by auto
qed

theorem frame_encode_exact_witness:
  "(\<exists>dst' n. frame_encode (replicate 10 0xff) sample_stream = Inr (dst', n)) \<and>
   \<not> (\<exists>dst' n. frame_encode (replicate 9 0xff) sample_stream = Inr (dst', n))"
  using frame_encode_exact [OF sample_stream_ok(2), of "replicate 10 0xff"]
    frame_encode_exact [OF sample_stream_ok(2), of "replicate 9 0xff"] sample_stream_ok
  by simp

text \<open>Decoding makes progress and stays in bounds: a decoded frame consumed at least one
  byte, no more than the input has, and at least as many as its canonical encoding takes,
  so a loop that decodes a packet frame by frame ends after at most one turn per byte.\<close>

lemma frame_decode_progress:
  assumes "length src < 2 ^ 64" "frame_decode src = Inr (f, n)"
  shows "0 < n \<and> n \<le> length src \<and> frame_encodedLen f \<le> n"
  using frame_decode_sound [OF assms(2,1)] frame_encodedLen_pos [of f]
  by (auto simp: sound_at_def)

text \<open>C32: Every frame the decoder returns is one the encoder accepts, and re-encoding it
  gives bytes that decode to the same frame: a decoded frame forwarded by the encoder in
  place of the received bytes, before the same rest of the packet, is read identically.\<close>

theorem frame_decode_reencode:
  assumes "length src < 2 ^ 64" "frame_decode src = Inr (f, n)" "n \<le> length dst"
  shows "\<exists>dst' m. frame_encode dst f = Inr (dst', m) \<and> m \<le> n \<and>
     frame_decode (take m dst' @ drop n src) = Inr (f, m)"
proof -
  have s: "frame_shaped f" "frame_encodable f" "frame_canonical f" "tail_ok f (drop n src)"
    "frame_encodedLen f \<le> n"
    using frame_decode_sound [OF assms(2,1)] by (simp_all add: sound_at_def)
  with frame_encode_eq [OF s(2,1), of dst] frame_encodedLen_correct [OF s(1)]
    frame_reads_back [OF s(2,1,3,4)] assms(3)
  show ?thesis by (auto simp: reads_back_def)
qed

theorem frame_decode_reencode_witness:
  "\<exists>dst' m. frame_encode (replicate 5 0) (ResetStream \<lparr>rs_stream_id = 1,
     rs_application_error_code = 2, rs_final_size = 3\<rparr>) = Inr (dst', m) \<and> m \<le> 5 \<and>
     frame_decode (take m dst' @ [1]) = Inr (ResetStream \<lparr>rs_stream_id = 1,
     rs_application_error_code = 2, rs_final_size = 3\<rparr>, m)"
proof -
  have "frame_decode [0x40, 0x04, 1, 2, 3, 1] = Inr (ResetStream \<lparr>rs_stream_id = 1,
     rs_application_error_code = 2, rs_final_size = 3\<rparr>, 5)" by code_simp
  from frame_decode_reencode [OF _ this, of "replicate 5 0"] show ?thesis by simp
qed

end
