(* ===== verification/Ack_Range.thy ===== *)
theory Ack_Range
  imports Frame_Decode
begin

text \<open>
  Model of \<open>src/src/frame/ack_range.zig\<close>: the lazy iterator over the intervals an ACK frame
  describes, and the writer of its gap and length pairs.  The lemmas show that on every ACK
  body the decoder lets through the iterator returns all \<open>range_count + 1\<close> intervals without
  an error, strictly descending, and that iterating what \<open>writeRanges\<close> wrote gives back the
  intervals the pairs stand for.
\<close>

record interval =
  iv_smallest :: u64
  iv_largest :: u64

record iterator =
  it_largest_acked :: u64
  it_first_range :: u64
  it_range_count :: u64
  it_ranges_bytes :: "byte list"
  it_pos :: nat
  it_next_range_index :: u64
  it_last_smallest :: u64
  it_first_emitted :: bool

text \<open>\<open>next\<close> mutates the iterator, also on the way to an error.\<close>

definition it_next :: "iterator \<Rightarrow> (wire_error + interval option) \<times> iterator" where
  "it_next it =
     (if \<not> it_first_emitted it then
        let it = it\<lparr>it_first_emitted := True\<rparr> in
        if it_first_range it > it_largest_acked it then (Inl InvalidLength, it)
        else let smallest = it_largest_acked it - it_first_range it in
          (Inr (Some \<lparr>iv_smallest = smallest, iv_largest = it_largest_acked it\<rparr>),
           it\<lparr>it_last_smallest := smallest\<rparr>)
      else if it_next_range_index it \<ge> it_range_count it then (Inr None, it)
      else case get_varint (it_ranges_bytes it) (it_pos it) of
        Inl e \<Rightarrow> (Inl e, it)
      | Inr (gap, pos) \<Rightarrow>
        (let it = it\<lparr>it_pos := pos\<rparr> in
         case get_varint (it_ranges_bytes it) (it_pos it) of
           Inl e \<Rightarrow> (Inl e, it)
         | Inr (len, pos) \<Rightarrow>
           (let it = it\<lparr>it_pos := pos\<rparr> in
            if it_last_smallest it < gap + 2 then (Inl InvalidLength, it)
            else let largest_in_this = it_last_smallest it - gap - 2 in
              if largest_in_this < len then (Inl InvalidLength, it)
              else let smallest_in_this = largest_in_this - len in
                (Inr (Some \<lparr>iv_smallest = smallest_in_this, iv_largest = largest_in_this\<rparr>),
                 it\<lparr>it_last_smallest := smallest_in_this,
                    it_next_range_index := it_next_range_index it + 1\<rparr>))))"

definition ack_iter :: "ack \<Rightarrow> iterator" where
  "ack_iter a =
     \<lparr>it_largest_acked = ak_largest_acked a, it_first_range = ak_first_range a,
      it_range_count = ak_range_count a, it_ranges_bytes = ak_ranges_bytes a,
      it_pos = 0, it_next_range_index = 0, it_last_smallest = 0, it_first_emitted = False\<rparr>"

text \<open>
  The consumers' loop \<open>while (try it.next()) |interval|\<close>; \<open>None\<close> is fuel exhausted.
\<close>

fun drain :: "nat \<Rightarrow> iterator \<Rightarrow> (wire_error + interval list) option" where
  "drain 0 it = None"
| "drain (Suc n) it =
     (case it_next it of
        (Inl e, _) \<Rightarrow> Some (Inl e)
      | (Inr None, _) \<Rightarrow> Some (Inr [])
      | (Inr (Some iv), it) \<Rightarrow> map_option (map_sum id (Cons iv)) (drain n it))"

fun writeRanges_loop :: "ack_range list \<Rightarrow> byte list \<Rightarrow> nat \<Rightarrow> wire_error + (byte list \<times> nat)" where
  "writeRanges_loop [] dst pos = Inr (dst, pos)"
| "writeRanges_loop (r # rs) dst pos =
     zbind (put_varint (ar_gap r) dst pos) (\<lambda>(dst, pos).
     zbind (put_varint (ar_length r) dst pos) (\<lambda>(dst, pos).
     writeRanges_loop rs dst pos))"

definition writeRanges :: "byte list \<Rightarrow> ack_range list \<Rightarrow> wire_error + (byte list \<times> nat)" where
  "writeRanges dst ranges = writeRanges_loop ranges dst 0"

definition rangesEncodedLen :: "ack_range list \<Rightarrow> nat" where
  "rangesEncodedLen ranges =
     foldl (\<lambda>total r. total + encodedLen (ar_gap r) + encodedLen (ar_length r)) 0 ranges"

subsection \<open>What the pairs stand for\<close>

text \<open>
  The RFC's recurrence: the interval below \<open>cursor\<close> for each pair, or \<open>None\<close> when one would
  go below zero.
\<close>

fun descend :: "u64 \<Rightarrow> ack_range list \<Rightarrow> interval list option" where
  "descend cursor [] = Some []"
| "descend cursor (r # rs) =
     (if unat cursor < unat (ar_gap r) + 2 then None
      else let l = cursor - ar_gap r - 2 in
        if l < ar_length r then None
        else map_option (Cons \<lparr>iv_smallest = l - ar_length r, iv_largest = l\<rparr>)
               (descend (l - ar_length r) rs))"

definition pairs_ok :: "ack_range list \<Rightarrow> bool" where
  "pairs_ok rs = list_all (\<lambda>r. ar_gap r \<le> max_value \<and> ar_length r \<le> max_value) rs"

definition pairs_bytes :: "ack_range list \<Rightarrow> byte list" where
  "pairs_bytes rs = concat (map (\<lambda>r. vbytes (ar_gap r) @ vbytes (ar_length r)) rs)"

lemma pairs_bytes_simps [simp]: "pairs_bytes [] = []"
  "pairs_bytes (r # rs) = vbytes (ar_gap r) @ vbytes (ar_length r) @ pairs_bytes rs"
  by (simp_all add: pairs_bytes_def)

lemma pairs_ok_simps [simp]: "pairs_ok []"
  "pairs_ok (r # rs) \<longleftrightarrow> ar_gap r \<le> max_value \<and> ar_length r \<le> max_value \<and> pairs_ok rs"
  by (simp_all add: pairs_ok_def)

text \<open>Intervals strictly descending, with at least one number missing between two of them.\<close>

fun falling :: "nat \<Rightarrow> interval list \<Rightarrow> bool" where
  "falling bound [] = True"
| "falling bound (iv # ivs) =
     (unat (iv_largest iv) + 2 \<le> bound \<and> iv_smallest iv \<le> iv_largest iv
      \<and> falling (unat (iv_smallest iv)) ivs)"

lemma gap_no_wrap: "gap \<le> max_value \<Longrightarrow> unat (gap + 2) = unat gap + 2"
proof -
  assume "gap \<le> max_value"
  then have "unat gap \<le> 2 ^ 62 - 1" by (simp add: word_le_nat_alt)
  then show ?thesis by (simp add: unat_word_ariths)
qed

lemma descend_cursor:
  fixes gap cursor :: u64
  assumes "unat gap + 2 \<le> unat cursor"
  shows "unat (cursor - gap - 2) = unat cursor - unat gap - 2"
proof -
  have g: "gap \<le> cursor" using assms by (simp add: word_le_nat_alt)
  then have u: "unat (cursor - gap) = unat cursor - unat gap" by (simp add: unat_sub)
  then have "2 \<le> cursor - gap" using assms by (simp add: word_le_nat_alt)
  then show ?thesis using u by (simp add: unat_sub)
qed

lemma descend_falling: "descend cursor rs = Some ivs \<Longrightarrow> falling (unat cursor) ivs \<and> length ivs = length rs"
proof (induction rs arbitrary: cursor ivs)
  case Nil
  then show ?case by simp
next
  case (Cons r rs)
  let ?l = "cursor - ar_gap r - 2"
  obtain js where *: "\<not> unat cursor < unat (ar_gap r) + 2" "\<not> ?l < ar_length r"
    "descend (?l - ar_length r) rs = Some js"
    "ivs = \<lparr>iv_smallest = ?l - ar_length r, iv_largest = ?l\<rparr> # js"
    using Cons.prems by (auto simp: Let_def split: if_splits)
  have "?l - ar_length r \<le> ?l" using *(2) by (simp add: word_sub_le not_less)
  moreover have "unat ?l + 2 \<le> unat cursor" using *(1) descend_cursor [of "ar_gap r" cursor] by simp
  ultimately show ?case using Cons.IH [OF *(3)] *(4) by simp
qed

subsection \<open>The decoder's gate and the iterator read the same pairs\<close>

fun reads_pairs :: "byte list \<Rightarrow> nat \<Rightarrow> ack_range list \<Rightarrow> nat \<Rightarrow> bool" where
  "reads_pairs rb pos [] q = (pos = q)"
| "reads_pairs rb pos (r # rs) q =
     (\<exists>p1 p2. get_varint rb pos = Inr (ar_gap r, p1) \<and> get_varint rb p1 = Inr (ar_length r, p2)
        \<and> reads_pairs rb p2 rs q)"

lemma skip_ranges_reads:
  "skip_ranges k rb pos = Inr q \<Longrightarrow> \<exists>rs. length rs = k \<and> reads_pairs rb pos rs q"
proof (induction k arbitrary: pos)
  case 0
  then show ?case by simp
next
  case (Suc k)
  then obtain g p1 l p2 where *: "get_varint rb pos = Inr (g, p1)" "get_varint rb p1 = Inr (l, p2)"
    "skip_ranges k rb p2 = Inr q"
    by (auto simp: zbind_eq_Inr)
  with Suc.IH obtain rs where "length rs = k" "reads_pairs rb p2 rs q" by blast
  with * show ?case by (intro exI [of _ "\<lparr>ar_gap = g, ar_length = l\<rparr> # rs"]) simp
qed

lemma reads_skip_ranges: "reads_pairs rb pos rs q \<Longrightarrow> skip_ranges (length rs) rb pos = Inr q"
  by (induction rs arbitrary: pos) auto

lemma reads_pairs_ok: "reads_pairs rb pos rs q \<Longrightarrow> pairs_ok rs"
  by (induction rs arbitrary: pos) (auto dest!: get_varint_facts)

lemma gap_guard: "gap \<le> max_value \<Longrightarrow> cursor < gap + 2 \<longleftrightarrow> unat cursor < unat gap + 2"
  by (simp add: word_less_nat_alt gap_no_wrap)

lemma validate_loop_reads:
  "reads_pairs rb pos rs q \<Longrightarrow>
   validate_loop (length rs) cursor rb pos =
     (case descend cursor rs of None \<Rightarrow> Inl OverlappingAckRanges | Some _ \<Rightarrow> Inr ())"
proof (induction rs arbitrary: pos cursor)
  case Nil
  then show ?case by simp
next
  case (Cons r rs)
  then obtain p1 p2 where *: "get_varint rb pos = Inr (ar_gap r, p1)"
    "get_varint rb p1 = Inr (ar_length r, p2)" "reads_pairs rb p2 rs q" by auto
  then show ?case using Cons.IH [OF *(3)] get_varintD(1) [OF *(1)]
    by (simp add: gap_guard Let_def split: option.splits)
qed

lemma drain_reads:
  "reads_pairs (it_ranges_bytes it) (it_pos it) rs q \<Longrightarrow> it_first_emitted it \<Longrightarrow>
   unat (it_next_range_index it) + length rs = unat (it_range_count it) \<Longrightarrow>
   drain (length rs + 1) it =
     Some (case descend (it_last_smallest it) rs of None \<Rightarrow> Inl InvalidLength | Some ivs \<Rightarrow> Inr ivs)"
proof (induction rs arbitrary: it)
  case Nil
  then show ?case by (simp add: it_next_def word_le_nat_alt)
next
  case (Cons r rs)
  obtain p1 p2 where *: "get_varint (it_ranges_bytes it) (it_pos it) = Inr (ar_gap r, p1)"
    "get_varint (it_ranges_bytes it) p1 = Inr (ar_length r, p2)"
    "reads_pairs (it_ranges_bytes it) p2 rs q" using Cons.prems(1) by auto
  have lt: "\<not> it_next_range_index it \<ge> it_range_count it"
    using Cons.prems(3) by (simp add: word_le_nat_alt)
  have "unat (it_next_range_index it) < unat (it_range_count it)" using Cons.prems(3) by simp
  then have idx: "unat (it_next_range_index it + 1) = unat (it_next_range_index it) + 1"
    using unat_u64_bound [of "it_range_count it"] by (simp add: unat_word_ariths)
  let ?l = "it_last_smallest it - ar_gap r - 2"
  show ?case
    using Cons.IH [of "it\<lparr>it_pos := p2, it_last_smallest := ?l - ar_length r,
        it_next_range_index := it_next_range_index it + 1\<rparr>"]
      * lt idx Cons.prems(2,3) get_varintD(1) [OF *(1)]
    by (simp add: it_next_def gap_guard Let_def split: option.splits)
qed

text \<open>The iterator, in one equation.\<close>

lemma drain_iter:
  assumes "reads_pairs (ak_ranges_bytes a) 0 rs q" "length rs = unat (ak_range_count a)"
  shows "drain (length rs + 2) (ack_iter a) = Some
    (if ak_first_range a > ak_largest_acked a then Inl InvalidLength
     else case descend (ak_largest_acked a - ak_first_range a) rs of
       None \<Rightarrow> Inl InvalidLength
     | Some ivs \<Rightarrow> Inr (\<lparr>iv_smallest = ak_largest_acked a - ak_first_range a,
                          iv_largest = ak_largest_acked a\<rparr> # ivs))"
proof -
  let ?it = "(ack_iter a)\<lparr>it_first_emitted := True,
      it_last_smallest := ak_largest_acked a - ak_first_range a\<rparr>"
  have "reads_pairs (it_ranges_bytes ?it) (it_pos ?it) rs q"
    "unat (it_next_range_index ?it) + length rs = unat (it_range_count ?it)"
    using assms by (simp_all add: ack_iter_def)
  from drain_reads [OF this(1) _ this(2)] show ?thesis
    by (simp add: it_next_def ack_iter_def Let_def split: option.splits)
qed

subsection \<open>Writing pairs\<close>

lemma reads_pairs_written:
  "drop pos rb = pairs_bytes rs @ rest \<Longrightarrow> pairs_ok rs \<Longrightarrow>
   reads_pairs rb pos rs (pos + length (pairs_bytes rs))"
proof (induction rs arbitrary: pos)
  case Nil
  then show ?case by simp
next
  case (Cons r rs)
  have d: "drop (pos + encodedLen (ar_gap r)) rb =
      vbytes (ar_length r) @ pairs_bytes rs @ rest"
    using arg_cong [OF Cons.prems(1), of "drop (encodedLen (ar_gap r))"] by (simp add: add.commute)
  have d2: "drop (pos + encodedLen (ar_gap r) + encodedLen (ar_length r)) rb = pairs_bytes rs @ rest"
    using arg_cong [OF d, of "drop (encodedLen (ar_length r))"] by (simp add: add.commute)
  from Cons.IH [OF d2] Cons.prems d show ?case
    by (auto simp: get_varint_here add.assoc)
qed

lemma writeRanges_loop_emits:
  "pairs_ok rs \<Longrightarrow> emits (writeRanges_loop rs) (pairs_bytes rs)"
proof (induction rs)
  case Nil
  show ?case by (simp add: emits_def put_bytes_def)
next
  case (Cons r rs)
  have "writeRanges_loop (r # rs) =
      write_all [put_varint (ar_gap r), put_varint (ar_length r), writeRanges_loop rs]"
    by (intro ext) (simp add: zbind_def split: sum.splits prod.splits)
  then show ?case using Cons
      emits_Cons [OF emits_put_varint emits_Cons [OF emits_put_varint emits_Cons [OF Cons.IH emits_Nil]]]
    by (simp del: write_all.simps)
qed

lemma writeRanges_eq:
  "pairs_ok rs \<Longrightarrow> writeRanges dst rs =
     (if length dst < length (pairs_bytes rs) then Inl BufferTooSmall
      else Inr (pairs_bytes rs @ drop (length (pairs_bytes rs)) dst, length (pairs_bytes rs)))"
  unfolding writeRanges_def
  using emitsD [OF writeRanges_loop_emits, of rs 0 dst] by (simp add: put_bytes_def)

lemma rangesEncodedLen_eq: "rangesEncodedLen rs = length (pairs_bytes rs)"
proof -
  have "foldl (\<lambda>total r. total + encodedLen (ar_gap r) + encodedLen (ar_length r)) n rs =
      n + length (pairs_bytes rs)" for n
    by (induction rs arbitrary: n) simp_all
  then show ?thesis by (simp add: rangesEncodedLen_def)
qed

subsection \<open>Properties\<close>

lemma ack_ranges_ok_reads:
  assumes "ack_ranges_ok la fr rc rb"
  obtains rs ivs where "reads_pairs rb 0 rs (length rb)" "length rs = unat rc" "\<not> fr > la"
    "descend (la - fr) rs = Some ivs"
proof -
  from assms have "skip_ranges (unat rc) rb 0 = Inr (length rb)" by (simp add: ack_ranges_ok_def)
  from skip_ranges_reads [OF this] obtain rs
    where rs: "length rs = unat rc" "reads_pairs rb 0 rs (length rb)" by blast
  moreover have "\<not> fr > la" "descend (la - fr) rs \<noteq> None"
    using assms validate_loop_reads [OF rs(2), of "la - fr"] rs(1)
    by (auto simp: ack_ranges_ok_def validateAckRanges_def split: if_splits option.splits)
  ultimately show ?thesis using that by auto
qed

text \<open>C33: On every ACK frame the decoder accepts, the range iterator never reports an error:
  it returns exactly \<open>range_count + 1\<close> intervals (at most 257), the first one ending at
  \<open>largest_acked\<close>, each non-empty and each at least two packet numbers below the one
  before, so no interval overlaps or touches another and nothing wraps below zero.\<close>

theorem decoded_ack_iterates:
  assumes "length src < 2 ^ 64" "frame_decode src = Inr (Ack a, n)"
  shows "\<exists>ivs. drain (unat (ak_range_count a) + 2) (ack_iter a) = Some (Inr ivs)
     \<and> length ivs = unat (ak_range_count a) + 1 \<and> length ivs \<le> 257
     \<and> iv_largest (hd ivs) = ak_largest_acked a \<and> falling (unat (ak_largest_acked a) + 2) ivs"
proof -
  have ok: "ack_ranges_ok (ak_largest_acked a) (ak_first_range a) (ak_range_count a) (ak_ranges_bytes a)"
    using frame_decode_sound [OF assms(2,1)] by (simp add: sound_at_def)
  from ack_ranges_ok_reads [OF ok] obtain rs ivs where
    r: "reads_pairs (ak_ranges_bytes a) 0 rs (length (ak_ranges_bytes a))"
      "length rs = unat (ak_range_count a)" "\<not> ak_first_range a > ak_largest_acked a"
      "descend (ak_largest_acked a - ak_first_range a) rs = Some ivs" by blast
  have "ak_range_count a \<le> 256" using ok by (simp add: ack_ranges_ok_def max_incoming_ack_ranges_def)
  then have c: "unat (ak_range_count a) \<le> 256" by (simp add: word_le_nat_alt)
  have "ak_largest_acked a - ak_first_range a \<le> ak_largest_acked a"
    using r(3) by (simp add: word_sub_le not_less)
  with drain_iter [OF r(1,2)] descend_falling [OF r(4)] r(2-4) c show ?thesis by auto
qed

definition sample_ack :: ack where
  "sample_ack = \<lparr>ak_largest_acked = 40, ak_ack_delay = 7, ak_first_range = 2, ak_range_count = 2,
     ak_ranges_bytes = [0, 3, 5, 0], ak_ecn_counts = None\<rparr>"

lemma sample_ack_decode: "frame_decode [2, 40, 7, 2, 2, 0, 3, 5, 0, 1] = Inr (Ack sample_ack, 9)"
  unfolding sample_ack_def by code_simp

theorem decoded_ack_iterates_witness:
  "\<exists>ivs. drain 4 (ack_iter sample_ack) = Some (Inr ivs) \<and> length ivs = 3 \<and> falling 42 ivs"
  using decoded_ack_iterates [OF _ sample_ack_decode] by (auto simp: sample_ack_def)

text \<open>C34: The decoder's gate and the iterator agree.  For any well-formed list of gap and
  length pairs, \<open>validateAckRanges\<close> accepts it exactly when the iterator runs to its end
  without an error, and rejects it with \<open>OverlappingAckRanges\<close> exactly when the iterator
  would stop with \<open>InvalidLength\<close>.\<close>

theorem ack_gate_iff_iterator:
  assumes "skip_ranges (unat (ak_range_count a)) (ak_ranges_bytes a) 0 = Inr q"
  shows "(validateAckRanges (ak_largest_acked a) (ak_first_range a) (ak_range_count a)
            (ak_ranges_bytes a) = Inr () \<longleftrightarrow>
          (\<exists>ivs. drain (unat (ak_range_count a) + 2) (ack_iter a) = Some (Inr ivs)))
       \<and> (validateAckRanges (ak_largest_acked a) (ak_first_range a) (ak_range_count a)
            (ak_ranges_bytes a) = Inl OverlappingAckRanges \<longleftrightarrow>
          drain (unat (ak_range_count a) + 2) (ack_iter a) = Some (Inl InvalidLength))"
proof -
  from skip_ranges_reads [OF assms] obtain rs where
    r: "length rs = unat (ak_range_count a)" "reads_pairs (ak_ranges_bytes a) 0 rs q" by blast
  from drain_iter [OF r(2,1)] validate_loop_reads [OF r(2), of "ak_largest_acked a - ak_first_range a"] r(1)
  show ?thesis by (auto simp: validateAckRanges_def split: option.splits)
qed

theorem ack_gate_iff_iterator_witness:
  "validateAckRanges 40 2 2 [0, 3, 40, 0] = Inl OverlappingAckRanges \<and>
   drain 4 (ack_iter (sample_ack\<lparr>ak_ranges_bytes := [0, 3, 40, 0]\<rparr>)) = Some (Inl InvalidLength)"
proof -
  have "skip_ranges 2 [0, 3, 40, 0] 0 = Inr 4" by code_simp
  moreover have v: "validateAckRanges 40 2 2 [0, 3, 40, 0] = Inl OverlappingAckRanges" by code_simp
  ultimately show ?thesis
    using ack_gate_iff_iterator [of "sample_ack\<lparr>ak_ranges_bytes := [0, 3, 40, 0]\<rparr>" 4]
    by (simp add: sample_ack_def)
qed

text \<open>C35: Writing gap and length pairs and iterating over the written bytes gives back the
  intervals the pairs stand for: \<open>writeRanges\<close> writes \<open>rangesEncodedLen\<close> bytes, and the
  iterator over them returns the first range followed by the RFC 9000 19.3.1 recurrence on
  the pairs, or \<open>InvalidLength\<close> exactly when the recurrence goes below zero.\<close>

theorem writeRanges_iterates:
  assumes "writeRanges dst rs = Inr (dst', n)" "pairs_ok rs" "length rs < 2 ^ 64"
    and "ak_ranges_bytes a = take n dst'" "ak_range_count a = word_of_nat (length rs)"
    and "ak_first_range a \<le> ak_largest_acked a"
  shows "n = rangesEncodedLen rs \<and>
    drain (length rs + 2) (ack_iter a) = Some
      (case descend (ak_largest_acked a - ak_first_range a) rs of
         None \<Rightarrow> Inl InvalidLength
       | Some ivs \<Rightarrow> Inr (\<lparr>iv_smallest = ak_largest_acked a - ak_first_range a,
                            iv_largest = ak_largest_acked a\<rparr> # ivs))"
proof -
  have n: "n = length (pairs_bytes rs)" "take n dst' = pairs_bytes rs"
    using assms(1) writeRanges_eq [OF assms(2), of dst] by (auto split: if_splits)
  have "reads_pairs (ak_ranges_bytes a) 0 rs (0 + length (pairs_bytes rs))"
    by (rule reads_pairs_written [where rest = "[]"])
       (simp_all only: assms(2,4) n(2) drop_0 append_Nil2)
  moreover have "length rs = unat (ak_range_count a)" using assms(3,5) by (simp add: unat_of_nat)
  ultimately show ?thesis using drain_iter [of a rs] assms(6) n(1)
    by (simp add: rangesEncodedLen_eq not_less [symmetric])
qed

theorem writeRanges_iterates_witness:
  "rangesEncodedLen [\<lparr>ar_gap = 0, ar_length = 3\<rparr>] = 2 \<and>
   drain 3 (ack_iter (sample_ack\<lparr>ak_range_count := 1, ak_ranges_bytes := [0, 3]\<rparr>)) =
     Some (Inr [\<lparr>iv_smallest = 38, iv_largest = 40\<rparr>, \<lparr>iv_smallest = 33, iv_largest = 36\<rparr>])"
proof -
  have "writeRanges [9, 9] [\<lparr>ar_gap = 0, ar_length = 3\<rparr>] = Inr ([0, 3], 2)" by code_simp
  from writeRanges_iterates [OF this, of "sample_ack\<lparr>ak_range_count := 1, ak_ranges_bytes := [0, 3]\<rparr>"]
  show ?thesis by (simp add: sample_ack_def max_value_numeral numeral_3_eq_3 del: drain.simps)
qed

end
