(* ===== verification/Range_List.thy ===== *)
theory Range_List
  imports Quic_Prelude
begin

text \<open>
  Model of \<open>src/src/conn/range_list.zig\<close>: sorted, disjoint, half-open ranges kept in an
  array list, with merging insertion, point lookup by binary search, and removal of a
  point or of a range.  The array list lives in the caller, so each operation returns the
  result of the call together with the list as the call leaves it; \<open>grow\<close> says whether
  the list can take one more slot (spare capacity, or the allocation succeeds).

  The abstraction is \<open>rl_set\<close>, the set of points covered; \<open>rl_inv\<close> is the shape
  the file promises (non-empty ranges, ascending, with a gap between neighbours).
\<close>

record range =
  rg_offset :: nat
  rg_end :: nat

datatype alloc_error = OutOfMemory

definition range_len :: "range \<Rightarrow> nat" where
  "range_len r = rg_end r - rg_offset r"

definition mk_range :: "nat \<Rightarrow> nat \<Rightarrow> range" where
  "mk_range a b = \<lparr>rg_offset = a, rg_end = b\<rparr>"

lemma mk_range_sel [simp]: "rg_offset (mk_range a b) = a" "rg_end (mk_range a b) = b"
  by (simp_all add: mk_range_def)

lemma mk_range_eq_iff [simp]: "mk_range a b = mk_range c d \<longleftrightarrow> a = c \<and> b = d"
  by (simp add: mk_range_def)

lemma range_eq_mk: "r = mk_range (rg_offset r) (rg_end r)"
  by (simp add: mk_range_def)

subsection \<open>Operations\<close>

text \<open>The first index at or after \<open>i\<close> whose range ends at or above \<open>off\<close>.\<close>

fun scan_from :: "nat \<Rightarrow> range list \<Rightarrow> nat \<Rightarrow> nat" where
  "scan_from off [] i = i"
| "scan_from off (r # rs) i = (if rg_end r < off then scan_from off rs (Suc i) else i)"

text \<open>Swallow every following range that starts at or below the merged end.\<close>

fun absorb_from :: "range \<Rightarrow> range list \<Rightarrow> nat \<Rightarrow> range \<times> nat" where
  "absorb_from m [] j = (m, j)"
| "absorb_from m (r # rs) j =
     (if rg_offset r \<le> rg_end m
      then absorb_from (m\<lparr>rg_end := max (rg_end m) (rg_end r)\<rparr>) rs (Suc j)
      else (m, j))"

definition insertMerge ::
  "bool \<Rightarrow> range list \<Rightarrow> range \<Rightarrow> (alloc_error + unit) \<times> range list" where
  "insertMerge grow l new =
     (if rg_offset new \<ge> rg_end new then (Inr (), l)
      else let i = scan_from (rg_offset new) l 0 in
        if i = length l \<or> rg_offset (l ! i) > rg_end new
        then (if grow then (Inr (), list_insert_at i new l) else (Inl OutOfMemory, l))
        else
          let merged = mk_range (min (rg_offset (l ! i)) (rg_offset new))
                                (max (rg_end (l ! i)) (rg_end new));
              (m, j) = absorb_from merged (drop (Suc i) l) (Suc i)
          in (Inr (), take i l @ m # drop j l))"

function findPoint_loop :: "range list \<Rightarrow> nat \<Rightarrow> nat \<Rightarrow> nat \<Rightarrow> nat option" where
  "findPoint_loop l point lo hi =
     (if lo < hi then
        (let mid = lo + (hi - lo) div 2; r = l ! mid in
         if point < rg_offset r then findPoint_loop l point lo mid
         else if point \<ge> rg_end r then findPoint_loop l point (mid + 1) hi
         else Some mid)
      else None)"
  by pat_completeness auto
termination
  by (relation "measure (\<lambda>(l, p, lo, hi). hi - lo)") auto

declare findPoint_loop.simps [simp del]

definition findPoint :: "range list \<Rightarrow> nat \<Rightarrow> nat option" where
  "findPoint l point = findPoint_loop l point 0 (length l)"

definition containsPoint :: "range list \<Rightarrow> nat \<Rightarrow> bool" where
  "containsPoint l point \<longleftrightarrow> findPoint l point \<noteq> None"

definition removalSplits :: "range list \<Rightarrow> nat \<Rightarrow> bool" where
  "removalSplits l point =
     (case findPoint l point of
        None \<Rightarrow> False
      | Some i \<Rightarrow> point \<noteq> rg_offset (l ! i) \<and> point \<noteq> rg_end (l ! i) - 1)"

definition removePoint ::
  "bool \<Rightarrow> range list \<Rightarrow> nat \<Rightarrow> (alloc_error + bool) \<times> range list" where
  "removePoint grow l point =
     (case findPoint l point of
        None \<Rightarrow> (Inr False, l)
      | Some i \<Rightarrow>
          let r = l ! i in
          if range_len r = 1 then (Inr True, list_remove_at i l)
          else if point = rg_offset r then (Inr True, l[i := r\<lparr>rg_offset := point + 1\<rparr>])
          else if point = rg_end r - 1 then (Inr True, l[i := r\<lparr>rg_end := point\<rparr>])
          else if grow
            then (Inr True,
                  (list_insert_at (i + 1) (mk_range (point + 1) (rg_end r)) l)
                    [i := r\<lparr>rg_end := point\<rparr>])
            else (Inl OutOfMemory, l))"

function removeRange_loop ::
  "bool \<Rightarrow> range \<Rightarrow> range list \<Rightarrow> nat \<Rightarrow> (alloc_error + unit) \<times> range list" where
  "removeRange_loop grow rem l i =
     (if i < length l then
        (let r = l ! i in
         if rg_end r \<le> rg_offset rem then removeRange_loop grow rem l (i + 1)
         else if rg_offset r \<ge> rg_end rem then (Inr (), l)
         else if rg_offset r < rg_offset rem \<and> rg_end r > rg_end rem then
           (if grow
            then (Inr (), (list_insert_at (i + 1) (mk_range (rg_end rem) (rg_end r)) l)
                            [i := r\<lparr>rg_end := rg_offset rem\<rparr>])
            else (Inl OutOfMemory, l))
         else if rg_offset r \<ge> rg_offset rem \<and> rg_end r \<le> rg_end rem then
           removeRange_loop grow rem (list_remove_at i l) i
         else if rg_offset r < rg_offset rem then
           removeRange_loop grow rem (l[i := r\<lparr>rg_end := rg_offset rem\<rparr>]) (i + 1)
         else
           removeRange_loop grow rem (l[i := r\<lparr>rg_offset := rg_end rem\<rparr>]) (i + 1))
      else (Inr (), l))"
  by pat_completeness auto
termination
  by (relation "measure (\<lambda>(g, rem, l, i). length l - i)") auto

declare removeRange_loop.simps [simp del]

definition removeRange ::
  "bool \<Rightarrow> range list \<Rightarrow> range \<Rightarrow> (alloc_error + unit) \<times> range list" where
  "removeRange grow l rem =
     (if rg_offset rem \<ge> rg_end rem then (Inr (), l) else removeRange_loop grow rem l 0)"

subsection \<open>The invariant, the abstraction and the reference insertion\<close>

definition rl_inv :: "range list \<Rightarrow> bool" where
  "rl_inv l \<longleftrightarrow> sorted_wrt (\<lambda>a b. rg_end a < rg_offset b) l \<and> (\<forall>r\<in>set l. rg_offset r < rg_end r)"

definition range_set :: "range \<Rightarrow> nat set" where
  "range_set r = {rg_offset r..<rg_end r}"

definition rl_set :: "range list \<Rightarrow> nat set" where
  "rl_set l = (\<Union>r\<in>set l. range_set r)"

lemma rl_inv_Nil [simp]: "rl_inv []"
  by (simp add: rl_inv_def)

lemma rl_inv_Cons [simp]:
  "rl_inv (r # rs) \<longleftrightarrow>
     rg_offset r < rg_end r \<and> (\<forall>s\<in>set rs. rg_end r < rg_offset s) \<and> rl_inv rs"
  by (auto simp: rl_inv_def)

lemma rl_inv_append:
  "rl_inv (xs @ ys) \<longleftrightarrow>
     rl_inv xs \<and> rl_inv ys \<and> (\<forall>a\<in>set xs. \<forall>b\<in>set ys. rg_end a < rg_offset b)"
  by (auto simp: rl_inv_def sorted_wrt_append)

lemma rl_set_Nil [simp]: "rl_set [] = {}"
  by (simp add: rl_set_def)

lemma rl_set_Cons [simp]: "rl_set (r # rs) = range_set r \<union> rl_set rs"
  by (simp add: rl_set_def)

lemma rl_set_append [simp]: "rl_set (xs @ ys) = rl_set xs \<union> rl_set ys"
  by (simp add: rl_set_def)

lemma in_range_set [simp]: "p \<in> range_set r \<longleftrightarrow> rg_offset r \<le> p \<and> p < rg_end r"
  by (auto simp: range_set_def)

lemma in_rl_set: "p \<in> rl_set l \<longleftrightarrow> (\<exists>r\<in>set l. rg_offset r \<le> p \<and> p < rg_end r)"
  by (auto simp: rl_set_def)

text \<open>A structural reference.\<close>

fun swallow :: "range \<Rightarrow> range list \<Rightarrow> range list" where
  "swallow m [] = [m]"
| "swallow m (r # rs) =
     (if rg_offset r \<le> rg_end m
      then swallow (m\<lparr>rg_end := max (rg_end m) (rg_end r)\<rparr>) rs else m # r # rs)"

fun insert_ref :: "range \<Rightarrow> range list \<Rightarrow> range list" where
  "insert_ref new [] = [new]"
| "insert_ref new (r # rs) =
     (if rg_end r < rg_offset new then r # insert_ref new rs
      else if rg_offset r > rg_end new then new # r # rs
      else swallow (mk_range (min (rg_offset r) (rg_offset new))
                             (max (rg_end r) (rg_end new))) rs)"

lemma scan_from_shift: "scan_from off l i = i + scan_from off l 0"
proof (induction l arbitrary: i)
  case Nil
  then show ?case by simp
next
  case (Cons r rs)
  from Cons.IH [of "Suc i"] Cons.IH [of "Suc 0"] show ?case by simp
qed

lemma absorb_from_swallow:
  "absorb_from m rs j = (m', j') \<Longrightarrow> j \<le> j' \<and> swallow m rs = m' # drop (j' - j) rs"
proof (induction m rs j arbitrary: m' j' rule: absorb_from.induct)
  case (1 m j)
  then show ?case by simp
next
  case (2 m r rs j)
  show ?case
  proof (cases "rg_offset r \<le> rg_end m")
    case True
    with 2 have "Suc j \<le> j' \<and>
        swallow (m\<lparr>rg_end := max (rg_end m) (rg_end r)\<rparr>) rs = m' # drop (j' - Suc j) rs"
      by simp
    with True show ?thesis by (simp add: Suc_le_eq Suc_diff_Suc [symmetric])
  next
    case False
    with 2 show ?thesis by simp
  qed
qed

lemma scan_from_prefix:
  "let i = scan_from off l 0 in i \<le> length l \<and> (\<forall>r\<in>set (take i l). rg_end r < off)
     \<and> (i < length l \<longrightarrow> \<not> rg_end (l ! i) < off)"
proof (induction l)
  case Nil
  then show ?case by simp
next
  case (Cons r rs)
  then show ?case by (auto simp: Let_def scan_from_shift [of off rs "Suc 0"])
qed

lemma insert_ref_prefix:
  "\<forall>r\<in>set xs. rg_end r < rg_offset new \<Longrightarrow> insert_ref new (xs @ ys) = xs @ insert_ref new ys"
  by (induction xs) auto

lemma insertMerge_eq_ref:
  assumes ne: "rg_offset new < rg_end new" and ok: "insertMerge grow l new = (Inr u, l')"
  shows "l' = insert_ref new l"
proof -
  define i where "i = scan_from (rg_offset new) l 0"
  have i: "i \<le> length l" "\<forall>r\<in>set (take i l). rg_end r < rg_offset new"
    and stop: "i < length l \<Longrightarrow> \<not> rg_end (l ! i) < rg_offset new"
    using scan_from_prefix [of "rg_offset new" l] by (auto simp: i_def Let_def)
  have ref: "insert_ref new l = take i l @ insert_ref new (drop i l)"
    using insert_ref_prefix [OF i(2), of "drop i l"] by simp
  show ?thesis
  proof (cases "i < length l")
    case False
    with i ok ne ref show ?thesis
      by (auto simp: insertMerge_def i_def [symmetric] list_insert_at_def split: if_splits)
  next
    case True
    then have d: "drop i l = l ! i # drop (Suc i) l" by (rule Cons_nth_drop_Suc [symmetric])
    obtain m j where aj: "absorb_from (mk_range (min (rg_offset (l ! i)) (rg_offset new))
        (max (rg_end (l ! i)) (rg_end new))) (drop (Suc i) l) (Suc i) = (m, j)" by fastforce
    from absorb_from_swallow [OF aj] have sw: "Suc i \<le> j"
      "swallow (mk_range (min (rg_offset (l ! i)) (rg_offset new))
        (max (rg_end (l ! i)) (rg_end new))) (drop (Suc i) l) = m # drop j l"
      by auto
    from True stop ok ne ref d sw aj show ?thesis
      by (auto simp: insertMerge_def i_def [symmetric] list_insert_at_def Let_def split: if_splits)
  qed
qed

lemma insertMerge_cases:
  "insertMerge grow l new = (Inl e, l') \<Longrightarrow> \<not> grow \<and> l' = l"
  by (auto simp: insertMerge_def Let_def split: if_splits prod.splits)

lemma swallow_inv_set:
  "rg_offset m < rg_end m \<Longrightarrow> rl_inv rs \<Longrightarrow> \<forall>s\<in>set rs. rg_offset m \<le> rg_offset s \<Longrightarrow>
   rl_inv (swallow m rs) \<and> rl_set (swallow m rs) = range_set m \<union> rl_set rs \<and>
   (\<forall>s\<in>set (swallow m rs). rg_offset m \<le> rg_offset s)"
proof (induction m rs rule: swallow.induct)
  case (1 m)
  then show ?case by simp
next
  case (2 m r rs)
  show ?case
  proof (cases "rg_offset r \<le> rg_end m")
    case True
    let ?m = "m\<lparr>rg_end := max (rg_end m) (rg_end r)\<rparr>"
    have "rl_inv (swallow ?m rs) \<and> rl_set (swallow ?m rs) = range_set ?m \<union> rl_set rs \<and>
       (\<forall>s\<in>set (swallow ?m rs). rg_offset ?m \<le> rg_offset s)"
      using True 2 by (intro "2.IH") auto
    moreover have "range_set ?m = range_set m \<union> range_set r"
      using True "2.prems" by (auto simp: range_set_def)
    ultimately show ?thesis using True by auto
  next
    case False
    with 2 show ?thesis by (auto intro: less_trans)
  qed
qed

lemma insert_ref_inv_set:
  "rg_offset new < rg_end new \<Longrightarrow> rl_inv l \<Longrightarrow>
   rl_inv (insert_ref new l) \<and> rl_set (insert_ref new l) = range_set new \<union> rl_set l \<and>
   (\<forall>s\<in>set (insert_ref new l). \<exists>r\<in>set (new # l). rg_offset r \<le> rg_offset s)"
proof (induction new l rule: insert_ref.induct)
  case (1 new)
  then show ?case by simp
next
  case (2 new r rs)
  show ?case
  proof (cases "rg_end r < rg_offset new")
    case True
    with 2 show ?thesis by fastforce
  next
    case F1: False
    show ?thesis
    proof (cases "rg_offset r > rg_end new")
      case True
      with F1 2 show ?thesis by (auto intro: less_trans)
    next
      case F2: False
      let ?m = "mk_range (min (rg_offset r) (rg_offset new)) (max (rg_end r) (rg_end new))"
      have "rl_inv (swallow ?m rs) \<and> rl_set (swallow ?m rs) = range_set ?m \<union> rl_set rs \<and>
       (\<forall>s\<in>set (swallow ?m rs). rg_offset ?m \<le> rg_offset s)"
        using F1 F2 "2.prems" by (intro swallow_inv_set) force+
      moreover have "range_set ?m = range_set new \<union> range_set r"
        using F1 F2 by (auto simp: range_set_def)
      ultimately show ?thesis using F1 F2 by (auto simp: min_le_iff_disj split: if_splits)
    qed
  qed
qed

lemma rl_tail_above: "rl_inv (r # rs) \<Longrightarrow> p \<in> rl_set rs \<Longrightarrow> rg_end r < p"
  by (auto simp: in_rl_set dest: less_le_trans)

lemma rl_inv_first:
  assumes "rl_inv (r # rs)"
  shows "rg_offset r \<in> rl_set (r # rs)" "\<And>p. p \<in> rl_set (r # rs) \<Longrightarrow> rg_offset r \<le> p"
    "rg_end r \<notin> rl_set (r # rs)"
  using assms rl_tail_above [OF assms] by force+

lemma rl_set_tail:
  assumes "rl_inv (r # rs)"
  shows "rl_set rs = {p \<in> rl_set (r # rs). rg_end r \<le> p}"
  using assms rl_tail_above [OF assms] by force

lemma rl_first_unique:
  assumes "rl_inv (r # rs)" "rl_inv (s # ss)" "rl_set (r # rs) = rl_set (s # ss)"
  shows "r = s"
proof -
  have off: "rg_offset r = rg_offset s"
    using rl_inv_first [OF assms(1)] rl_inv_first [OF assms(2)] assms(3) le_antisym by blast
  have le: "rg_end s \<le> rg_end r"
    if a: "rl_inv (r # rs)" and b: "rl_inv (s # ss)" and eq: "rl_set (r # rs) = rl_set (s # ss)"
      and off: "rg_offset r = rg_offset s" for r s :: range and rs ss
  proof (rule ccontr)
    assume "\<not> rg_end s \<le> rg_end r"
    with a off have "rg_end r \<in> range_set s" by simp
    then have "rg_end r \<in> rl_set (r # rs)" using eq by simp
    with rl_inv_first(3) [OF a] show False by simp
  qed
  from le [OF assms off] le [OF assms(2,1) assms(3) [symmetric] off [symmetric]] off
  have "rg_end r = rg_end s" by simp
  with off show ?thesis by (metis range_eq_mk)
qed

lemma rl_set_empty_iff: "rl_inv l \<Longrightarrow> rl_set l = {} \<longleftrightarrow> l = []"
  by (cases l) (auto dest: rl_inv_first(1))

lemma rl_canonical:
  "rl_inv l1 \<Longrightarrow> rl_inv l2 \<Longrightarrow> rl_set l1 = rl_set l2 \<Longrightarrow> l1 = l2"
proof (induction l1 arbitrary: l2)
  case Nil
  then show ?case using rl_set_empty_iff [of l2] by simp
next
  case (Cons r rs)
  from Cons.prems have "l2 \<noteq> []" using rl_set_empty_iff [OF Cons.prems(1)] by auto
  then obtain s ss where l2: "l2 = s # ss" by (cases l2) auto
  have rs: "r = s" using Cons.prems l2 by (auto intro: rl_first_unique)
  have "rl_set rs = rl_set ss"
    using rl_set_tail [OF Cons.prems(1)] rl_set_tail [of s ss] Cons.prems l2 rs
    by (simp del: rl_set_Cons)
  then have "rs = ss" using Cons.IH [of ss] Cons.prems l2 by simp
  with rs l2 show ?case by simp
qed

subsection \<open>Binary search\<close>

lemma rl_inv_nth:
  "rl_inv l \<Longrightarrow> i < j \<Longrightarrow> j < length l \<Longrightarrow> rg_end (l ! i) < rg_offset (l ! j)"
  by (simp add: rl_inv_def sorted_wrt_iff_nth_less)

lemma rl_inv_nth_ne: "rl_inv l \<Longrightarrow> i < length l \<Longrightarrow> rg_offset (l ! i) < rg_end (l ! i)"
  by (simp add: rl_inv_def)

lemma findPoint_loop_correct:
  "rl_inv l \<Longrightarrow> hi \<le> length l \<Longrightarrow>
   (\<forall>i < lo. rg_end (l ! i) \<le> p) \<Longrightarrow> (\<forall>i. hi \<le> i \<and> i < length l \<longrightarrow> p < rg_offset (l ! i)) \<Longrightarrow>
   (case findPoint_loop l p lo hi of
      Some i \<Rightarrow> i < length l \<and> p \<in> range_set (l ! i)
    | None \<Rightarrow> p \<notin> rl_set l)"
proof (induction l p lo hi rule: findPoint_loop.induct)
  case (1 l p lo hi)
  show ?case
  proof (cases "lo < hi")
    case False
    have "\<not> (rg_offset (l ! i) \<le> p \<and> p < rg_end (l ! i))" if "i < length l" for i
      using False "1.prems"(3,4) [rule_format, of i] that by linarith
    then have "p \<notin> rl_set l" by (auto simp: in_rl_set in_set_conv_nth)
    with False show ?thesis by (simp add: findPoint_loop.simps [of l p lo hi])
  next
    case True
    define mid where "mid = lo + (hi - lo) div 2"
    have mid: "lo \<le> mid" "mid < hi" "mid < length l" using True "1.prems" by (auto simp: mid_def)
    note unfold = findPoint_loop.simps [of l p lo hi] mid_def [symmetric] Let_def
    consider (below) "p < rg_offset (l ! mid)" | (above) "rg_end (l ! mid) \<le> p"
      | (hit) "rg_offset (l ! mid) \<le> p" "p < rg_end (l ! mid)" by linarith
    then show ?thesis
    proof cases
      case below
      have "\<forall>i. mid \<le> i \<and> i < length l \<longrightarrow> p < rg_offset (l ! i)"
        using below rl_inv_nth [OF "1.prems"(1), of mid] rl_inv_nth_ne [OF "1.prems"(1) mid(3)]
        by (metis less_trans nat_less_le)
      with True below mid "1.prems" "1.IH"(1) [OF True mid_def refl below]
      show ?thesis by (simp add: unfold)
    next
      case above
      have "\<forall>i < mid + 1. rg_end (l ! i) \<le> p"
      proof (intro allI impI)
        fix i assume "i < mid + 1"
        then consider "i = mid" | "i < mid" by linarith
        then show "rg_end (l ! i) \<le> p"
        proof cases
          case 2
          then show ?thesis
            using above rl_inv_nth [OF "1.prems"(1) 2 mid(3)] rl_inv_nth_ne [OF "1.prems"(1) mid(3)]
            by linarith
        qed (use above in simp)
      qed
      moreover have "\<not> p < rg_offset (l ! mid)"
        using above rl_inv_nth_ne [OF "1.prems"(1) mid(3)] by linarith
      ultimately show ?thesis
        using True above mid "1.prems" "1.IH"(2) [OF True mid_def refl] by (simp add: unfold)
    next
      case hit
      with True mid show ?thesis by (simp add: unfold)
    qed
  qed
qed

lemma findPoint_Some:
  "rl_inv l \<Longrightarrow> findPoint l p = Some i \<Longrightarrow>
     i < length l \<and> rg_offset (l ! i) \<le> p \<and> p < rg_end (l ! i)"
  using findPoint_loop_correct [of l "length l" 0 p] by (simp add: findPoint_def)

lemma findPoint_None: "rl_inv l \<Longrightarrow> findPoint l p = None \<Longrightarrow> p \<notin> rl_set l"
  using findPoint_loop_correct [of l "length l" 0 p] by (simp add: findPoint_def)

lemma containsPoint_iff: "rl_inv l \<Longrightarrow> containsPoint l p \<longleftrightarrow> p \<in> rl_set l"
  using findPoint_None [of l p] findPoint_Some [of l p]
  by (cases "findPoint l p") (auto simp: containsPoint_def in_rl_set)

subsection \<open>Removal\<close>

lemma rl_split:
  assumes "rl_inv l" "i < length l"
  obtains xs ys where "l = xs @ l ! i # ys" "length xs = i"
    "rl_inv (xs @ l ! i # ys)"
  using assms id_take_nth_drop [OF assms(2)] by (metis length_take min.absorb4)

lemma removePoint_correct:
  assumes inv: "rl_inv l" and ok: "removePoint grow l p = (Inr b, l')"
  shows "rl_inv l' \<and> rl_set l' = rl_set l - {p} \<and> (b \<longleftrightarrow> p \<in> rl_set l)"
proof (cases "findPoint l p")
  case None
  with ok have "l' = l" "\<not> b" by (auto simp: removePoint_def)
  with inv findPoint_None [OF inv None] show ?thesis by auto
next
  case (Some i)
  from findPoint_Some [OF inv Some] have i: "i < length l"
    and lo: "rg_offset (l ! i) \<le> p" and hi: "p < rg_end (l ! i)" by auto
  obtain xs ys where l: "l = xs @ l ! i # ys" and xs: "length xs = i"
    and inv': "rl_inv (xs @ l ! i # ys)" using rl_split [OF inv i] .
  define r where "r = l ! i"
  have lr: "l = xs @ r # ys" using l r_def by simp
  have inv_r: "rl_inv (xs @ r # ys)" using inv' r_def by simp
  have rp: "rg_offset r \<le> p" "p < rg_end r" using lo hi r_def by auto
  have nin: "p \<notin> rl_set xs" "p \<notin> rl_set ys"
    using inv_r rp by (fastforce simp: rl_inv_append in_rl_set)+
  have mem: "p \<in> rl_set l" using lr rp by simp
  have b: "b" using ok Some by (auto simp: removePoint_def Let_def split: if_splits)
  have upd: "(xs @ r # ys)[i := s] = xs @ s # ys" for s using xs by (simp add: list_update_append)
  have ins: "(list_insert_at (i + 1) t (xs @ r # ys))[i := s] = xs @ s # t # ys" for s t
    using xs list_insert_at_append [of "xs @ [r]" t ys] by (simp add: list_update_append)
  have del: "list_remove_at i (xs @ r # ys) = xs @ ys" using xs list_remove_at_append [of xs r ys] by simp
  have nth: "(xs @ r # ys) ! i = r" using xs [symmetric] by simp
  have ok': "removePoint grow (xs @ r # ys) p = (Inr b, l')" "findPoint (xs @ r # ys) p = Some i"
    using ok Some lr by auto
  consider (one) "range_len r = 1" "l' = xs @ ys"
    | (low) "range_len r \<noteq> 1" "p = rg_offset r" "l' = xs @ r\<lparr>rg_offset := p + 1\<rparr> # ys"
    | (high) "range_len r \<noteq> 1" "p \<noteq> rg_offset r" "p = rg_end r - 1" "l' = xs @ r\<lparr>rg_end := p\<rparr> # ys"
    | (mid) "range_len r \<noteq> 1" "p \<noteq> rg_offset r" "p \<noteq> rg_end r - 1"
        "l' = xs @ r\<lparr>rg_end := p\<rparr> # mk_range (p + 1) (rg_end r) # ys"
    using ok' unfolding removePoint_def Let_def
    by (auto simp: upd ins [simplified] del nth split: if_splits)
  then show ?thesis
  proof cases
    case one
    then have "range_set r = {p}" using rp by (auto simp: range_set_def range_len_def)
    with one inv_r nin lr mem b show ?thesis by (auto simp: rl_inv_append)
  next
    case low
    have "range_set (r\<lparr>rg_offset := p + 1\<rparr>) = range_set r - {p}" using low rp by (auto simp: range_set_def)
    with low inv_r nin lr mem b rp show ?thesis
      by (auto simp: rl_inv_append range_len_def)
  next
    case high
    have "range_set (r\<lparr>rg_end := p\<rparr>) = range_set r - {p}" using high rp by (auto simp: range_set_def)
    with high inv_r nin lr mem b rp show ?thesis
      by (auto simp: rl_inv_append range_len_def intro: less_trans)
  next
    case mid
    have "range_set (r\<lparr>rg_end := p\<rparr>) \<union> range_set (mk_range (p + 1) (rg_end r)) = range_set r - {p}"
      using mid rp by (auto simp: range_set_def)
    moreover have "rl_inv l'"
      using mid inv_r rp by (auto simp: rl_inv_append intro: less_trans)
    ultimately show ?thesis using mid nin lr mem b by (auto simp del: in_range_set)
  qed
qed

lemma removePoint_fail:
  "removePoint grow l p = (Inl e, l') \<Longrightarrow> \<not> grow \<and> l' = l"
  by (auto simp: removePoint_def Let_def split: option.splits if_splits)

lemma list_update_insert_after:
  "(list_insert_at (Suc (length xs)) t (xs @ r # rs))[length xs := s] = xs @ s # t # rs"
  using list_insert_at_append [of "xs @ [r]" t rs] by (simp add: list_update_append)

lemma removeRange_loop_Nil: "removeRange_loop grow rem xs (length xs) = (Inr (), xs)"
  by (simp add: removeRange_loop.simps)

lemma removeRange_loop_Cons:
  "removeRange_loop grow rem (xs @ r # rs) (length xs) =
     (if rg_end r \<le> rg_offset rem then removeRange_loop grow rem ((xs @ [r]) @ rs) (length (xs @ [r]))
      else if rg_offset r \<ge> rg_end rem then (Inr (), xs @ r # rs)
      else if rg_offset r < rg_offset rem \<and> rg_end r > rg_end rem then
        (if grow then (Inr (), xs @ r\<lparr>rg_end := rg_offset rem\<rparr> # mk_range (rg_end rem) (rg_end r) # rs)
         else (Inl OutOfMemory, xs @ r # rs))
      else if rg_offset r \<ge> rg_offset rem \<and> rg_end r \<le> rg_end rem then
        removeRange_loop grow rem (xs @ rs) (length xs)
      else if rg_offset r < rg_offset rem then
        removeRange_loop grow rem ((xs @ [r\<lparr>rg_end := rg_offset rem\<rparr>]) @ rs)
          (length (xs @ [r\<lparr>rg_end := rg_offset rem\<rparr>]))
      else removeRange_loop grow rem ((xs @ [r\<lparr>rg_offset := rg_end rem\<rparr>]) @ rs)
          (length (xs @ [r\<lparr>rg_offset := rg_end rem\<rparr>])))"
  by (subst removeRange_loop.simps)
     (simp add: Let_def list_update_append list_update_insert_after)

text \<open>Everything before the cursor is already disjoint from the removed range.\<close>

lemma removeRange_loop_correct:
  "rl_inv (xs @ ys) \<Longrightarrow> rg_offset rem < rg_end rem \<Longrightarrow> rl_set xs \<inter> range_set rem = {} \<Longrightarrow>
   removeRange_loop grow rem (xs @ ys) (length xs) = (Inr u, l') \<Longrightarrow>
   rl_inv l' \<and> rl_set l' = (rl_set xs \<union> rl_set ys) - range_set rem"
proof (induction ys arbitrary: xs)
  case Nil
  then show ?case by (auto simp: removeRange_loop_Nil)
next
  case (Cons r rs)
  have above: "p \<in> rl_set rs \<Longrightarrow> rg_end r < p" for p
    using Cons.prems(1) rl_tail_above [of r rs p] by (simp add: rl_inv_append)
  note step = Cons.prems(4) [unfolded removeRange_loop_Cons]
  consider (skip) "rg_end r \<le> rg_offset rem"
    | (stop) "\<not> rg_end r \<le> rg_offset rem" "rg_end rem \<le> rg_offset r"
    | (split) "rg_offset r < rg_offset rem" "rg_end rem < rg_end r"
    | (whole) "\<not> rg_end r \<le> rg_offset rem" "\<not> rg_end rem \<le> rg_offset r"
        "rg_offset rem \<le> rg_offset r" "rg_end r \<le> rg_end rem"
    | (low) "\<not> rg_end r \<le> rg_offset rem" "rg_offset r < rg_offset rem" "rg_end r \<le> rg_end rem"
    | (high) "\<not> rg_end rem \<le> rg_offset r" "rg_offset rem \<le> rg_offset r" "rg_end rem < rg_end r"
    by linarith
  then show ?case
  proof cases
    case skip
    then have "rl_set (xs @ [r]) \<inter> range_set rem = {}" using Cons.prems(3) by (auto simp: range_set_def)
    with skip Cons.IH [of "xs @ [r]"] Cons.prems step show ?thesis by auto
  next
    case stop
    have "rg_offset r < rg_end r" using Cons.prems(1) by (simp add: rl_inv_append)
    with stop above have "p \<notin> range_set rem" if "p \<in> rl_set (r # rs)" for p
      using that by (fastforce dest: above)
    then have "(rl_set xs \<union> rl_set (r # rs)) \<inter> range_set rem = {}"
      using Cons.prems(3) by blast
    moreover have "l' = xs @ r # rs" using stop step by simp
    ultimately show ?thesis using Cons.prems(1) by auto
  next
    case split
    then have l': "l' = xs @ r\<lparr>rg_end := rg_offset rem\<rparr> # mk_range (rg_end rem) (rg_end r) # rs"
      using step Cons.prems(2) by (simp split: if_splits)
    have "rl_inv l'" using split Cons.prems(1,2) l' by (auto simp: rl_inv_append intro: less_trans)
    moreover have "rl_set rs \<inter> range_set rem = {}" using split above by (fastforce simp: range_set_def)
    moreover have "range_set (r\<lparr>rg_end := rg_offset rem\<rparr>) \<union> range_set (mk_range (rg_end rem) (rg_end r))
        = range_set r - range_set rem" using split Cons.prems(2) by (auto simp: range_set_def)
    ultimately show ?thesis using l' Cons.prems(3) by (auto simp del: in_range_set)
  next
    case whole
    have "range_set r \<subseteq> range_set rem" using whole by (auto simp: range_set_def)
    with whole Cons.IH [of xs] Cons.prems step show ?thesis
      by (auto simp: rl_inv_append simp del: in_range_set)
  next
    case low
    let ?r = "r\<lparr>rg_end := rg_offset rem\<rparr>"
    have "range_set ?r = range_set r - range_set rem" using low by (auto simp: range_set_def)
    moreover have "rl_inv ((xs @ [?r]) @ rs)"
      using low Cons.prems(1) by (auto simp: rl_inv_append intro: less_trans)
    ultimately show ?thesis using low Cons.IH [of "xs @ [?r]"] Cons.prems step
      by (auto simp del: in_range_set append_assoc length_append)
  next
    case high
    let ?r = "r\<lparr>rg_offset := rg_end rem\<rparr>"
    have "range_set ?r = range_set r - range_set rem" using high by (auto simp: range_set_def)
    moreover have "rl_inv ((xs @ [?r]) @ rs)"
      using high Cons.prems(1) by (auto simp: rl_inv_append intro: less_trans)
    ultimately show ?thesis using high Cons.IH [of "xs @ [?r]"] Cons.prems(2-3) step
      by (auto simp del: in_range_set append_assoc length_append)
  qed
qed

lemma removeRange_correct:
  assumes "rl_inv l" "removeRange grow l rem = (Inr u, l')"
  shows "rl_inv l' \<and> rl_set l' = rl_set l - range_set rem"
proof (cases "rg_offset rem < rg_end rem")
  case True
  with removeRange_loop_correct [of "[]" l rem grow u l'] assms show ?thesis
    by (simp add: removeRange_def)
next
  case False
  with assms show ?thesis by (auto simp: removeRange_def range_set_def)
qed

text \<open>Once a range below the removed one has been passed, no later range can split.\<close>

lemma removeRange_loop_no_split:
  "\<forall>r\<in>set ys. rg_offset rem \<le> rg_offset r \<Longrightarrow> fst (removeRange_loop grow rem (xs @ ys) (length xs)) = Inr ()"
proof (induction ys arbitrary: xs)
  case Nil
  then show ?case by (simp add: removeRange_loop_Nil)
next
  case (Cons r rs)
  then show ?case
    using Cons.IH [of xs] Cons.IH [of "xs @ [r]"] Cons.IH [of "xs @ [r\<lparr>rg_offset := rg_end rem\<rparr>]"]
    by (auto simp: removeRange_loop_Cons simp del: append_assoc length_append)
qed

lemma removeRange_loop_fail:
  "rl_inv (xs @ ys) \<Longrightarrow> removeRange_loop grow rem (xs @ ys) (length xs) = (Inl e, l') \<Longrightarrow>
   \<not> grow \<and> l' = xs @ ys"
proof (induction ys arbitrary: xs)
  case Nil
  then show ?case by (simp add: removeRange_loop_Nil)
next
  case (Cons r rs)
  have later: "\<forall>s\<in>set rs. rg_offset rem \<le> rg_offset s" if "\<not> rg_end r \<le> rg_offset rem"
    using that Cons.prems(1) by (fastforce simp: rl_inv_append)
  show ?case
  proof (cases "rg_end r \<le> rg_offset rem")
    case True
    with Cons.IH [of "xs @ [r]"] Cons.prems show ?thesis by (simp add: removeRange_loop_Cons)
  next
    case False
    have "fst (removeRange_loop grow rem (zs @ rs) (length zs)) = Inr ()" for zs
      by (rule removeRange_loop_no_split [OF later [OF False]])
    then have no: "removeRange_loop grow rem (zs @ rs) (length zs) \<noteq> (Inl e, l')" for zs
      by (metis Inl_Inr_False fst_conv)
    show ?thesis
      using False Cons.prems(2) no [of xs] no [of "xs @ [r\<lparr>rg_end := rg_offset rem\<rparr>]"]
        no [of "xs @ [r\<lparr>rg_offset := rg_end rem\<rparr>]"]
      by (simp add: removeRange_loop_Cons del: append_assoc length_append split: if_splits)
  qed
qed

lemma removeRange_fail:
  "rl_inv l \<Longrightarrow> removeRange grow l rem = (Inl e, l') \<Longrightarrow> \<not> grow \<and> l' = l"
  using removeRange_loop_fail [of "[]" l grow rem e l'] by (auto simp: removeRange_def split: if_splits)

subsection \<open>The interface the stream halves rely on\<close>

text \<open>
  What a range store promises: an insertion or removal that returns normally keeps the shape
  and changes the covered set exactly; one that fails leaves the store as it was; and the
  representation is canonical, so equal coverage means equal stores.
\<close>

locale range_store =
  fixes covered :: "'l \<Rightarrow> nat set"
    and wf :: "'l \<Rightarrow> bool"
    and empty :: "'l"
    and ins :: "bool \<Rightarrow> 'l \<Rightarrow> range \<Rightarrow> ('e + unit) \<times> 'l"
    and rem :: "bool \<Rightarrow> 'l \<Rightarrow> range \<Rightarrow> ('e + unit) \<times> 'l"
  assumes empty_wf: "wf empty" and empty_covered: "covered empty = {}"
    and ins_ok: "wf l \<Longrightarrow> ins g l r = (Inr u, l') \<Longrightarrow> wf l' \<and> covered l' = covered l \<union> range_set r"
    and ins_fail: "wf l \<Longrightarrow> ins g l r = (Inl e, l') \<Longrightarrow> \<not> g \<and> l' = l"
    and rem_ok: "wf l \<Longrightarrow> rem g l r = (Inr u, l') \<Longrightarrow> wf l' \<and> covered l' = covered l - range_set r"
    and rem_fail: "wf l \<Longrightarrow> rem g l r = (Inl e, l') \<Longrightarrow> \<not> g \<and> l' = l"
    and canonical: "wf l \<Longrightarrow> wf l' \<Longrightarrow> covered l = covered l' \<Longrightarrow> l = l'"
begin

lemma ins_wf: "wf l \<Longrightarrow> wf (snd (ins g l r))"
  using ins_ok [of l g r] ins_fail [of l g r] by (cases "ins g l r"; cases "fst (ins g l r)") auto

lemma rem_wf: "wf l \<Longrightarrow> wf (snd (rem g l r))"
  using rem_ok [of l g r] rem_fail [of l g r] by (cases "rem g l r"; cases "fst (rem g l r)") auto

lemma ins_grow: "wf l \<Longrightarrow> fst (ins True l r) = Inr ()"
  using ins_fail [of l True r] by (cases "ins True l r"; cases "fst (ins True l r)") auto

lemma rem_grow: "wf l \<Longrightarrow> fst (rem True l r) = Inr ()"
  using rem_fail [of l True r] by (cases "rem True l r"; cases "fst (rem True l r)") auto

lemma ins_covered: "wf l \<Longrightarrow> covered (snd (ins True l r)) = covered l \<union> range_set r"
  using ins_grow [of l r] ins_ok [of l True r] by (cases "ins True l r") auto

lemma rem_covered: "wf l \<Longrightarrow> covered (snd (rem True l r)) = covered l - range_set r"
  using rem_grow [of l r] rem_ok [of l True r] by (cases "rem True l r") auto

text \<open>Inserting a batch: the coverage is the union, and the order does not matter.\<close>

lemma fold_ins:
  "wf l \<Longrightarrow> wf (foldl (\<lambda>l r. snd (ins True l r)) l rs) \<and>
     covered (foldl (\<lambda>l r. snd (ins True l r)) l rs) = covered l \<union> (\<Union>r\<in>set rs. range_set r)"
proof (induction rs arbitrary: l)
  case Nil
  then show ?case by simp
next
  case (Cons r rs)
  from Cons.prems have "wf (snd (ins True l r))" by (rule ins_wf)
  from Cons.IH [OF this] ins_covered [OF Cons.prems, of r] show ?case by auto
qed

lemma ins_order_irrelevant:
  assumes "wf l" "(\<Union>r\<in>set rs. range_set r) = (\<Union>r\<in>set rs'. range_set r)"
  shows "foldl (\<lambda>l r. snd (ins True l r)) l rs = foldl (\<lambda>l r. snd (ins True l r)) l rs'"
  using assms fold_ins [of l rs] fold_ins [of l rs'] by (auto intro: canonical)

lemma ins_absorbs: "wf l \<Longrightarrow> range_set r \<subseteq> covered l \<Longrightarrow> snd (ins True l r) = l"
  using ins_wf [of l True r] ins_covered [of l r] by (auto intro: canonical)

lemma rem_then_ins:
  "wf l \<Longrightarrow> range_set r \<subseteq> covered l \<Longrightarrow> snd (ins True (snd (rem True l r)) r) = l"
  using ins_wf [OF rem_wf, of l True True r r] ins_covered [OF rem_wf, of l True r r]
    rem_covered [of l r] by (auto intro: canonical)

end

lemma insertMerge_ok:
  assumes "rl_inv l" "insertMerge grow l r = (Inr u, l')"
  shows "rl_inv l' \<and> rl_set l' = rl_set l \<union> range_set r"
proof (cases "rg_offset r < rg_end r")
  case True
  with insertMerge_eq_ref [OF True assms(2)] insert_ref_inv_set [OF True assms(1)]
  show ?thesis by auto
next
  case False
  with assms show ?thesis by (auto simp: insertMerge_def range_set_def)
qed

interpretation rl: range_store rl_set rl_inv "[]" insertMerge removeRange
proof (unfold_locales, goal_cases)
  case 3 then show ?case by (rule insertMerge_ok)
next
  case 4 then show ?case by (auto dest: insertMerge_cases)
next
  case 5 then show ?case by (rule removeRange_correct)
next
  case 6 then show ?case by (rule removeRange_fail)
next
  case 7 then show ?case by (rule rl_canonical)
qed simp_all

subsection \<open>Properties\<close>

lemma rl_inv_length_insert: "length (insert_ref r l) \<le> Suc (length l)"
proof -
  have s: "length (swallow m rs) \<le> Suc (length rs)" for m rs
    by (induction m rs rule: swallow.induct) (auto intro: le_SucI)
  show ?thesis
  proof (induction r l rule: insert_ref.induct)
    case (2 new r rs)
    then show ?case using s by (auto simp: Let_def intro: le_SucI)
  qed simp
qed

text \<open>C20: \<open>insertMerge\<close> refines set union.  On a sorted list of disjoint, non-adjacent ranges
  it keeps that shape and the list then covers exactly the old offsets and those of the new
  range; the list grows by at most one slot; and when the allocation fails the list is
  unchanged and the range was neither empty nor mergeable, so a merge can never fail.\<close>

theorem insertMerge_refines_union:
  assumes "rl_inv l" "insertMerge grow l new = (res, l')"
  shows "rl_inv l' \<and> length l' \<le> Suc (length l) \<and>
    (res = Inr () \<longrightarrow> rl_set l' = rl_set l \<union> range_set new) \<and>
    (res = Inl OutOfMemory \<longrightarrow> \<not> grow \<and> l' = l \<and> range_set new \<noteq> {} \<and>
       (\<forall>r\<in>set l. rg_end r < rg_offset new \<or> rg_end new < rg_offset r))"
proof (cases res)
  case (Inr u)
  with assms have ok: "insertMerge grow l new = (Inr u, l')" by simp
  have "length l' \<le> Suc (length l)"
  proof (cases "rg_offset new < rg_end new")
    case True
    from insertMerge_eq_ref [OF this ok] show ?thesis by (simp add: rl_inv_length_insert)
  next
    case False
    with ok show ?thesis by (simp add: insertMerge_def)
  qed
  with insertMerge_ok [OF assms(1) ok] Inr show ?thesis by simp
next
  case (Inl e)
  with assms have f: "insertMerge grow l new = (Inl e, l')" by simp
  define i where "i = scan_from (rg_offset new) l 0"
  from f have c: "rg_offset new < rg_end new" "i = length l \<or> rg_end new < rg_offset (l ! i)"
    by (auto simp: insertMerge_def Let_def i_def split: if_splits prod.splits)
  have p: "i \<le> length l" "\<forall>r\<in>set (take i l). rg_end r < rg_offset new"
    using scan_from_prefix [of "rg_offset new" l] by (auto simp: i_def Let_def)
  have "rg_end r < rg_offset new \<or> rg_end new < rg_offset r" if "r \<in> set l" for r
  proof (cases "i < length l")
    case False
    then show ?thesis using p that by simp
  next
    case True
    from that obtain j where j: "j < length l" "r = l ! j" by (auto simp: in_set_conv_nth)
    show ?thesis
    proof (cases "j < i")
      case True
      then have "r \<in> set (take i l)" using j by (auto simp: in_set_conv_nth)
      then show ?thesis using p(2) by blast
    next
      case False
      then have "j = i \<or> rg_offset (l ! i) \<le> rg_offset (l ! j)"
        using rl_inv_nth [OF assms(1), of i j] rl_inv_nth_ne [OF assms(1) True] j by fastforce
      then show ?thesis using c(2) True j by auto
    qed
  qed
  with insertMerge_cases [OF f] assms(1) Inl c(1) show ?thesis by (cases e) auto
qed

definition sample_ranges :: "range list" where
  "sample_ranges = [mk_range 0 4, mk_range 10 12, mk_range 20 30]"

theorem insertMerge_refines_union_witness:
  "rl_inv (snd (insertMerge True sample_ranges (mk_range 4 20))) \<and>
   rl_set (snd (insertMerge True sample_ranges (mk_range 4 20))) = rl_set sample_ranges \<union> {4..<20}"
proof -
  have e: "insertMerge True sample_ranges (mk_range 4 20) = (Inr (), [mk_range 0 30])"
    unfolding sample_ranges_def by code_simp
  have "rl_inv sample_ranges" "range_set (mk_range 4 20) = {4..<20}"
    by (auto simp: sample_ranges_def)
  with insertMerge_refines_union [OF _ e] show ?thesis by (simp add: e)
qed

text \<open>C21: Reassembly does not depend on arrival order.  Two batches of segments that cover the
  same offsets, in any order and cut in any way, overlapping or repeated, leave the same
  range list, and it covers what was there and what the batch brought.\<close>

theorem insertMerge_order_irrelevant:
  assumes "rl_inv l" "(\<Union>r\<in>set rs. range_set r) = (\<Union>r\<in>set rs'. range_set r)"
  shows "foldl (\<lambda>l r. snd (insertMerge True l r)) l rs = foldl (\<lambda>l r. snd (insertMerge True l r)) l rs' \<and>
    rl_set (foldl (\<lambda>l r. snd (insertMerge True l r)) l rs) = rl_set l \<union> (\<Union>r\<in>set rs'. range_set r)"
  using rl.ins_order_irrelevant [OF assms] rl.fold_ins [OF assms(1), of rs'] by simp

theorem insertMerge_order_irrelevant_witness:
  "foldl (\<lambda>l r. snd (insertMerge True l r)) sample_ranges [mk_range 12 16, mk_range 2 8] =
   foldl (\<lambda>l r. snd (insertMerge True l r)) sample_ranges [mk_range 4 8, mk_range 2 5, mk_range 12 16]"
  using insertMerge_order_irrelevant [of sample_ranges "[mk_range 12 16, mk_range 2 8]"
      "[mk_range 4 8, mk_range 2 5, mk_range 12 16]"]
  by (force simp: sample_ranges_def range_set_def)

text \<open>C22: Removal refines set difference and is atomic.  \<open>removeRange\<close> and \<open>removePoint\<close> take
  out exactly the requested offsets and keep the shape; \<open>removePoint\<close> reports whether the
  point was there; and a failed allocation, possible only when the storage cannot grow,
  leaves the list as it was, also in the middle of the loop.  For a point it happens
  exactly when \<open>removalSplits\<close> announces it.\<close>

theorem removal_refines_difference:
  assumes "rl_inv l" "removeRange grow l rem = (res, l1)" "removePoint grow l p = (res', l2)"
  shows "(case res of Inr _ \<Rightarrow> rl_inv l1 \<and> rl_set l1 = rl_set l - range_set rem | Inl _ \<Rightarrow> \<not> grow \<and> l1 = l) \<and>
    (case res' of Inr b \<Rightarrow> rl_inv l2 \<and> rl_set l2 = rl_set l - {p} \<and> (b \<longleftrightarrow> p \<in> rl_set l)
     | Inl _ \<Rightarrow> \<not> grow \<and> l2 = l) \<and>
    (res' = Inl OutOfMemory \<longleftrightarrow> \<not> grow \<and> removalSplits l p)"
proof -
  have "res' = Inl OutOfMemory \<longleftrightarrow> \<not> grow \<and> removalSplits l p"
  proof (cases "findPoint l p")
    case None
    then show ?thesis using assms(3) by (auto simp: removePoint_def removalSplits_def)
  next
    case (Some i)
    note f = findPoint_Some [OF assms(1) Some]
    then show ?thesis using assms(3) Some
      by (auto simp: removePoint_def removalSplits_def range_len_def Let_def split: if_splits)
  qed
  with removeRange_correct [OF assms(1), of grow rem] removeRange_fail [OF assms(1), of grow rem]
    removePoint_correct [OF assms(1), of grow p] removePoint_fail [of grow l p] assms(2,3)
  show ?thesis by (auto split: sum.split)
qed

theorem removal_refines_difference_witness:
  "removeRange True sample_ranges (mk_range 11 22) = (Inr (), [mk_range 0 4, mk_range 10 11, mk_range 22 30]) \<and>
   removePoint False sample_ranges 25 = (Inl OutOfMemory, sample_ranges) \<and>
   rl_set [mk_range 0 4, mk_range 10 11, mk_range 22 30] = rl_set sample_ranges - {11..<22} \<and>
   removalSplits sample_ranges 25"
proof -
  have r: "removeRange True sample_ranges (mk_range 11 22) = (Inr (), [mk_range 0 4, mk_range 10 11, mk_range 22 30])"
    and p: "removePoint True sample_ranges 0 = (Inr True, [mk_range 1 4, mk_range 10 12, mk_range 20 30])"
    and q: "removePoint False sample_ranges 25 = (Inl OutOfMemory, sample_ranges)"
    and s: "removeRange False sample_ranges (mk_range 0 0) = (Inr (), sample_ranges)"
    unfolding sample_ranges_def by code_simp+
  have i: "rl_inv sample_ranges" by (simp add: sample_ranges_def)
  have "range_set (mk_range 11 22) = {11..<22}" by auto
  with removal_refines_difference [OF i r p] removal_refines_difference [OF i s q] r q
  show ?thesis by simp
qed

end
