(* ===== verification/Ack_Tracker.thy ===== *)
theory Ack_Tracker
  imports Ack_Range Range_List
begin

text \<open>
  Model of \<open>src/src/conn/AckTracker.zig\<close>: the received packet numbers of one packet number
  space as a sorted list of disjoint inclusive ranges, the delayed-ACK scheduling state, and
  the ACK frame builders.  Packet numbers and clocks are naturals; the source's saturating
  operators are written out, and no plain addition or subtraction of the source wraps on the
  states the invariant allows.  The allocator is a parameter: \<open>mem\<close> says whether an
  allocation succeeds.
\<close>

record pn_range =
  pr_smallest :: nat
  pr_largest :: nat

definition max_ranges :: nat where "max_ranges = 255"
definition inline_ranges :: nat where "inline_ranges = 8"

record ack_tracker =
  at_ranges :: "pn_range list"           \<comment> \<open>\<open>slots()\<close>, lowest first\<close>
  at_heap :: bool                        \<comment> \<open>\<open>heap_slots != null\<close>\<close>
  at_allocator :: bool                   \<comment> \<open>\<open>allocator != null\<close>\<close>
  at_largest :: "nat option"
  at_largest_at_ms :: nat
  at_largest_at_us :: nat
  at_pending_ack :: bool
  at_delayed_ack_armed :: bool
  at_delayed_ack_start_ms :: nat
  at_delayed_ack_start_us :: nat
  at_ack_eliciting_since_ack :: nat
  at_last_ack_eliciting_us :: nat

definition at_init :: "bool \<Rightarrow> bool \<Rightarrow> ack_tracker" where
  "at_init alloc heap =
     \<lparr>at_ranges = [], at_heap = heap, at_allocator = alloc, at_largest = None,
      at_largest_at_ms = 0, at_largest_at_us = 0, at_pending_ack = False,
      at_delayed_ack_armed = False, at_delayed_ack_start_ms = 0, at_delayed_ack_start_us = 0,
      at_ack_eliciting_since_ack = 0, at_last_ack_eliciting_us = 0\<rparr>"

definition at_reset :: "ack_tracker \<Rightarrow> ack_tracker" where
  "at_reset t = at_init (at_allocator t) (at_heap t)"

subsection \<open>Recording a packet number\<close>

definition at_capacity :: "ack_tracker \<Rightarrow> nat" where
  "at_capacity t = (if at_heap t then max_ranges else inline_ranges)"

definition growToHeap :: "bool \<Rightarrow> ack_tracker \<Rightarrow> bool \<times> ack_tracker" where
  "growToHeap mem t =
     (if at_heap t then (False, t)
      else if \<not> at_allocator t then (False, t)
      else if \<not> mem then (False, t)
      else (True, t\<lparr>at_heap := True\<rparr>))"

text \<open>The scan \<open>while (i < range_count and ranges[i].largest < pn)\<close>.\<close>

fun at_scan :: "nat \<Rightarrow> pn_range list \<Rightarrow> nat \<Rightarrow> nat" where
  "at_scan pn [] i = i"
| "at_scan pn (r # rs) i = (if pr_largest r < pn then at_scan pn rs (Suc i) else i)"

definition at_insert :: "bool \<Rightarrow> ack_tracker \<Rightarrow> nat \<Rightarrow> bool \<times> ack_tracker" where
  "at_insert mem t pn =
     (let l = at_ranges t; i = at_scan pn l 0 in
      if i < length l \<and> pn \<ge> pr_smallest (l ! i) then (False, t)
      else
        let ext_below = i > 0 \<and> pr_largest (l ! (i - 1)) + 1 = pn;
            ext_above = i < length l \<and> pr_smallest (l ! i) = pn + 1 in
        if ext_below \<and> ext_above then
          (True, t\<lparr>at_ranges := list_remove_at i
                     (l[i - 1 := (l ! (i - 1))\<lparr>pr_largest := pr_largest (l ! i)\<rparr>])\<rparr>)
        else if ext_below then
          (True, t\<lparr>at_ranges := l[i - 1 := (l ! (i - 1))\<lparr>pr_largest := pn\<rparr>]\<rparr>)
        else if ext_above then
          (True, t\<lparr>at_ranges := l[i := (l ! i)\<lparr>pr_smallest := pn\<rparr>]\<rparr>)
        else
          let (evict, t) =
                (if length l = at_capacity t
                 then (case growToHeap mem t of (grown, t) \<Rightarrow> (\<not> grown, t))
                 else (False, t));
              l = (if evict then list_remove_at 0 l else l);
              i = (if evict \<and> i > 0 then i - 1 else i)
          in (True, t\<lparr>at_ranges := list_insert_at i \<lparr>pr_smallest = pn, pr_largest = pn\<rparr> l\<rparr>))"

fun at_contains_loop :: "pn_range list \<Rightarrow> nat \<Rightarrow> bool" where
  "at_contains_loop [] pn = False"
| "at_contains_loop (r # rs) pn =
     (if pn < pr_smallest r then False
      else if pn \<le> pr_largest r then True
      else at_contains_loop rs pn)"

definition at_contains :: "ack_tracker \<Rightarrow> nat \<Rightarrow> bool" where
  "at_contains t pn = at_contains_loop (at_ranges t) pn"

subsection \<open>Scheduling\<close>

definition new_largest :: "nat option \<Rightarrow> nat \<Rightarrow> bool" where
  "new_largest prev pn = (case prev of None \<Rightarrow> True | Some l \<Rightarrow> pn > l)"

definition addPacketUs :: "bool \<Rightarrow> ack_tracker \<Rightarrow> nat \<Rightarrow> nat \<Rightarrow> bool \<Rightarrow> ack_tracker" where
  "addPacketUs mem t pn now_us ack_eliciting =
     (case at_insert mem t pn of
        (False, t') \<Rightarrow> t'
      | (True, t') \<Rightarrow>
        (let t' = (if new_largest (at_largest t) pn
                   then t'\<lparr>at_largest := Some pn, at_largest_at_ms := now_us div 1000,
                           at_largest_at_us := now_us\<rparr>
                   else t') in
         if ack_eliciting
         then t'\<lparr>at_pending_ack := True, at_delayed_ack_armed := False,
                 at_ack_eliciting_since_ack := 0\<rparr>
         else t'))"

definition addPacket :: "bool \<Rightarrow> ack_tracker \<Rightarrow> nat \<Rightarrow> nat \<Rightarrow> bool \<Rightarrow> ack_tracker" where
  "addPacket mem t pn now_ms ack_eliciting =
     (let t = addPacketUs mem t pn (sat_mul now_ms 1000) ack_eliciting in
      if at_largest t = Some pn then t\<lparr>at_largest_at_ms := now_ms\<rparr> else t)"

definition at_add :: "bool \<Rightarrow> ack_tracker \<Rightarrow> nat \<Rightarrow> nat \<Rightarrow> ack_tracker" where
  "at_add mem t pn now_ms = addPacket mem t pn now_ms True"

definition addPacketDelayed ::
  "bool \<Rightarrow> ack_tracker \<Rightarrow> nat \<Rightarrow> nat \<Rightarrow> bool \<Rightarrow> nat \<Rightarrow> nat \<Rightarrow> nat \<Rightarrow> nat \<Rightarrow> ack_tracker" where
  "addPacketDelayed mem t pn now_ms ack_eliciting packet_threshold now_us quick_gap_us
      reorder_threshold =
     (let effective_us = (if now_us \<noteq> 0 then now_us else sat_mul now_ms 1000);
          previous_largest = at_largest t in
      case at_insert mem t pn of
        (False, t) \<Rightarrow> t
      | (True, t) \<Rightarrow>
        (let t = (if new_largest previous_largest pn
                  then t\<lparr>at_largest := Some pn, at_largest_at_ms := now_ms,
                         at_largest_at_us := effective_us\<rparr>
                  else t) in
         if \<not> ack_eliciting then t
         else
           let quiet = quick_gap_us \<noteq> 0 \<and>
                         sat_sub now_us (at_last_ack_eliciting_us t) \<ge> quick_gap_us;
               t = t\<lparr>at_last_ack_eliciting_us := now_us\<rparr> in
           if at_pending_ack t then t
           else
             let t = (if \<not> at_delayed_ack_armed t
                      then t\<lparr>at_delayed_ack_armed := True, at_delayed_ack_start_ms := now_ms,
                             at_delayed_ack_start_us := effective_us,
                             at_ack_eliciting_since_ack := 0\<rparr>
                      else t);
                 t = t\<lparr>at_ack_eliciting_since_ack := min 255 (at_ack_eliciting_since_ack t + 1)\<rparr>;
                 reordered_or_gap =
                   (case previous_largest of
                      None \<Rightarrow> False
                    | Some largest \<Rightarrow> reorder_threshold \<noteq> 0 \<and>
                        ((pn < largest \<and> largest - pn \<ge> reorder_threshold)
                         \<or> pn > sat_add largest reorder_threshold));
                 threshold_reached = packet_threshold \<noteq> 0 \<and>
                   at_ack_eliciting_since_ack t \<ge> packet_threshold in
             if reordered_or_gap \<or> threshold_reached \<or> quiet
             then t\<lparr>at_pending_ack := True\<rparr> else t))"

definition markAckSent :: "ack_tracker \<Rightarrow> ack_tracker" where
  "markAckSent t = t\<lparr>at_pending_ack := False, at_delayed_ack_armed := False,
                     at_ack_eliciting_since_ack := 0\<rparr>"

text \<open>What \<open>dropSpaceRecoveryState\<close> of \<open>Connection/keys.zig\<close> writes to the tracker of a packet
  number space when its keys are discarded: an owed ACK can never be sent.\<close>

definition dropSpaceAck :: "ack_tracker \<Rightarrow> ack_tracker" where
  "dropSpaceAck t = t\<lparr>at_pending_ack := False, at_delayed_ack_armed := False\<rparr>"

definition ackDelayBaseMs :: "ack_tracker \<Rightarrow> nat option" where
  "ackDelayBaseMs t =
     (if at_delayed_ack_armed t then Some (at_delayed_ack_start_ms t)
      else if at_pending_ack t then Some (at_largest_at_ms t)
      else None)"

definition delayed_start_us :: "ack_tracker \<Rightarrow> nat" where
  "delayed_start_us t =
     (if at_delayed_ack_start_us t \<noteq> 0 then at_delayed_ack_start_us t
      else sat_mul (at_delayed_ack_start_ms t) 1000)"

definition ackDelayBaseUs :: "ack_tracker \<Rightarrow> nat option" where
  "ackDelayBaseUs t =
     (if at_delayed_ack_armed t then Some (delayed_start_us t)
      else if at_pending_ack t then
        Some (if at_largest_at_us t \<noteq> 0 then at_largest_at_us t
              else sat_mul (at_largest_at_ms t) 1000)
      else None)"

definition promoteDelayedAck :: "ack_tracker \<Rightarrow> nat \<Rightarrow> nat \<Rightarrow> bool \<times> ack_tracker" where
  "promoteDelayedAck t now_ms max_ack_delay_ms =
     (if at_pending_ack t \<or> \<not> at_delayed_ack_armed t then (False, t)
      else if now_ms < sat_add (at_delayed_ack_start_ms t) max_ack_delay_ms then (False, t)
      else (True, t\<lparr>at_pending_ack := True, at_delayed_ack_armed := False\<rparr>))"

definition promoteDelayedAckUs :: "ack_tracker \<Rightarrow> nat \<Rightarrow> nat \<Rightarrow> bool \<times> ack_tracker" where
  "promoteDelayedAckUs t now_us max_ack_delay_us =
     (if at_pending_ack t \<or> \<not> at_delayed_ack_armed t then (False, t)
      else if now_us < sat_add (delayed_start_us t) max_ack_delay_us then (False, t)
      else (True, t\<lparr>at_pending_ack := True, at_delayed_ack_armed := False\<rparr>))"

subsection \<open>Building the ACK frame\<close>

datatype ack_error = Empty | Wire wire_error

text \<open>
  The walk from the second-highest range down: \<open>lower\<close> holds the ranges below \<open>prev\<close>,
  highest first.
\<close>

fun ack_walk ::
  "pn_range list \<Rightarrow> pn_range \<Rightarrow> nat \<Rightarrow> nat \<Rightarrow> byte list \<Rightarrow> nat \<Rightarrow> nat \<Rightarrow>
   wire_error + (byte list \<times> nat \<times> nat)" where
  "ack_walk [] prev capacity max_lower buf pos included = Inr (buf, pos, included)"
| "ack_walk (this # lower) prev capacity max_lower buf pos included =
     (if included < max_lower then
        let gap = word_of_nat (pr_smallest prev - pr_largest this - 2);
            len = word_of_nat (pr_largest this - pr_smallest this);
            needed = encodedLen gap + encodedLen len in
        if needed > capacity - pos then Inr (buf, pos, included)
        else zbind (put_varint gap buf pos) (\<lambda>(buf, pos).
             zbind (put_varint len buf pos) (\<lambda>(buf, pos).
             ack_walk lower this capacity max_lower buf pos (included + 1)))
      else Inr (buf, pos, included))"

definition toAckFrameLimitedRangesWithEcn ::
  "ack_tracker \<Rightarrow> u64 \<Rightarrow> byte list \<Rightarrow> nat \<Rightarrow> nat \<Rightarrow> ecn_counts option \<Rightarrow> ack_error + ack" where
  "toAckFrameLimitedRangesWithEcn t ack_delay_scaled buf max_ranges_bytes max_lower_ranges ecn =
     (if at_ranges t = [] then Inl Empty
      else
        let top = last (at_ranges t);
            first_range = pr_largest top - pr_smallest top;
            ranges_capacity = min (length buf) max_ranges_bytes in
        case ack_walk (rev (butlast (at_ranges t))) top ranges_capacity max_lower_ranges buf 0 0 of
          Inl e \<Rightarrow> Inl (Wire e)
        | Inr (buf, pos, included) \<Rightarrow>
            Inr \<lparr>ak_largest_acked = word_of_nat (pr_largest top), ak_ack_delay = ack_delay_scaled,
                 ak_first_range = word_of_nat first_range, ak_range_count = word_of_nat included,
                 ak_ranges_bytes = take pos buf, ak_ecn_counts = ecn\<rparr>)"

definition toAckFrameLimitedRanges ::
  "ack_tracker \<Rightarrow> u64 \<Rightarrow> byte list \<Rightarrow> nat \<Rightarrow> nat \<Rightarrow> ack_error + ack" where
  "toAckFrameLimitedRanges t ack_delay_scaled buf max_ranges_bytes max_lower_ranges =
     toAckFrameLimitedRangesWithEcn t ack_delay_scaled buf max_ranges_bytes max_lower_ranges None"

definition toAckFrameLimited :: "ack_tracker \<Rightarrow> u64 \<Rightarrow> byte list \<Rightarrow> nat \<Rightarrow> ack_error + ack" where
  "toAckFrameLimited t ack_delay_scaled buf max_ranges_bytes =
     toAckFrameLimitedRangesWithEcn t ack_delay_scaled buf max_ranges_bytes u64_max None"

definition toAckFrameWithEcn ::
  "ack_tracker \<Rightarrow> u64 \<Rightarrow> byte list \<Rightarrow> ecn_counts option \<Rightarrow> ack_error + ack" where
  "toAckFrameWithEcn t ack_delay_scaled buf ecn =
     zbind (toAckFrameLimitedRangesWithEcn t ack_delay_scaled buf (length buf) u64_max ecn) (\<lambda>a.
       if unat (ak_range_count a) \<noteq> length (at_ranges t) - 1 then Inl (Wire BufferTooSmall)
       else Inr a)"

definition toAckFrame :: "ack_tracker \<Rightarrow> u64 \<Rightarrow> byte list \<Rightarrow> ack_error + ack" where
  "toAckFrame t ack_delay_scaled buf = toAckFrameWithEcn t ack_delay_scaled buf None"

subsection \<open>The invariant and the set of packet numbers\<close>

definition prs_inv :: "pn_range list \<Rightarrow> bool" where
  "prs_inv l \<longleftrightarrow> sorted_wrt (\<lambda>a b. pr_largest a + 1 < pr_smallest b) l \<and>
     (\<forall>r\<in>set l. pr_smallest r \<le> pr_largest r)"

definition pr_set :: "pn_range \<Rightarrow> nat set" where
  "pr_set r = {pr_smallest r..pr_largest r}"

definition prs_set :: "pn_range list \<Rightarrow> nat set" where
  "prs_set l = (\<Union>r\<in>set l. pr_set r)"

lemma prs_set_simps [simp]: "prs_set [] = {}" "prs_set (r # rs) = pr_set r \<union> prs_set rs"
  "prs_set (xs @ ys) = prs_set xs \<union> prs_set ys"
  by (auto simp: prs_set_def)

lemma prs_inv_simps [simp]: "prs_inv []"
  "prs_inv (r # rs) \<longleftrightarrow> pr_smallest r \<le> pr_largest r \<and>
     (\<forall>s\<in>set rs. pr_largest r + 1 < pr_smallest s) \<and> prs_inv rs"
  by (auto simp: prs_inv_def)

lemma prs_inv_append:
  "prs_inv (xs @ ys) \<longleftrightarrow> prs_inv xs \<and> prs_inv ys \<and>
     (\<forall>a\<in>set xs. \<forall>b\<in>set ys. pr_largest a + 1 < pr_smallest b)"
  by (auto simp: prs_inv_def sorted_wrt_append)

lemma prs_inv_tl: "prs_inv l \<Longrightarrow> prs_inv (tl l)"
  by (cases l) auto

lemma at_scan_eq: "at_scan pn l i = i + length (takeWhile (\<lambda>r. pr_largest r < pn) l)"
  by (induction l arbitrary: i) auto

text \<open>Where the scan stops.\<close>

lemma at_scan_split:
  obtains xs ys where "l = xs @ ys" "at_scan pn l 0 = length xs" "\<forall>r\<in>set xs. pr_largest r < pn"
    "ys = [] \<or> pn \<le> pr_largest (hd ys)"
proof
  show "l = takeWhile (\<lambda>r. pr_largest r < pn) l @ dropWhile (\<lambda>r. pr_largest r < pn) l" by simp
  show "at_scan pn l 0 = length (takeWhile (\<lambda>r. pr_largest r < pn) l)" by (simp add: at_scan_eq)
  show "\<forall>r\<in>set (takeWhile (\<lambda>r. pr_largest r < pn) l). pr_largest r < pn"
    by (auto dest: set_takeWhileD)
  show "dropWhile (\<lambda>r. pr_largest r < pn) l = [] \<or>
      pn \<le> pr_largest (hd (dropWhile (\<lambda>r. pr_largest r < pn) l))"
    using hd_dropWhile [of "\<lambda>r. pr_largest r < pn" l] by (meson not_less)
qed

text \<open>The part of \<open>insert\<close> that does not depend on the storage.\<close>

definition near_below :: "pn_range list \<Rightarrow> nat \<Rightarrow> bool" where
  "near_below xs pn \<longleftrightarrow> xs \<noteq> [] \<and> pr_largest (last xs) + 1 = pn"

definition near_above :: "pn_range list \<Rightarrow> nat \<Rightarrow> bool" where
  "near_above ys pn \<longleftrightarrow> ys \<noteq> [] \<and> pr_smallest (hd ys) = pn + 1"

definition merged_ranges :: "pn_range list \<Rightarrow> pn_range list \<Rightarrow> nat \<Rightarrow> pn_range list" where
  "merged_ranges xs ys pn =
     (if near_below xs pn \<and> near_above ys pn then
        butlast xs @ \<lparr>pr_smallest = pr_smallest (last xs), pr_largest = pr_largest (hd ys)\<rparr> # tl ys
      else if near_below xs pn then
        butlast xs @ \<lparr>pr_smallest = pr_smallest (last xs), pr_largest = pn\<rparr> # ys
      else if near_above ys pn then
        xs @ \<lparr>pr_smallest = pn, pr_largest = pr_largest (hd ys)\<rparr> # tl ys
      else xs @ \<lparr>pr_smallest = pn, pr_largest = pn\<rparr> # ys)"

lemma merged_ranges_correct:
  assumes "prs_inv (xs @ ys)" "\<forall>r\<in>set xs. pr_largest r < pn" "ys = [] \<or> pn < pr_smallest (hd ys)"
  shows "prs_inv (merged_ranges xs ys pn) \<and>
    prs_set (merged_ranges xs ys pn) = insert pn (prs_set (xs @ ys))"
proof -
  have ys: "\<forall>r\<in>set ys. pn < pr_smallest r"
    using assms(1,3) by (cases ys) (auto simp: prs_inv_append)
  show ?thesis
  proof (cases xs rule: rev_cases)
    case Nil
    with assms ys show ?thesis
      by (cases ys) (auto simp: merged_ranges_def near_below_def near_above_def pr_set_def)
  next
    case (snoc xs' x)
    with assms ys show ?thesis
      by (cases ys) (auto simp: merged_ranges_def near_below_def near_above_def pr_set_def prs_inv_append)
  qed
qed

text \<open>The ranges left when the lowest one makes room.\<close>

definition evicted_ranges :: "pn_range list \<Rightarrow> pn_range list \<Rightarrow> nat \<Rightarrow> pn_range list" where
  "evicted_ranges xs ys pn =
     (if xs = [] then \<lparr>pr_smallest = pn, pr_largest = pn\<rparr> # tl ys
      else tl xs @ \<lparr>pr_smallest = pn, pr_largest = pn\<rparr> # ys)"

lemma nth_append_hd: "ys \<noteq> [] \<Longrightarrow> (xs @ ys) ! length xs = hd ys"
  by (simp add: nth_append hd_conv_nth)

lemma list_remove_at_0: "list_remove_at 0 l = tl l"
  by (cases l) (simp_all add: list_remove_at_def)

lemma at_insert_eq:
  assumes l: "at_ranges t = xs @ ys" and scan: "at_scan pn (xs @ ys) 0 = length xs"
  shows "at_insert mem t pn =
    (if ys \<noteq> [] \<and> pr_smallest (hd ys) \<le> pn then (False, t)
     else if near_below xs pn \<or> near_above ys pn \<or> length (xs @ ys) \<noteq> at_capacity t
     then (True, t\<lparr>at_ranges := merged_ranges xs ys pn\<rparr>)
     else if \<not> at_heap t \<and> at_allocator t \<and> mem
     then (True, t\<lparr>at_ranges := merged_ranges xs ys pn, at_heap := True\<rparr>)
     else (True, t\<lparr>at_ranges := evicted_ranges xs ys pn\<rparr>))"
proof (cases "ys \<noteq> [] \<and> pr_smallest (hd ys) \<le> pn")
  case True
  then show ?thesis by (simp add: at_insert_def l scan nth_append_hd)
next
  case out: False
  note core = at_insert_def l scan Let_def near_below_def near_above_def merged_ranges_def
    nth_append list_update_append list_remove_at_def
  show ?thesis
  proof (cases xs rule: rev_cases)
    case Nil
    with out scan l show ?thesis
      by (cases ys) (auto simp: core list_insert_at_def evicted_ranges_def growToHeap_def)
  next
    case (snoc xs' x)
    with out scan l show ?thesis
      by (cases ys; cases xs') (auto simp: core list_insert_at_def evicted_ranges_def growToHeap_def)
  qed
qed

subsection \<open>Correctness of \<open>insert\<close> and \<open>contains\<close>\<close>

lemma covered_here:
  assumes "prs_inv (xs @ ys)" "\<forall>r\<in>set xs. pr_largest r < pn" "ys = [] \<or> pn \<le> pr_largest (hd ys)"
  shows "pn \<in> prs_set (xs @ ys) \<longleftrightarrow> ys \<noteq> [] \<and> pr_smallest (hd ys) \<le> pn"
  using assms by (cases ys) (fastforce simp: prs_inv_append prs_set_def pr_set_def)+

lemma evicted_ranges_correct:
  assumes "prs_inv (xs @ ys)" "\<forall>r\<in>set xs. pr_largest r < pn" "ys = [] \<or> pn < pr_smallest (hd ys)"
    "\<not> near_below xs pn" "\<not> near_above ys pn"
  shows "prs_inv (evicted_ranges xs ys pn) \<and>
    prs_set (evicted_ranges xs ys pn) = insert pn (prs_set (tl (xs @ ys)))"
proof (cases "xs = []")
  case True
  with assms show ?thesis by (cases ys) (auto simp: evicted_ranges_def pr_set_def)
next
  case False
  then obtain x xs' where x: "xs = x # xs'" by (cases xs) auto
  have tail: "near_below xs' pn \<Longrightarrow> near_below xs pn" by (auto simp: near_below_def x)
  have "evicted_ranges xs ys pn = merged_ranges xs' ys pn"
    using assms(4,5) tail by (auto simp: evicted_ranges_def merged_ranges_def x)
  with merged_ranges_correct [of xs' ys pn] assms show ?thesis
    by (auto simp: x)
qed

lemma length_merged_ranges:
  "length (merged_ranges xs ys pn) \<le> length (xs @ ys) + 1 \<and>
   (near_below xs pn \<or> near_above ys pn \<longrightarrow> length (merged_ranges xs ys pn) \<le> length (xs @ ys))"
  by (cases xs rule: rev_cases; cases ys) (auto simp: merged_ranges_def near_below_def near_above_def)

lemma last_merged_ranges:
  assumes "prs_inv (xs @ ys)" "\<forall>r\<in>set xs. pr_largest r < pn" "ys = [] \<or> pn < pr_smallest (hd ys)"
  shows "merged_ranges xs ys pn \<noteq> [] \<and> pr_largest (last (merged_ranges xs ys pn)) =
    (if ys = [] then pn else pr_largest (last (xs @ ys)))"
  using assms by (cases xs rule: rev_cases; cases ys)
    (auto simp: merged_ranges_def near_below_def near_above_def)

definition can_grow :: "bool \<Rightarrow> ack_tracker \<Rightarrow> bool" where
  "can_grow mem t \<longleftrightarrow> \<not> at_heap t \<and> at_allocator t \<and> mem"

definition tracker_inv :: "ack_tracker \<Rightarrow> bool" where
  "tracker_inv t \<longleftrightarrow> prs_inv (at_ranges t) \<and> length (at_ranges t) \<le> at_capacity t \<and>
     at_largest t = (if at_ranges t = [] then None else Some (pr_largest (last (at_ranges t))))"

lemma storage_update:
  "\<exists>r h. t\<lparr>at_ranges := x\<rparr> = t\<lparr>at_ranges := r, at_heap := h\<rparr>"
  "\<exists>r h. t\<lparr>at_ranges := x, at_heap := y\<rparr> = t\<lparr>at_ranges := r, at_heap := h\<rparr>"
  by (cases t; force)+

lemma at_insert_spec:
  assumes inv: "prs_inv (at_ranges t)" "length (at_ranges t) \<le> at_capacity t"
    and ins: "at_insert mem t pn = (b, t')"
  shows "(b \<longleftrightarrow> pn \<notin> prs_set (at_ranges t)) \<and> (\<not> b \<longrightarrow> t' = t) \<and>
    prs_inv (at_ranges t') \<and> length (at_ranges t') \<le> at_capacity t' \<and>
    (b \<longrightarrow> prs_set (at_ranges t') = insert pn (prs_set (at_ranges t)) \<or>
       length (at_ranges t) = at_capacity t \<and> \<not> can_grow mem t \<and>
       prs_set (at_ranges t') = insert pn (prs_set (tl (at_ranges t)))) \<and>
    (b \<longrightarrow> (\<exists>r h. t' = t\<lparr>at_ranges := r, at_heap := h\<rparr>))"
proof -
  obtain xs ys where s: "at_ranges t = xs @ ys" "at_scan pn (at_ranges t) 0 = length xs"
    "\<forall>r\<in>set xs. pr_largest r < pn" "ys = [] \<or> pn \<le> pr_largest (hd ys)"
    by (rule at_scan_split)
  note eq = at_insert_eq [OF s(1) s(2) [unfolded s(1)], of mem]
  note cov = covered_here [OF inv(1) [unfolded s(1)] s(3,4)]
  show ?thesis
  proof (cases "ys \<noteq> [] \<and> pr_smallest (hd ys) \<le> pn")
    case True
    with eq cov ins inv s(1) show ?thesis by auto
  next
    case False
    then have y: "ys = [] \<or> pn < pr_smallest (hd ys)" by auto
    note m = merged_ranges_correct [OF inv(1) [unfolded s(1)] s(3) y]
    note e = evicted_ranges_correct [OF inv(1) [unfolded s(1)] s(3) y]
    note l = length_merged_ranges [of xs ys pn]
    have c: "length (xs @ ys) \<le> at_capacity t" using inv(2) s(1) by simp
    have le: "length (evicted_ranges xs ys pn) \<le> max 1 (length (xs @ ys))"
      by (cases xs; cases ys) (auto simp: evicted_ranges_def)
    have cap: "1 \<le> at_capacity u" for u by (simp add: at_capacity_def max_ranges_def inline_ranges_def)
    consider (a) "near_below xs pn \<or> near_above ys pn \<or> length (xs @ ys) \<noteq> at_capacity t"
      | (b) "\<not> (near_below xs pn \<or> near_above ys pn \<or> length (xs @ ys) \<noteq> at_capacity t)" "can_grow mem t"
      | (c) "\<not> (near_below xs pn \<or> near_above ys pn \<or> length (xs @ ys) \<noteq> at_capacity t)" "\<not> can_grow mem t"
      by blast
    then show ?thesis
    proof cases
      case a
      then have "t' = t\<lparr>at_ranges := merged_ranges xs ys pn\<rparr>" "b"
        using eq ins False by auto
      moreover have "length (merged_ranges xs ys pn) \<le> at_capacity t" using a l c by auto
      ultimately show ?thesis using m cov False s(1) by (auto simp: at_capacity_def storage_update)
    next
      case b
      then have t': "t' = t\<lparr>at_ranges := merged_ranges xs ys pn, at_heap := True\<rparr>" "b"
        using eq ins False by (auto simp: can_grow_def)
      have "at_capacity t = 8" "at_capacity t' = 255"
        using b t' by (simp_all add: can_grow_def at_capacity_def inline_ranges_def max_ranges_def)
      with l c have "length (merged_ranges xs ys pn) \<le> at_capacity t'" by auto
      with t' m cov False s(1) show ?thesis by (auto simp: storage_update)
    next
      case c
      then have t': "t' = t\<lparr>at_ranges := evicted_ranges xs ys pn\<rparr>" "b"
        using eq ins False by (auto simp: can_grow_def)
      moreover have "length (evicted_ranges xs ys pn) \<le> at_capacity t" using le cap [of t] c by auto
      ultimately show ?thesis using e c cov False s(1) by (auto simp: at_capacity_def storage_update)
    qed
  qed
qed

lemma at_contains_loop_iff: "prs_inv l \<Longrightarrow> at_contains_loop l pn \<longleftrightarrow> pn \<in> prs_set l"
proof (induction l)
  case Nil
  then show ?case by simp
next
  case (Cons r rs)
  then show ?case by (fastforce simp: prs_set_def pr_set_def)
qed

lemma prs_last_greatest:
  "prs_inv l \<Longrightarrow> l \<noteq> [] \<Longrightarrow> pr_largest (last l) \<in> prs_set l \<and> (\<forall>x\<in>prs_set l. x \<le> pr_largest (last l))"
proof (induction l)
  case Nil
  then show ?case by simp
next
  case (Cons r rs)
  then show ?case
    by (cases "rs = []") (fastforce simp: pr_set_def prs_set_def)+
qed

lemma at_insert_last:
  assumes inv: "prs_inv (at_ranges t)" "length (at_ranges t) \<le> at_capacity t"
    and ins: "at_insert mem t pn = (True, t')"
  shows "at_ranges t' \<noteq> [] \<and> pr_largest (last (at_ranges t')) =
    (if at_ranges t = [] then pn else max pn (pr_largest (last (at_ranges t))))"
proof -
  let ?l = "at_ranges t"
  note sp = at_insert_spec [OF inv ins]
  have pn: "pn \<in> prs_set (at_ranges t')" using sp by auto
  then have ne: "at_ranges t' \<noteq> []" by auto
  have inv': "prs_inv (at_ranges t')" using sp by simp
  obtain m where m: "m = ?l \<or> m = tl ?l \<and> 2 \<le> length ?l" "prs_set (at_ranges t') = insert pn (prs_set m)"
    using sp by (fastforce simp: at_capacity_def max_ranges_def inline_ranges_def split: if_splits)
  have mi: "prs_inv m" using m(1) inv(1) prs_inv_tl by auto
  have ml: "m \<noteq> [] \<longleftrightarrow> ?l \<noteq> []" "m \<noteq> [] \<Longrightarrow> last m = last ?l"
    using m(1) by (cases ?l; auto)+
  note g = prs_last_greatest [OF inv' ne]
  show ?thesis
  proof (cases "m = []")
    case True
    with ml g m(2) ne show ?thesis by auto
  next
    case False
    with prs_last_greatest [OF mi] g m(2) ml ne show ?thesis by (auto simp: max_def intro: antisym)
  qed
qed

text \<open>What a recorded packet does to the ranges and the largest number, whatever the schedule.\<close>

lemma tracker_inv_record:
  assumes inv: "tracker_inv t" and ins: "at_insert mem t pn = (True, t')"
  shows "prs_inv (at_ranges t') \<and> length (at_ranges t') \<le> at_capacity t' \<and> at_ranges t' \<noteq> [] \<and>
    at_largest t' = at_largest t \<and>
    pr_largest (last (at_ranges t')) = (if new_largest (at_largest t) pn then pn else the (at_largest t)) \<and>
    (\<not> new_largest (at_largest t) pn \<longrightarrow> at_largest t \<noteq> None)"
proof -
  have i: "prs_inv (at_ranges t)" "length (at_ranges t) \<le> at_capacity t"
    using inv by (simp_all add: tracker_inv_def)
  obtain r h where "t' = t\<lparr>at_ranges := r, at_heap := h\<rparr>" using at_insert_spec [OF i ins] by blast
  then have "at_largest t' = at_largest t" by simp
  with at_insert_last [OF i ins] at_insert_spec [OF i ins] inv show ?thesis
    by (auto simp: tracker_inv_def new_largest_def max_def)
qed

lemma tracker_inv_cong:
  "at_ranges t' = at_ranges t \<Longrightarrow> at_heap t' = at_heap t \<Longrightarrow> at_largest t' = at_largest t \<Longrightarrow>
   tracker_inv t' = tracker_inv t"
  by (simp add: tracker_inv_def at_capacity_def)

lemma addPacketUs_inv:
  assumes "tracker_inv t"
  shows "tracker_inv (addPacketUs mem t pn now ae)"
proof (cases "at_insert mem t pn")
  case (Pair b t')
  show ?thesis
  proof (cases b)
    case True
    from tracker_inv_record [OF assms, of mem pn t'] Pair True show ?thesis
      by (auto simp: addPacketUs_def tracker_inv_def at_capacity_def Let_def)
  next
    case False
    with Pair assms at_insert_spec [of t mem pn b t'] show ?thesis
      by (auto simp: addPacketUs_def tracker_inv_def)
  qed
qed

lemma addPacket_inv: "tracker_inv t \<Longrightarrow> tracker_inv (addPacket mem t pn now ae)"
  using addPacketUs_inv [of t mem pn "sat_mul now 1000" ae]
  by (auto simp: addPacket_def Let_def tracker_inv_def at_capacity_def)

lemma addPacketDelayed_inv:
  assumes "tracker_inv t"
  shows "tracker_inv (addPacketDelayed mem t pn now_ms ae th now_us quick reorder)"
proof (cases "at_insert mem t pn")
  case (Pair b t')
  show ?thesis
  proof (cases b)
    case True
    from tracker_inv_record [OF assms, of mem pn t'] Pair True
    have "tracker_inv (if new_largest (at_largest t) pn
       then t'\<lparr>at_largest := Some pn, at_largest_at_ms := now_ms,
               at_largest_at_us := (if now_us \<noteq> 0 then now_us else sat_mul now_ms 1000)\<rparr> else t')"
      (is "tracker_inv ?u")
      by (auto simp: tracker_inv_def at_capacity_def)
    moreover have "at_ranges (addPacketDelayed mem t pn now_ms ae th now_us quick reorder) = at_ranges ?u"
      "at_heap (addPacketDelayed mem t pn now_ms ae th now_us quick reorder) = at_heap ?u"
      "at_largest (addPacketDelayed mem t pn now_ms ae th now_us quick reorder) = at_largest ?u"
      using Pair True by (simp_all add: addPacketDelayed_def Let_def)
    ultimately show ?thesis by (simp add: tracker_inv_def at_capacity_def)
  next
    case False
    with Pair assms at_insert_spec [of t mem pn b t'] show ?thesis
      by (auto simp: addPacketDelayed_def tracker_inv_def)
  qed
qed

lemma other_ops_inv:
  "tracker_inv t \<Longrightarrow> tracker_inv (markAckSent t)"
  "tracker_inv t \<Longrightarrow> tracker_inv (snd (promoteDelayedAck t now d))"
  "tracker_inv t \<Longrightarrow> tracker_inv (snd (promoteDelayedAckUs t now d))"
  "tracker_inv (at_init a h)"
  "tracker_inv t \<Longrightarrow> tracker_inv (dropSpaceAck t)"
  by (auto simp: tracker_inv_def at_capacity_def markAckSent_def promoteDelayedAck_def
      promoteDelayedAckUs_def at_init_def dropSpaceAck_def)

subsection \<open>The tracker as a state machine\<close>

text \<open>The public operations that change the state, with any argument and any allocator, and the one
  place of the connection that writes to the tracker directly.\<close>

inductive at_step :: "ack_tracker \<Rightarrow> ack_tracker \<Rightarrow> bool" where
  step_add: "at_step t (addPacket mem t pn now_ms ae)"
| step_add_us: "at_step t (addPacketUs mem t pn now_us ae)"
| step_delayed: "at_step t (addPacketDelayed mem t pn now_ms ae th now_us quick reorder)"
| step_promote: "at_step t (snd (promoteDelayedAck t now_ms d))"
| step_promote_us: "at_step t (snd (promoteDelayedAckUs t now_us d))"
| step_sent: "at_step t (markAckSent t)"
| step_reset: "at_step t (at_reset t)"
| step_discard: "at_step t (dropSpaceAck t)"

inductive at_reachable :: "ack_tracker \<Rightarrow> bool" where
  reach_init: "at_reachable (at_init alloc False)"
| reach_step: "at_reachable t \<Longrightarrow> at_step t t' \<Longrightarrow> at_reachable t'"

lemma at_step_inv: "at_step t t' \<Longrightarrow> tracker_inv t \<Longrightarrow> tracker_inv t'"
  by (cases rule: at_step.cases)
     (auto intro: addPacket_inv addPacketUs_inv addPacketDelayed_inv other_ops_inv simp: at_reset_def)

lemma reachable_inv: "at_reachable t \<Longrightarrow> tracker_inv t"
  by (induction rule: at_reachable.induct) (auto intro: other_ops_inv at_step_inv)

subsection \<open>The walk that builds the ACK frame\<close>

fun gap_pairs :: "pn_range \<Rightarrow> pn_range list \<Rightarrow> ack_range list" where
  "gap_pairs prev [] = []"
| "gap_pairs prev (this # lower) =
     \<lparr>ar_gap = word_of_nat (pr_smallest prev - pr_largest this - 2),
      ar_length = word_of_nat (pr_largest this - pr_smallest this)\<rparr> # gap_pairs this lower"

fun falling_ranges :: "pn_range \<Rightarrow> pn_range list \<Rightarrow> bool" where
  "falling_ranges prev [] = True"
| "falling_ranges prev (this # lower) =
     (pr_largest this + 2 \<le> pr_smallest prev \<and> pr_smallest this \<le> pr_largest this
      \<and> falling_ranges this lower)"

definition to_interval :: "pn_range \<Rightarrow> interval" where
  "to_interval r = \<lparr>iv_smallest = word_of_nat (pr_smallest r), iv_largest = word_of_nat (pr_largest r)\<rparr>"

lemma length_gap_pairs [simp]: "length (gap_pairs prev lower) = length lower"
  by (induction prev lower rule: gap_pairs.induct) simp_all

lemma small_word: "n < 2 ^ 62 \<Longrightarrow> unat (word_of_nat n :: u64) = n \<and> (word_of_nat n :: u64) \<le> max_value"
proof -
  assume n: "n < 2 ^ 62"
  then have "unat (word_of_nat n :: u64) = n" by (simp add: unat_of_nat)
  with n show ?thesis by (simp add: word_le_nat_alt)
qed

lemma gap_pairs_ok:
  "falling_ranges prev lower \<Longrightarrow> pr_smallest prev < 2 ^ 62 \<Longrightarrow> pairs_ok (gap_pairs prev lower)"
proof (induction prev lower rule: gap_pairs.induct)
  case (2 prev this lower)
  then have "pairs_ok (gap_pairs this lower)" by simp
  moreover have "pr_smallest prev - pr_largest this - 2 < 2 ^ 62"
    "pr_largest this - pr_smallest this < 2 ^ 62" using "2.prems" by auto
  note this [THEN small_word]
  ultimately show ?case by (simp del: of_nat_diff)
qed simp

lemma word_of_nat_minus: "b \<le> a \<Longrightarrow> (word_of_nat (a - b) :: u64) = word_of_nat a - word_of_nat b"
  by (simp add: of_nat_diff)

lemma descend_gap_pairs:
  "falling_ranges prev lower \<Longrightarrow> pr_smallest prev < 2 ^ 62 \<Longrightarrow>
   descend (word_of_nat (pr_smallest prev)) (gap_pairs prev lower) = Some (map to_interval lower)"
proof (induction prev lower rule: gap_pairs.induct)
  case (1 prev)
  then show ?case by simp
next
  case (2 prev this lower)
  let ?g = "pr_smallest prev - pr_largest this - 2" and ?n = "pr_largest this - pr_smallest this"
  have b: "pr_largest this + 2 \<le> pr_smallest prev" "pr_smallest this \<le> pr_largest this"
    "pr_smallest prev < 2 ^ 62" using "2.prems" by simp_all
  have u: "unat (word_of_nat (pr_smallest prev) :: u64) = pr_smallest prev"
    "unat (word_of_nat ?g :: u64) = ?g" "unat (word_of_nat ?n :: u64) = ?n"
    "unat (word_of_nat (pr_largest this) :: u64) = pr_largest this"
    using small_word [of "pr_smallest prev"] small_word [of "pr_largest this"]
      small_word [of ?g] small_word [of ?n] b by (auto simp del: of_nat_diff)
  have l: "(word_of_nat (pr_smallest prev) - word_of_nat ?g - 2 :: u64) = word_of_nat (pr_largest this)"
    using b by (simp add: of_nat_diff algebra_simps)
  have s: "(word_of_nat (pr_largest this) - word_of_nat ?n :: u64) = word_of_nat (pr_smallest this)"
    using b by (simp add: of_nat_diff)
  have "\<not> (word_of_nat (pr_largest this) :: u64) < word_of_nat ?n"
    using u by (simp add: word_less_nat_alt)
  then show ?case using b u "2.IH" "2.prems"
    by (simp add: l s to_interval_def Let_def)
qed

lemma put_varint_room:
  "v \<le> max_value \<Longrightarrow> pos + encodedLen v \<le> length dst \<Longrightarrow>
   put_varint v dst pos = Inr (take pos dst @ vbytes v @ drop (pos + encodedLen v) dst, pos + encodedLen v)"
  using emitsD [OF emits_put_varint, of v pos dst] by (simp add: put_bytes_def)

lemma ack_walk_spec:
  "falling_ranges prev lower \<Longrightarrow> pr_smallest prev < 2 ^ 62 \<Longrightarrow> pos \<le> cap \<Longrightarrow> cap \<le> length buf \<Longrightarrow>
   inc \<le> maxl \<Longrightarrow>
   \<exists>k buf' pos'. ack_walk lower prev cap maxl buf pos inc = Inr (buf', pos', inc + k) \<and>
     k \<le> length lower \<and> inc + k \<le> maxl \<and> pos' \<le> cap \<and> length buf' = length buf \<and>
     take pos' buf' = take pos buf @ pairs_bytes (take k (gap_pairs prev lower)) \<and>
     (k = length lower \<or> inc + k = maxl \<or>
      cap < pos' + length (pairs_bytes [gap_pairs prev lower ! k]))"
proof (induction lower arbitrary: prev buf pos inc)
  case Nil
  then show ?case by auto
next
  case (Cons this lower)
  define g where "g = (word_of_nat (pr_smallest prev - pr_largest this - 2) :: u64)"
  define n where "n = (word_of_nat (pr_largest this - pr_smallest this) :: u64)"
  let ?need = "encodedLen g + encodedLen n"
  have p: "gap_pairs prev (this # lower) = \<lparr>ar_gap = g, ar_length = n\<rparr> # gap_pairs this lower"
    by (simp only: gap_pairs.simps g_def n_def)
  have w: "ack_walk (this # lower) prev cap maxl buf pos inc =
     (if inc < maxl then
        if ?need > cap - pos then Inr (buf, pos, inc)
        else zbind (put_varint g buf pos) (\<lambda>(buf, pos).
             zbind (put_varint n buf pos) (\<lambda>(buf, pos).
             ack_walk lower this cap maxl buf pos (inc + 1)))
      else Inr (buf, pos, inc))"
    by (simp only: ack_walk.simps g_def n_def Let_def)
  have ok: "g \<le> max_value" "n \<le> max_value"
    using gap_pairs_ok [OF Cons.prems(1,2)] by (simp_all add: p del: gap_pairs.simps)
  show ?case
  proof (cases "inc < maxl \<and> ?need \<le> cap - pos")
    case False
    then show ?thesis using Cons.prems unfolding w p
      by (intro exI [of _ 0] exI [of _ buf] exI [of _ pos]) auto
  next
    case True
    let ?p1 = "pos + encodedLen g"
    let ?p2 = "?p1 + encodedLen n"
    let ?b1 = "take pos buf @ vbytes g @ drop ?p1 buf"
    let ?b2 = "take ?p1 ?b1 @ vbytes n @ drop ?p2 ?b1"
    have need: "?need \<le> cap - pos" using True by simp
    have fit: "?p2 \<le> cap" "?p2 \<le> length buf"
      using need Cons.prems(3,4) by linarith+
    have w1: "put_varint g buf pos = Inr (?b1, ?p1)"
      using put_varint_room [OF ok(1), of pos buf] fit by simp
    have lb: "length ?b1 = length buf" using fit Cons.prems by simp
    have w2: "put_varint n ?b1 ?p1 = Inr (?b2, ?p2)"
      by (rule put_varint_room [OF ok(2)]) (use fit lb in simp)
    have t2: "take ?p2 ?b2 = take pos buf @ vbytes g @ vbytes n"
      using fit Cons.prems by simp
    have lb2: "length ?b2 = length buf" using lb fit by simp
    from Cons.IH [of this ?p2 ?b2 "inc + 1"] Cons.prems fit True lb2 obtain k buf' pos' where
      k: "ack_walk lower this cap maxl ?b2 ?p2 (inc + 1) = Inr (buf', pos', inc + 1 + k)"
      "k \<le> length lower" "inc + 1 + k \<le> maxl" "pos' \<le> cap" "length buf' = length buf"
      "take pos' buf' = take ?p2 ?b2 @ pairs_bytes (take k (gap_pairs this lower))"
      "k = length lower \<or> inc + 1 + k = maxl \<or>
       cap < pos' + length (pairs_bytes [gap_pairs this lower ! k])" by auto
    have "ack_walk (this # lower) prev cap maxl buf pos inc = Inr (buf', pos', inc + Suc k)"
      using True k(1) w1 w2 by (simp add: w del: ack_walk.simps)
    moreover have "k = length lower \<or> inc + Suc k = maxl \<or>
        cap < pos' + length (pairs_bytes [(\<lparr>ar_gap = g, ar_length = n\<rparr> # gap_pairs this lower) ! Suc k])"
      using k(7) by auto
    moreover have "take pos' buf' = take pos buf @
        pairs_bytes (take (Suc k) (\<lparr>ar_gap = g, ar_length = n\<rparr> # gap_pairs this lower))"
      by (simp only: k(6) t2 take_Suc_Cons pairs_bytes_simps ack_range.simps append_assoc)
    ultimately show ?thesis using k(2-5) unfolding p
      by (intro exI [of _ "Suc k"] exI [of _ buf'] exI [of _ pos'])
         (simp del: ack_walk.simps take_Suc_Cons nth_Cons_Suc)
  qed
qed

lemma falling_rev: "prs_inv (xs @ [x]) \<Longrightarrow> falling_ranges x (rev xs)"
proof (induction xs arbitrary: x rule: rev_induct)
  case Nil
  then show ?case by simp
next
  case (snoc y ys)
  then show ?case by (auto simp: prs_inv_append)
qed

lemma falling_take: "falling_ranges p l \<Longrightarrow> falling_ranges p (take k l)"
  by (induction p l arbitrary: k rule: falling_ranges.induct) (auto simp: take_Cons' )

lemma gap_pairs_take: "take k (gap_pairs p l) = gap_pairs p (take k l)"
  by (induction p l arbitrary: k rule: gap_pairs.induct) (auto simp: take_Cons' simp del: of_nat_diff)

text \<open>Everything the frame builder guarantees, for any byte and range budget.\<close>

lemma ack_frame_spec:
  assumes inv: "prs_inv (at_ranges t)" and ne: "at_ranges t \<noteq> []"
    and small: "pr_largest (last (at_ranges t)) < 2 ^ 62" and len: "length (at_ranges t) \<le> 255"
  obtains a k where
    "toAckFrameLimitedRangesWithEcn t d buf maxb maxl ecn = Inr a"
    "k \<le> length (at_ranges t) - 1" "k \<le> maxl" "unat (ak_range_count a) = k"
    "ak_largest_acked a = word_of_nat (pr_largest (last (at_ranges t)))"
    "ak_ack_delay a = d" "ak_ecn_counts a = ecn"
    "ak_ranges_bytes a = pairs_bytes (gap_pairs (last (at_ranges t)) (take k (rev (butlast (at_ranges t)))))"
    "length (ak_ranges_bytes a) \<le> min (length buf) maxb"
    "k = length (at_ranges t) - 1 \<or> k = maxl \<or> min (length buf) maxb < length (ak_ranges_bytes a) +
       length (pairs_bytes [gap_pairs (last (at_ranges t)) (rev (butlast (at_ranges t))) ! k])"
    "ak_first_range a = word_of_nat (pr_largest (last (at_ranges t)) - pr_smallest (last (at_ranges t)))"
proof -
  let ?top = "last (at_ranges t)" and ?lower = "rev (butlast (at_ranges t))"
  have l: "at_ranges t = butlast (at_ranges t) @ [?top]" using ne by simp
  have f: "falling_ranges ?top ?lower" by (rule falling_rev) (use inv l in simp)
  have top: "pr_smallest ?top \<le> pr_largest ?top" using inv ne by (simp add: prs_inv_def)
  with small have s: "pr_smallest ?top < 2 ^ 62" by simp
  from ack_walk_spec [OF f s, of 0 "min (length buf) maxb" buf 0 maxl] obtain k buf' pos' where
    k: "ack_walk ?lower ?top (min (length buf) maxb) maxl buf 0 0 = Inr (buf', pos', k)"
    "k \<le> length ?lower" "k \<le> maxl" "pos' \<le> min (length buf) maxb" "length buf' = length buf"
    "take pos' buf' = pairs_bytes (take k (gap_pairs ?top ?lower))"
    "k = length ?lower \<or> k = maxl \<or> min (length buf) maxb < pos' + length (pairs_bytes [gap_pairs ?top ?lower ! k])"
    by auto
  have len_bytes: "length (pairs_bytes (take k (gap_pairs ?top ?lower))) = pos'"
    using arg_cong [OF k(6), of length] k(4,5) by simp
  have "unat (word_of_nat k :: u64) = k"
    using small_word [of k] k(2) len by simp
  let ?a = "\<lparr>ak_largest_acked = word_of_nat (pr_largest ?top), ak_ack_delay = d,
     ak_first_range = word_of_nat (pr_largest ?top - pr_smallest ?top), ak_range_count = word_of_nat k,
     ak_ranges_bytes = take pos' buf', ak_ecn_counts = ecn\<rparr>"
  have "toAckFrameLimitedRangesWithEcn t d buf maxb maxl ecn = Inr ?a"
    using ne k(1) by (simp add: toAckFrameLimitedRangesWithEcn_def Let_def del: of_nat_diff)
  then show thesis
    by (rule that [where k = k])
       (use k len_bytes \<open>unat (word_of_nat k :: u64) = k\<close> in
         \<open>simp_all add: gap_pairs_take del: of_nat_diff\<close>)
qed

text \<open>The intervals read back from a built frame, and the decoder's gate on it.\<close>

lemma built_frame_reads:
  assumes inv: "prs_inv (at_ranges t)" and ne: "at_ranges t \<noteq> []"
    and small: "pr_largest (last (at_ranges t)) < 2 ^ 62" and len: "length (at_ranges t) \<le> 255"
    and k: "k \<le> length (at_ranges t) - 1"
    and rb: "ak_ranges_bytes a =
       pairs_bytes (gap_pairs (last (at_ranges t)) (take k (rev (butlast (at_ranges t)))))"
    and rc: "unat (ak_range_count a) = k"
    and la: "ak_largest_acked a = word_of_nat (pr_largest (last (at_ranges t)))"
    and fr: "ak_first_range a =
       word_of_nat (pr_largest (last (at_ranges t)) - pr_smallest (last (at_ranges t)))"
  shows "drain (k + 2) (ack_iter a) = Some (Inr (map to_interval (take (k + 1) (rev (at_ranges t)))))"
    and "ack_ranges_ok (ak_largest_acked a) (ak_first_range a) (ak_range_count a) (ak_ranges_bytes a)"
    and "ak_largest_acked a \<le> max_value" "ak_first_range a \<le> max_value" "ak_range_count a \<le> max_value"
proof -
  let ?top = "last (at_ranges t)" and ?lower = "take k (rev (butlast (at_ranges t)))"
  let ?rs = "gap_pairs ?top ?lower"
  have l: "at_ranges t = butlast (at_ranges t) @ [?top]" using ne by simp
  have f: "falling_ranges ?top ?lower" by (rule falling_take, rule falling_rev) (use inv l in simp)
  have top: "pr_smallest ?top \<le> pr_largest ?top" using inv ne by (simp add: prs_inv_def)
  with small have s: "pr_smallest ?top < 2 ^ 62" by simp
  have lrs: "length ?rs = k" using k by simp
  have r: "reads_pairs (ak_ranges_bytes a) 0 ?rs (0 + length (pairs_bytes ?rs))"
    by (rule reads_pairs_written [where rest = "[]"]) (simp_all add: rb gap_pairs_ok [OF f s])
  have lf: "pr_largest ?top - pr_smallest ?top < 2 ^ 62" using small by simp
  have fw: "unat (ak_first_range a) = pr_largest ?top - pr_smallest ?top"
    unfolding fr using small_word [OF lf] by blast
  have lw: "unat (ak_largest_acked a) = pr_largest ?top"
    unfolding la using small_word [OF small] by blast
  have le: "\<not> ak_first_range a > ak_largest_acked a" by (simp add: word_less_nat_alt fw lw)
  have cur: "ak_largest_acked a - ak_first_range a = word_of_nat (pr_smallest ?top)"
    using top by (simp add: la fr of_nat_diff)
  have d: "descend (ak_largest_acked a - ak_first_range a) ?rs = Some (map to_interval ?lower)"
    unfolding cur by (rule descend_gap_pairs [OF f s])
  have rv: "rev (at_ranges t) = ?top # rev (butlast (at_ranges t))" by (subst l) simp
  have tk: "map to_interval (take (k + 1) (rev (at_ranges t))) = to_interval ?top # map to_interval ?lower"
    unfolding rv by simp
  show "drain (k + 2) (ack_iter a) = Some (Inr (map to_interval (take (k + 1) (rev (at_ranges t)))))"
    unfolding tk using drain_iter [OF r] lrs rc le d cur la
    by (simp add: to_interval_def del: drain.simps gap_pairs.simps)
  have "validateAckRanges (ak_largest_acked a) (ak_first_range a) (ak_range_count a) (ak_ranges_bytes a) = Inr ()"
    using validate_loop_reads [OF r, of "ak_largest_acked a - ak_first_range a"] le d lrs rc
    by (simp add: validateAckRanges_def)
  moreover have "ak_range_count a \<le> max_incoming_ack_ranges"
    using rc k len by (simp add: max_incoming_ack_ranges_def word_le_nat_alt)
  ultimately show "ack_ranges_ok (ak_largest_acked a) (ak_first_range a) (ak_range_count a) (ak_ranges_bytes a)"
    using reads_skip_ranges [OF r] lrs rc by (simp add: ack_ranges_ok_def rb)
  show "ak_largest_acked a \<le> max_value" unfolding la using small_word [OF small] by blast
  show "ak_first_range a \<le> max_value" unfolding fr using small_word [OF lf] by blast
  show "ak_range_count a \<le> max_value" using rc k len by (simp add: word_le_nat_alt)
qed

subsection \<open>Scheduling\<close>

definition owes_ack :: "ack_tracker \<Rightarrow> bool" where
  "owes_ack t \<longleftrightarrow> at_pending_ack t \<or> at_delayed_ack_armed t"

lemma insert_keeps_schedule:
  assumes "tracker_inv t" "at_insert mem t pn = (b, t')"
  shows "at_pending_ack t' = at_pending_ack t" "at_delayed_ack_armed t' = at_delayed_ack_armed t"
    "at_ack_eliciting_since_ack t' = at_ack_eliciting_since_ack t"
    "at_last_ack_eliciting_us t' = at_last_ack_eliciting_us t"
    "at_delayed_ack_start_us t' = at_delayed_ack_start_us t"
    "at_delayed_ack_start_ms t' = at_delayed_ack_start_ms t" "at_largest t' = at_largest t"
proof -
  have i: "prs_inv (at_ranges t)" "length (at_ranges t) \<le> at_capacity t"
    using assms(1) by (simp_all add: tracker_inv_def)
  have "t' = t \<or> (\<exists>r h. t' = t\<lparr>at_ranges := r, at_heap := h\<rparr>)"
    using at_insert_spec [OF i assms(2)] by blast
  then show "at_pending_ack t' = at_pending_ack t" "at_delayed_ack_armed t' = at_delayed_ack_armed t"
    "at_ack_eliciting_since_ack t' = at_ack_eliciting_since_ack t"
    "at_last_ack_eliciting_us t' = at_last_ack_eliciting_us t"
    "at_delayed_ack_start_us t' = at_delayed_ack_start_us t"
    "at_delayed_ack_start_ms t' = at_delayed_ack_start_ms t" "at_largest t' = at_largest t" by auto
qed

lemma at_insert_fresh:
  assumes "tracker_inv t"
  shows "fst (at_insert mem t pn) \<longleftrightarrow> pn \<notin> prs_set (at_ranges t)"
  using at_insert_spec [of t mem pn "fst (at_insert mem t pn)" "snd (at_insert mem t pn)"] assms
  by (simp add: tracker_inv_def)

lemma delayed_owes:
  assumes "tracker_inv t" "owes_ack t \<or> ae \<and> pn \<notin> prs_set (at_ranges t)"
  shows "owes_ack (addPacketDelayed mem t pn now_ms ae th now_us quick reorder)"
proof (cases "at_insert mem t pn")
  case (Pair b t')
  with at_insert_fresh [OF assms(1), of mem pn] insert_keeps_schedule(1,2) [OF assms(1) Pair] assms(2)
  show ?thesis
    by (cases b; cases ae; cases "at_pending_ack t")
       (simp_all add: addPacketDelayed_def owes_ack_def Let_def)
qed

lemma add_us_owes:
  assumes "tracker_inv t" "owes_ack t \<or> ae \<and> pn \<notin> prs_set (at_ranges t)"
  shows "owes_ack (addPacketUs mem t pn now ae)"
proof (cases "at_insert mem t pn")
  case (Pair b t')
  with at_insert_fresh [OF assms(1), of mem pn] insert_keeps_schedule(1,2) [OF assms(1) Pair] assms(2)
  show ?thesis by (cases b; cases ae) (simp_all add: addPacketUs_def owes_ack_def Let_def)
qed

lemma add_owes:
  assumes "tracker_inv t" "owes_ack t \<or> ae \<and> pn \<notin> prs_set (at_ranges t)"
  shows "owes_ack (addPacket mem t pn now ae)"
  using add_us_owes [OF assms, of mem "sat_mul now 1000"] by (simp add: addPacket_def owes_ack_def Let_def)

lemma promote_owes:
  "owes_ack t \<Longrightarrow> owes_ack (snd (promoteDelayedAck t now d))"
  "owes_ack t \<Longrightarrow> owes_ack (snd (promoteDelayedAckUs t now d))"
  by (auto simp: owes_ack_def promoteDelayedAck_def promoteDelayedAckUs_def)

text \<open>A run of delayed additions under one threshold, and the packets in it that ask for an ACK.\<close>

record rx_packet =
  rx_pn :: nat
  rx_now_ms :: nat
  rx_now_us :: nat
  rx_ack_eliciting :: bool

definition rx_step :: "bool \<Rightarrow> nat \<Rightarrow> nat \<Rightarrow> nat \<Rightarrow> ack_tracker \<Rightarrow> rx_packet \<Rightarrow> ack_tracker" where
  "rx_step mem th quick reorder t p =
     addPacketDelayed mem t (rx_pn p) (rx_now_ms p) (rx_ack_eliciting p) th (rx_now_us p) quick reorder"

fun rx_eliciting :: "bool \<Rightarrow> nat \<Rightarrow> nat \<Rightarrow> nat \<Rightarrow> ack_tracker \<Rightarrow> rx_packet list \<Rightarrow> nat" where
  "rx_eliciting mem th quick reorder t [] = 0"
| "rx_eliciting mem th quick reorder t (p # ps) =
     (if rx_ack_eliciting p \<and> rx_pn p \<notin> prs_set (at_ranges t) then 1 else 0)
     + rx_eliciting mem th quick reorder (rx_step mem th quick reorder t p) ps"

definition since_ack :: "ack_tracker \<Rightarrow> nat" where
  "since_ack t = (if at_delayed_ack_armed t then at_ack_eliciting_since_ack t else 0)"

lemma delayed_eliciting:
  assumes inv: "tracker_inv t" and new: "at_insert mem t pn = (True, t')" and "\<not> at_pending_ack t"
    and u_def: "u = addPacketDelayed mem t pn now_ms True th now_us quick reorder"
  shows "at_delayed_ack_armed u \<and> since_ack u = min 255 (since_ack t + 1) \<and>
    (th \<noteq> 0 \<and> th \<le> since_ack u \<longrightarrow> at_pending_ack u)"
  using insert_keeps_schedule [OF inv new] assms(3)
  by (cases "at_delayed_ack_armed t") (simp_all add: u_def addPacketDelayed_def new since_ack_def Let_def)

lemma delayed_other:
  assumes inv: "tracker_inv t" and "\<not> ae \<or> \<not> fst (at_insert mem t pn) \<or> at_pending_ack t"
    and u_def: "u = addPacketDelayed mem t pn now_ms ae th now_us quick reorder"
  shows "at_pending_ack u = at_pending_ack t \<and> since_ack u = since_ack t"
proof (cases "at_insert mem t pn")
  case (Pair b t')
  with insert_keeps_schedule [OF inv Pair] assms(2) show ?thesis
    by (cases b; cases ae) (simp_all add: u_def addPacketDelayed_def Pair since_ack_def Let_def)
qed

lemma rx_step_count:
  assumes inv: "tracker_inv t" and th: "0 < th" "th \<le> 255"
    and p: "\<not> at_pending_ack (rx_step mem th quick reorder t p)"
  shows "\<not> at_pending_ack t \<and> (since_ack t < th \<longrightarrow> since_ack (rx_step mem th quick reorder t p) < th \<and>
     since_ack (rx_step mem th quick reorder t p) =
       since_ack t + (if rx_ack_eliciting p \<and> rx_pn p \<notin> prs_set (at_ranges t) then 1 else 0))"
proof (cases "rx_ack_eliciting p \<and> fst (at_insert mem t (rx_pn p)) \<and> \<not> at_pending_ack t")
  case True
  then obtain t' where t': "at_insert mem t (rx_pn p) = (True, t')" by (cases "at_insert mem t (rx_pn p)") auto
  let ?u = "rx_step mem th quick reorder t p"
  have "at_delayed_ack_armed ?u \<and> since_ack ?u = min 255 (since_ack t + 1) \<and>
      (th \<noteq> 0 \<and> th \<le> since_ack ?u \<longrightarrow> at_pending_ack ?u)"
    by (rule delayed_eliciting [OF inv t']) (use True in \<open>simp_all add: rx_step_def\<close>)
  with True p th at_insert_fresh [OF inv, of mem "rx_pn p"]
  show ?thesis by (auto simp: min_def)
next
  case False
  from delayed_other [OF inv _ refl, of "rx_ack_eliciting p" mem "rx_pn p"] False p
    at_insert_fresh [OF inv, of mem "rx_pn p"]
  show ?thesis by (auto simp: rx_step_def)
qed

lemma rx_step_inv: "tracker_inv t \<Longrightarrow> tracker_inv (rx_step mem th quick reorder t p)"
  by (simp add: rx_step_def addPacketDelayed_inv)

lemma rx_run_count:
  assumes "0 < th" "th \<le> 255"
  shows "tracker_inv t \<Longrightarrow> \<not> at_pending_ack (foldl (rx_step mem th quick reorder) t ps) \<Longrightarrow>
     since_ack t < th \<Longrightarrow>
     since_ack t + rx_eliciting mem th quick reorder t ps < th \<and> \<not> at_pending_ack t"
proof (induction ps arbitrary: t)
  case Nil
  then show ?case by simp
next
  case (Cons p ps)
  let ?u = "rx_step mem th quick reorder t p"
  note u = rx_step_inv [OF Cons.prems(1), of mem th quick reorder p]
  show ?case
  proof (cases "at_pending_ack ?u")
    case False
    note st = rx_step_count [OF Cons.prems(1) assms False]
    with Cons.IH [OF u] Cons.prems(2,3) show ?thesis by auto
  next
    case True
    have "at_pending_ack (foldl (rx_step mem th quick reorder) v qs)"
      if "tracker_inv v" "at_pending_ack v" for v qs
      using that
    proof (induction qs arbitrary: v)
      case Nil
      then show ?case by simp
    next
      case (Cons q qs)
      have "at_pending_ack (rx_step mem th quick reorder v q)"
        using rx_step_count [OF Cons.prems(1) assms, of mem quick reorder q] Cons.prems(2) by auto
      then show ?case using Cons.IH rx_step_inv [OF Cons.prems(1)] by simp
    qed
    with u True Cons.prems(2) show ?thesis by auto
  qed
qed

subsection \<open>Properties\<close>

text \<open>C36: In every reachable state, recording a packet number does to the set of remembered
  numbers what the documentation says.  It reports a duplicate exactly when \<open>contains\<close>
  knows the number, and then changes nothing; otherwise it adds exactly that number, or,
  when the storage is full and cannot move to the heap, adds it after forgetting exactly the
  lowest range.  The ranges stay sorted, disjoint and never adjacent, at most 255 of them
  (8 without a heap block).\<close>

theorem ack_tracker_insert:
  assumes "at_reachable t" "at_insert mem t pn = (fresh, t')"
  shows "(fresh \<longleftrightarrow> \<not> at_contains t pn) \<and> (\<not> fresh \<longrightarrow> t' = t) \<and>
    prs_inv (at_ranges t') \<and> length (at_ranges t') \<le> at_capacity t' \<and>
    (fresh \<longrightarrow>
       prs_set (at_ranges t') = insert pn (prs_set (at_ranges t)) \<or>
       length (at_ranges t) = at_capacity t \<and> \<not> can_grow mem t \<and>
       prs_set (at_ranges t') = insert pn (prs_set (tl (at_ranges t))))"
proof -
  from reachable_inv [OF assms(1)] have i: "prs_inv (at_ranges t)" "length (at_ranges t) \<le> at_capacity t"
    by (simp_all add: tracker_inv_def)
  from at_insert_spec [OF i assms(2)] at_contains_loop_iff [OF i(1)] show ?thesis
    by (auto simp: at_contains_def)
qed

definition sample_tracker :: ack_tracker where
  "sample_tracker = foldl (\<lambda>t pn. addPacketUs True t pn 5 True) (at_init True False) [1, 2, 5, 9, 8]"

lemma sample_tracker_reachable: "at_reachable sample_tracker"
  by (simp add: sample_tracker_def reach_init reach_step [OF _ step_add_us])

lemma sample_tracker_ranges:
  "at_ranges sample_tracker = [\<lparr>pr_smallest = 1, pr_largest = 2\<rparr>, \<lparr>pr_smallest = 5, pr_largest = 5\<rparr>,
     \<lparr>pr_smallest = 8, pr_largest = 9\<rparr>]"
  by code_simp

theorem ack_tracker_insert_witness:
  "fst (at_insert True sample_tracker 3) \<and> \<not> at_contains sample_tracker 3"
  using ack_tracker_insert [OF sample_tracker_reachable, of True 3 "fst (at_insert True sample_tracker 3)"
      "snd (at_insert True sample_tracker 3)"]
  by (simp add: at_contains_def sample_tracker_ranges)

text \<open>C37: The ACK frame built from a reachable tracker says exactly what was received.  With
  any byte and range budget the builder succeeds once a packet was recorded; the frame passes
  the decoder's gate; iterating over it returns the highest \<open>k + 1\<close> ranges of the tracker in
  descending order, so the peer never sees an unreceived number acknowledged; and ranges are
  only left out when the range budget is used up or the next pair does not fit the byte
  budget.\<close>

theorem ack_frame_from_tracker:
  assumes "at_reachable t" "at_largest t = Some m" "m < 2 ^ 62"
  shows "\<exists>a k. toAckFrameLimitedRangesWithEcn t d buf maxb maxl ecn = Inr a \<and>
    unat (ak_range_count a) = k \<and> k \<le> maxl \<and> k < length (at_ranges t) \<and>
    length (ak_ranges_bytes a) \<le> min (length buf) maxb \<and>
    ack_ranges_ok (ak_largest_acked a) (ak_first_range a) (ak_range_count a) (ak_ranges_bytes a) \<and>
    drain (k + 2) (ack_iter a) = Some (Inr (map to_interval (take (k + 1) (rev (at_ranges t))))) \<and>
    (k + 1 = length (at_ranges t) \<or> k = maxl \<or> min (length buf) maxb < length (ak_ranges_bytes a) +
       length (pairs_bytes [gap_pairs (last (at_ranges t)) (rev (butlast (at_ranges t))) ! k]))"
proof -
  have inv: "tracker_inv t" by (rule reachable_inv [OF assms(1)])
  then have i: "prs_inv (at_ranges t)" "length (at_ranges t) \<le> 255" "at_ranges t \<noteq> []"
    "pr_largest (last (at_ranges t)) < 2 ^ 62"
    using assms(2,3) by (auto simp: tracker_inv_def at_capacity_def max_ranges_def inline_ranges_def
        split: if_splits)
  from ack_frame_spec [OF i(1,3,4,2)] obtain a k where a:
    "toAckFrameLimitedRangesWithEcn t d buf maxb maxl ecn = Inr a"
    "k \<le> length (at_ranges t) - 1" "k \<le> maxl" "unat (ak_range_count a) = k"
    "ak_largest_acked a = word_of_nat (pr_largest (last (at_ranges t)))"
    "ak_ranges_bytes a = pairs_bytes (gap_pairs (last (at_ranges t)) (take k (rev (butlast (at_ranges t)))))"
    "length (ak_ranges_bytes a) \<le> min (length buf) maxb"
    "k = length (at_ranges t) - 1 \<or> k = maxl \<or> min (length buf) maxb < length (ak_ranges_bytes a) +
       length (pairs_bytes [gap_pairs (last (at_ranges t)) (rev (butlast (at_ranges t))) ! k])"
    "ak_first_range a = word_of_nat (pr_largest (last (at_ranges t)) - pr_smallest (last (at_ranges t)))"
    by blast
  note r = built_frame_reads [OF i(1,3,4,2) a(2,6,4,5,9)]
  have lt: "k < length (at_ranges t)" "k = length (at_ranges t) - 1 \<longleftrightarrow> k + 1 = length (at_ranges t)"
    using a(2) i(3) by (cases "at_ranges t"; simp)+
  show ?thesis
    by (intro exI [of _ a] exI [of _ k]) (use a(1,3,4,7,8) r(1,2) lt in blast)
qed

lemma sample_tracker_eq:
  "sample_tracker = (at_init True False)\<lparr>at_ranges := at_ranges sample_tracker, at_largest := Some 9,
     at_largest_at_us := 5, at_pending_ack := True\<rparr>"
  by code_simp

lemma sample_tracker_largest: "at_largest sample_tracker = Some 9"
  by (subst sample_tracker_eq) simp

theorem ack_frame_from_tracker_witness:
  "\<exists>a k. toAckFrameLimitedRangesWithEcn sample_tracker 0 (replicate 3 0) 3 10 None = Inr a \<and>
     drain (k + 2) (ack_iter a) = Some (Inr (map to_interval (take (k + 1) (rev (at_ranges sample_tracker)))))"
  using ack_frame_from_tracker [OF sample_tracker_reachable sample_tracker_largest,
      of 0 "replicate 3 0" 3 10 None] by auto

text \<open>C38: An ACK obligation is not lost by accident.  From any reachable state, an ACK-eliciting
  packet seen for the first time leaves the tracker owing an ACK (pending, or armed with a
  deadline), whichever entry point records it; only sending it (\<open>markAckSent\<close>), \<open>reset\<close> and
  the discarding of the space's keys, after which it could not be sent, drop an obligation;
  it always has a base time for the deadline; and once the maximum delay has passed since
  that time, promotion makes it pending.\<close>

theorem ack_obligation_kept:
  assumes "at_reachable t"
  shows "(pn \<notin> prs_set (at_ranges t) \<longrightarrow>
       owes_ack (addPacketDelayed mem t pn now_ms True th now_us quick reorder)
       \<and> owes_ack (addPacketUs mem t pn now_us True) \<and> owes_ack (addPacket mem t pn now_ms True)) \<and>
    (owes_ack t \<and> at_step t t' \<longrightarrow>
       owes_ack t' \<or> t' = markAckSent t \<or> t' = at_reset t \<or> t' = dropSpaceAck t) \<and>
    (owes_ack t \<longleftrightarrow> ackDelayBaseUs t \<noteq> None) \<and>
    (owes_ack t \<and> sat_add (delayed_start_us t) d \<le> now \<longrightarrow>
       at_pending_ack (snd (promoteDelayedAckUs t now d)))"
proof (intro conjI)
  have i: "tracker_inv t" by (rule reachable_inv [OF assms])
  show "pn \<notin> prs_set (at_ranges t) \<longrightarrow>
       owes_ack (addPacketDelayed mem t pn now_ms True th now_us quick reorder)
       \<and> owes_ack (addPacketUs mem t pn now_us True) \<and> owes_ack (addPacket mem t pn now_ms True)"
    using delayed_owes [OF i] add_us_owes [OF i] add_owes [OF i] by simp
  show "owes_ack t \<and> at_step t t' \<longrightarrow>
       owes_ack t' \<or> t' = markAckSent t \<or> t' = at_reset t \<or> t' = dropSpaceAck t"
    using delayed_owes [OF i] add_us_owes [OF i] add_owes [OF i] promote_owes
    by (auto elim!: at_step.cases)
  show "owes_ack t \<longleftrightarrow> ackDelayBaseUs t \<noteq> None"
    by (auto simp: owes_ack_def ackDelayBaseUs_def)
  show "owes_ack t \<and> sat_add (delayed_start_us t) d \<le> now \<longrightarrow>
       at_pending_ack (snd (promoteDelayedAckUs t now d))"
    by (auto simp: owes_ack_def promoteDelayedAckUs_def)
qed

lemma sample_tracker_owes: "owes_ack sample_tracker"
  unfolding owes_ack_def by code_simp

theorem ack_obligation_kept_witness:
  "ackDelayBaseUs sample_tracker \<noteq> None \<and>
   owes_ack (addPacketDelayed True sample_tracker 3 7 True 2 7000 0 1)"
  using ack_obligation_kept [OF sample_tracker_reachable, of 3 True 7 2 7000 0 1] sample_tracker_owes
  by (simp add: sample_tracker_ranges pr_set_def)

text \<open>C39: The packet threshold bounds how many ACK-eliciting packets can wait.  After an ACK was
  sent from a reachable state, any run of received packets that leaves no ACK pending holds
  fewer than \<open>packet_threshold\<close> new ACK-eliciting packets, whatever the clocks, the quiet rule
  and the reordering rule are.\<close>

theorem ack_threshold_bound:
  assumes "at_reachable t" "0 < th" "th \<le> 255"
    and "\<not> at_pending_ack (foldl (rx_step mem th quick reorder) (markAckSent t) ps)"
  shows "rx_eliciting mem th quick reorder (markAckSent t) ps < th"
proof -
  have "tracker_inv (markAckSent t)" by (rule other_ops_inv(1) [OF reachable_inv [OF assms(1)]])
  from rx_run_count [OF assms(2,3) this assms(4)] assms(2) show ?thesis
    by (simp add: since_ack_def markAckSent_def)
qed

definition sample_rx :: "rx_packet list" where
  "sample_rx = [\<lparr>rx_pn = 10, rx_now_ms = 0, rx_now_us = 6, rx_ack_eliciting = True\<rparr>,
     \<lparr>rx_pn = 11, rx_now_ms = 0, rx_now_us = 7, rx_ack_eliciting = False\<rparr>]"

theorem ack_threshold_bound_witness:
  "\<not> at_pending_ack (foldl (rx_step True 2 0 1) (markAckSent sample_tracker) sample_rx) \<and>
   rx_eliciting True 2 0 1 (markAckSent sample_tracker) sample_rx < 2"
proof -
  have p: "\<not> at_pending_ack (foldl (rx_step True 2 0 1) (markAckSent sample_tracker) sample_rx)"
    by (subst sample_tracker_eq)
       (simp add: sample_tracker_ranges sample_rx_def rx_step_def addPacketDelayed_def at_insert_def
         at_init_def markAckSent_def new_largest_def sat_sub_def sat_add_def u64_max_def)
  from p ack_threshold_bound [OF sample_tracker_reachable _ _ p] show ?thesis by simp
qed

end
