(* ===== verification/Packet_Number.thy ===== *)
theory Packet_Number
  imports Varint
begin

text \<open>
  Model of \<open>src/src/wire/packet_number.zig\<close>: how many bytes of a packet number the sender
  puts on the wire (the rule of RFC 9000 A.2 and the sender's own policy), truncation, the
  big-endian encoding, and the receiver's recovery of the full number (A.3).  Packet numbers
  are 64-bit words holding values up to \<open>2 ^ 62 - 1\<close>; \<open>pn + 1\<close> of the source, which
  traps on overflow, is only reached below that bound.
\<close>

definition sat_mul_u64 :: "u64 \<Rightarrow> u64 \<Rightarrow> u64" where
  "sat_mul_u64 a b = (if unat a * unat b < 2 ^ 64 then a * b else - 1)"

definition sat_add_u64 :: "u64 \<Rightarrow> u64 \<Rightarrow> u64" where
  "sat_add_u64 a b = (if unat a + unat b < 2 ^ 64 then a + b else - 1)"

subsection \<open>Choosing a length\<close>

function encodedLength_loop :: "u64 \<Rightarrow> u64 \<Rightarrow> nat \<Rightarrow> wire_error + nat" where
  "encodedLength_loop target rng bits =
     (if rng < target then
        (if bits \<ge> 32 then Inl UnacknowledgedTooFar
         else encodedLength_loop target (push_bit 1 rng) (bits + 1))
      else Inr bits)"
  by pat_completeness auto
termination
  by (relation "measure (\<lambda>(t, r, bits). 32 - bits)") auto

declare encodedLength_loop.simps [simp del]

definition encodedLength :: "u64 \<Rightarrow> u64 option \<Rightarrow> wire_error + nat" where
  "encodedLength pn_to_send largest_acked =
     zbind (case largest_acked of
              Some la \<Rightarrow> (if pn_to_send \<le> la then Inl InvalidLength else Inr (pn_to_send - la))
            | None \<Rightarrow> Inr (pn_to_send + 1)) (\<lambda>num_unacked.
     zbind (encodedLength_loop (sat_mul_u64 2 num_unacked) 2 1) (\<lambda>bits.
     if bits \<le> 8 then Inr 1 else if bits \<le> 16 then Inr 2
     else if bits \<le> 24 then Inr 3 else if bits \<le> 32 then Inr 4
     else Inl UnacknowledgedTooFar))"

definition chooseLength :: "u64 \<Rightarrow> u64 option \<Rightarrow> nat" where
  "chooseLength pn largest_acked =
     (let space = (case largest_acked of
                     Some la \<Rightarrow> (if pn > la then pn - la else 1)
                   | None \<Rightarrow> - 1)
      in if space < push_bit 15 1 then 2 else if space < push_bit 23 1 then 3 else 4)"

subsection \<open>Truncation and the wire form\<close>

definition truncate :: "u64 \<Rightarrow> nat \<Rightarrow> u64" where
  "truncate pn len =
     (if len \<ge> 8 then pn else pn AND (push_bit (len * 8) 1 - 1))"

definition pn_encode :: "byte list \<Rightarrow> u64 \<Rightarrow> nat \<Rightarrow> wire_error + byte list" where
  "pn_encode dst pn len =
     (if len < 1 \<or> len > 4 then Inl InvalidLength
      else if length dst < len then Inl BufferTooSmall
      else Inr (encodeFixed_loop dst pn len len))"

definition readTruncated :: "byte list \<Rightarrow> nat \<Rightarrow> wire_error + u64" where
  "readTruncated src len =
     (if len < 1 \<or> len > 4 then Inl InvalidLength
      else if length src < len then Inl InsufficientBytes
      else Inr (decode_loop src 0 0 len))"

subsection \<open>Recovery\<close>

definition pn_decode :: "u64 \<Rightarrow> nat \<Rightarrow> u64 \<Rightarrow> wire_error + u64" where
  "pn_decode truncated len largest_pn =
     (if len < 1 \<or> len > 4 then Inl InvalidLength
      else let pn_win = push_bit (len * 8) (1 :: u64); pn_hwin = pn_win div 2;
               pn_mask = pn_win - 1;
               expected_pn = (if largest_pn \<ge> max_value then max_value else largest_pn + 1);
               candidate = (expected_pn AND NOT pn_mask) OR (truncated AND pn_mask)
        in if expected_pn \<ge> pn_hwin \<and> candidate \<le> expected_pn - pn_hwin
              \<and> candidate < max_value + 1 - pn_win
           then Inr (candidate + pn_win)
           else if candidate > sat_add_u64 expected_pn pn_hwin \<and> candidate \<ge> pn_win
           then Inr (candidate - pn_win)
           else Inr candidate)"

subsection \<open>The arithmetic behind the masks\<close>

lemma unat_pn_win: "len \<le> 4 \<Longrightarrow> unat (push_bit (len * 8) (1 :: u64)) = 256 ^ len"
proof -
  assume "len \<le> 4"
  then have "len \<in> {0, 1, 2, 3, 4}" by auto
  then show ?thesis by auto
qed

lemma and_mask_unat: "k < 64 \<Longrightarrow> unat ((x :: u64) AND (push_bit k 1 - 1)) = unat x mod 2 ^ k"
proof -
  assume "k < 64"
  have "x AND (push_bit k 1 - 1) = take_bit k x"
    by (simp add: take_bit_eq_mask mask_eq_exp_minus_1 push_bit_eq_mult)
  then show ?thesis by (simp only: unsigned_take_bit_eq) (simp only: take_bit_eq_mod)
qed

lemma candidate_unat:
  assumes "k < 64"
  shows "unat (((e :: u64) AND NOT (push_bit k 1 - 1)) OR (t AND (push_bit k 1 - 1)))
    = unat e div 2 ^ k * 2 ^ k + unat t mod 2 ^ k"
proof -
  let ?m = "push_bit k 1 - 1 :: u64"
  have m: "?m = mask k" by (simp add: mask_eq_exp_minus_1 push_bit_eq_mult)
  have hi: "e AND NOT ?m = push_bit k (drop_bit k e)"
    unfolding m by (rule bit_word_eqI) (auto simp: bit_simps)
  have lo: "t AND ?m = take_bit k t" unfolding m by (simp add: take_bit_eq_mask)
  have disj: "push_bit k (drop_bit k e) AND take_bit k t = 0"
    by (rule bit_word_eqI) (auto simp: bit_simps)
  have "e AND NOT ?m OR (t AND ?m) = push_bit k (drop_bit k e) + take_bit k t"
    using disjunctive_add_eq_or [OF disj] hi lo by simp
  moreover have u: "unat (push_bit k (drop_bit k e)) = unat e div 2 ^ k * 2 ^ k"
  proof -
    have "unat e div 2 ^ k * 2 ^ k \<le> unat e" by simp
    also have "unat e < 2 ^ 64" using unsigned_less [of e] by simp
    finally have small: "unat e div 2 ^ k * 2 ^ k < 2 ^ 64" .
    have d: "unat (drop_bit k e) = unat e div 2 ^ k"
      by (simp only: unat_drop_bit_eq) (simp only: drop_bit_eq_div)
    have "push_bit k (drop_bit k e) = word_of_nat (unat (drop_bit k e) * 2 ^ k)"
      by (simp add: push_bit_eq_mult)
    then have "unat (push_bit k (drop_bit k e)) = (unat e div 2 ^ k * 2 ^ k) mod 2 ^ 64"
      by (simp only: d unat_of_nat) simp
    with small show ?thesis by simp
  qed
  moreover have v: "unat (take_bit k t) = unat t mod 2 ^ k"
    by (simp only: unsigned_take_bit_eq) (simp only: take_bit_eq_mod)
  moreover have "unat e div 2 ^ k * 2 ^ k + unat t mod 2 ^ k < 2 ^ 64"
  proof -
    have "unat e div 2 ^ k * 2 ^ k + unat t mod 2 ^ k < (unat e div 2 ^ k + 1) * 2 ^ k" by simp
    also have "\<dots> \<le> 2 ^ 64"
    proof -
      have "unat e < 2 ^ (64 - k) * 2 ^ k"
        using unsigned_less [of e] assms by (simp flip: power_add)
      then have "unat e div 2 ^ k < 2 ^ (64 - k)" by (simp add: less_mult_imp_div_less)
      then have "(unat e div 2 ^ k + 1) * 2 ^ k \<le> 2 ^ (64 - k) * 2 ^ k" by (intro mult_right_mono) simp_all
      then show ?thesis using assms by (simp flip: power_add)
    qed
    finally show ?thesis .
  qed
  ultimately show ?thesis by (simp add: unat_word_ariths)
qed

lemma unat_sat_add_u64: "unat (sat_add_u64 a b) = min (unat a + unat b) (2 ^ 64 - 1)"
  by (auto simp: sat_add_u64_def unat_word_ariths unsigned_minus_1_eq_mask mask_eq_exp_minus_1)

text \<open>The recovered number, in arithmetic on naturals.\<close>

definition pn_recover :: "nat \<Rightarrow> nat \<Rightarrow> nat \<Rightarrow> nat" where
  "pn_recover win t e =
     (let c = e div win * win + t mod win
      in if win div 2 \<le> e \<and> c \<le> e - win div 2 \<and> c < 2 ^ 62 - win then c + win
         else if c > e + win div 2 \<and> c \<ge> win then c - win else c)"

lemma pn_decode_eq:
  assumes len: "1 \<le> len" "len \<le> 4" and l: "largest \<le> max_value"
  shows "\<exists>r. pn_decode t len largest = Inr r \<and>
    unat r = pn_recover (256 ^ len) (unat t) (min (unat largest + 1) (2 ^ 62 - 1))"
proof -
  define w where "w = push_bit (len * 8) (1 :: u64)"
  define e where "e = (if largest \<ge> max_value then max_value else largest + 1)"
  define c where "c = (e AND NOT (w - 1)) OR (t AND (w - 1))"
  define W where "W = (256 :: nat) ^ len"
  have win: "unat w = W" using unat_pn_win [OF len(2)] by (simp only: w_def W_def)
  have "(256 :: nat) ^ len \<le> 256 ^ 4" using len by (intro power_increasing) simp_all
  then have W_le: "W \<le> 2 ^ 32" by (simp add: W_def)
  have W_pos: "0 < W" by (simp add: W_def)
  have pw: "(2 :: nat) ^ (len * 8) = W" by (simp add: W_def power_mult mult.commute [of len 8])
  have e: "unat e = min (unat largest + 1) (2 ^ 62 - 1)"
    using l by (auto simp: e_def word_le_nat_alt not_le unat_word_ariths)
  have c: "unat c = unat e div W * W + unat t mod W"
    using candidate_unat [of "len * 8" e t] len by (simp only: c_def w_def pw)
  have hw: "unat (w div 2) = W div 2" using win by (simp add: unat_div)
  have m1: "unat (max_value + 1) = 2 ^ 62" by (simp add: max_value_def)
  have "w \<le> max_value + 1" using m1 win W_le by (simp add: word_le_nat_alt)
  then have top: "unat (max_value + 1 - w) = 2 ^ 62 - W" using win m1 by (simp add: unat_sub)
  have c_lt: "unat c < 2 ^ 62 + W"
  proof -
    have "unat e div W * W \<le> unat e" by simp
    moreover have "unat t mod W < W" using W_pos by simp
    ultimately show ?thesis using c e by linarith
  qed
  have cond1: "(w div 2 \<le> e \<and> c \<le> e - w div 2 \<and> c < max_value + 1 - w) \<longleftrightarrow>
      W div 2 \<le> unat e \<and> unat c \<le> unat e - W div 2 \<and> unat c < 2 ^ 62 - W"
    using hw top by (auto simp only: word_le_nat_alt word_less_nat_alt unat_sub)
  have sat: "unat (sat_add_u64 e (w div 2)) = unat e + W div 2"
  proof -
    have "unat e \<le> 2 ^ 62 - 1" using e by simp
    with W_le have "unat e + W div 2 < 2 ^ 64" by simp
    then show ?thesis using hw by (simp add: unat_sat_add_u64)
  qed
  have cond2: "(sat_add_u64 e (w div 2) < c \<and> w \<le> c) \<longleftrightarrow> unat e + W div 2 < unat c \<and> W \<le> unat c"
    using sat win by (simp only: word_le_nat_alt word_less_nat_alt)
  have add: "unat (c + w) = unat c + W"
  proof -
    have "unat c + W < 2 ^ 64" using c_lt W_le by simp
    then show ?thesis using win by (simp add: unat_word_ariths)
  qed
  have sub: "W \<le> unat c \<Longrightarrow> unat (c - w) = unat c - W"
    using win by (simp add: unat_sub word_le_nat_alt)
  have "pn_decode t len largest = Inr (if w div 2 \<le> e \<and> c \<le> e - w div 2 \<and> c < max_value + 1 - w
      then c + w else if sat_add_u64 e (w div 2) < c \<and> w \<le> c then c - w else c)"
    using len by (simp only: pn_decode_def Let_def w_def e_def c_def) simp
  moreover have "unat (if w div 2 \<le> e \<and> c \<le> e - w div 2 \<and> c < max_value + 1 - w
      then c + w else if sat_add_u64 e (w div 2) < c \<and> w \<le> c then c - w else c)
      = pn_recover W (unat t) (unat e)"
    unfolding pn_recover_def Let_def c [symmetric] cond1 cond2 using add sub by auto
  ultimately show ?thesis using e by (auto simp: W_def)
qed

lemma mod_window_cases:
  fixes p e win h :: nat
  assumes "win = 2 * h" "0 < h" "e < p + h" "p \<le> e + h"
  shows "p div win = e div win \<or> p div win = e div win + 1 \<or> p div win + 1 = e div win"
proof -
  have p: "p = p div win * win + p mod win" and e: "e = e div win * win + e mod win" by simp_all
  have b: "p mod win < win" "e mod win < win" using assms by simp_all
  have "p div win < e div win + 2"
  proof (rule ccontr)
    assume "\<not> ?thesis"
    then have "(e div win + 2) * win \<le> p div win * win" by (intro mult_right_mono) simp_all
    then have "e div win * win + 2 * win \<le> p div win * win" by (simp only: add_mult_distrib)
    then show False using p e b assms by linarith
  qed
  moreover have "e div win < p div win + 2"
  proof (rule ccontr)
    assume "\<not> ?thesis"
    then have "(p div win + 2) * win \<le> e div win * win" by (intro mult_right_mono) simp_all
    then have "p div win * win + 2 * win \<le> e div win * win" by (simp only: add_mult_distrib)
    then show False using p e b assms by linarith
  qed
  ultimately show ?thesis by linarith
qed

lemma pn_recover_correct:
  assumes win: "win = 2 * h" "0 < h" "win \<le> 2 ^ 32" and p: "p < 2 ^ 62" and e: "e < 2 ^ 62"
    and lo: "e < p + h" and hi: "p \<le> e + h"
  shows "pn_recover win (p mod win) e = p"
proof -
  define c where "c = e div win * win + p mod win"
  have p_eq: "p = p div win * win + p mod win" and e_eq: "e = e div win * win + e mod win" by simp_all
  have b: "p mod win < win" "e mod win < win" using win by simp_all
  have rec: "pn_recover win (p mod win) e =
      (if h \<le> e \<and> c \<le> e - h \<and> c < 2 ^ 62 - win then c + win
       else if c > e + h \<and> c \<ge> win then c - win else c)"
    using win(1) by (simp add: pn_recover_def Let_def c_def)
  from mod_window_cases [OF win(1,2) lo hi]
  consider (same) "p div win = e div win" | (up) "p div win = e div win + 1"
    | (down) "p div win + 1 = e div win" by blast
  then show ?thesis
  proof cases
    case same
    then have "c = p" using p_eq by (simp add: c_def)
    with lo hi win(2) show ?thesis unfolding rec by auto
  next
    case up
    then have "c + win = p" using p_eq by (simp add: c_def algebra_simps)
    with hi p win(1) show ?thesis unfolding rec by auto
  next
    case down
    have "e div win * win = p div win * win + win" using down by (metis add_mult_distrib mult_1)
    then have "c = p + win" using p_eq by (simp add: c_def)
    with lo hi p win(1) show ?thesis unfolding rec by auto
  qed
qed

text \<open>The receiver recovers every packet number within half a window of the next expected one.\<close>

lemma truncate_unat: "len \<le> 4 \<Longrightarrow> unat (truncate pn len) = unat pn mod 256 ^ len"
  using and_mask_unat [of "len * 8" pn] by (simp add: truncate_def power_mult mult.commute [of len 8])

lemma pn_decode_truncate:
  assumes len: "1 \<le> len" "len \<le> 4" and pn: "pn \<le> max_value" and l: "largest \<le> max_value"
    and lo: "min (unat largest + 1) (2 ^ 62 - 1) < unat pn + 256 ^ len div 2"
    and hi: "unat pn \<le> min (unat largest + 1) (2 ^ 62 - 1) + 256 ^ len div 2"
  shows "pn_decode (truncate pn len) len largest = Inr pn"
proof -
  obtain r where r: "pn_decode (truncate pn len) len largest = Inr r"
    "unat r = pn_recover (256 ^ len) (unat pn mod 256 ^ len) (min (unat largest + 1) (2 ^ 62 - 1))"
    using pn_decode_eq [OF len l, of "truncate pn len"] truncate_unat [OF len(2), of pn] by auto
  have le: "(256 :: nat) ^ len \<le> 256 ^ 4" using len by (intro power_increasing) simp_all
  have ev: "(256 :: nat) ^ len = 2 * (256 ^ len div 2)" using len by (cases len) simp_all
  have "0 < (256 :: nat) ^ len div 2" using len by (cases len) simp_all
  moreover have "unat pn < 2 ^ 62" using pn by (simp add: word_le_nat_alt)
  ultimately have "unat r = unat pn"
    unfolding r(2) using ev le lo hi by (intro pn_recover_correct) simp_all
  then have "r = pn" by (rule unsigned_word_eqI)
  with r(1) show ?thesis by simp
qed

subsection \<open>The length rules\<close>

lemma encodedLength_loop_spec:
  "1 \<le> b \<Longrightarrow> b \<le> 32 \<Longrightarrow> unat rng = 2 ^ b \<Longrightarrow>
   (case encodedLength_loop target rng b of
      Inr b' \<Rightarrow> b \<le> b' \<and> b' \<le> 32 \<and> unat target \<le> 2 ^ b' \<and> (b < b' \<longrightarrow> 2 ^ (b' - 1) < unat target)
    | Inl e \<Rightarrow> e = UnacknowledgedTooFar \<and> 2 ^ 32 < unat target)"
proof (induction target rng b rule: encodedLength_loop.induct)
  case (1 target rng b)
  note unfold = encodedLength_loop.simps [of target rng b]
  show ?case
  proof (cases "rng < target")
    case False
    with "1.prems" show ?thesis by (simp add: unfold word_less_nat_alt not_less)
  next
    case less: True
    then have lt: "2 ^ b < unat target" using "1.prems"(3) by (simp add: word_less_nat_alt)
    show ?thesis
    proof (cases "b \<ge> 32")
      case True
      with "1.prems"(2) have "b = 32" by simp
      with less lt True show ?thesis by (simp add: encodedLength_loop.simps [of target rng 32])
    next
      case False
      have "(2 :: nat) ^ b \<le> 2 ^ 31" using False by (intro power_increasing) simp_all
      then have "unat (push_bit 1 rng) = 2 ^ (b + 1)"
        using "1.prems"(3) by (simp add: push_bit_eq_mult unat_word_ariths)
      then have "case encodedLength_loop target (push_bit 1 rng) (b + 1) of
          Inr b' \<Rightarrow> b + 1 \<le> b' \<and> b' \<le> 32 \<and> unat target \<le> 2 ^ b' \<and>
              (b + 1 < b' \<longrightarrow> 2 ^ (b' - 1) < unat target)
        | Inl e \<Rightarrow> e = UnacknowledgedTooFar \<and> 2 ^ 32 < unat target"
        using less False by (intro "1.IH") simp_all
      then show ?thesis using less False lt
        by (auto simp: unfold split: sum.splits)
    qed
  qed
qed

definition num_unacked :: "u64 \<Rightarrow> u64 option \<Rightarrow> nat" where
  "num_unacked pn la = (case la of None \<Rightarrow> unat pn + 1 | Some l \<Rightarrow> unat pn - unat l)"

lemma unat_sat_mul_2: "unat (sat_mul_u64 2 n) = min (2 * unat n) (2 ^ 64 - 1)"
  by (auto simp: sat_mul_u64_def unat_word_ariths unsigned_minus_1_eq_mask mask_eq_exp_minus_1)

lemma encodedLength_Inr:
  assumes ok: "encodedLength pn la = Inr n" and pn: "pn \<le> max_value"
  shows "1 \<le> n \<and> n \<le> 4 \<and> 2 * num_unacked pn la \<le> 256 ^ n \<and>
    (1 < n \<longrightarrow> 256 ^ (n - 1) < 2 * num_unacked pn la) \<and> (\<forall>l. la = Some l \<longrightarrow> l < pn)"
proof -
  have pn_le: "unat pn < 2 ^ 62" using pn by (simp add: word_le_nat_alt)
  obtain k b where k: "(case la of Some l \<Rightarrow> (if pn \<le> l then Inl InvalidLength else Inr (pn - l))
      | None \<Rightarrow> Inr (pn + 1)) = Inr k"
    and b: "encodedLength_loop (sat_mul_u64 2 k) 2 1 = Inr b"
    and n': "(if b \<le> 8 then Inr 1 else if b \<le> 16 then Inr 2 else if b \<le> 24 then Inr 3
        else if b \<le> 32 then Inr 4 else Inl UnacknowledgedTooFar) = Inr n"
    using ok unfolding encodedLength_def zbind_eq_Inr by blast
  have n: "n = (if b \<le> 8 then 1 else if b \<le> 16 then 2 else if b \<le> 24 then 3 else 4)" "b \<le> 32"
    using n' by (auto split: if_splits)
  have uk: "unat k = num_unacked pn la"
    using k pn_le by (auto simp: num_unacked_def unat_sub unat_word_ariths word_le_nat_alt
        split: option.splits if_splits)
  have k_le: "unat k \<le> 2 ^ 62" using uk pn_le by (auto simp: num_unacked_def split: option.splits)
  then have t: "unat (sat_mul_u64 2 k) = 2 * num_unacked pn la" by (simp add: unat_sat_mul_2 uk [symmetric])
  have spec: "2 * num_unacked pn la \<le> 2 ^ b" "1 < b \<Longrightarrow> 2 ^ (b - 1) < 2 * num_unacked pn la" "1 \<le> b"
    using encodedLength_loop_spec [of 1 2 "sat_mul_u64 2 k"] b t by simp_all
  have "(2 :: nat) ^ b \<le> 2 ^ (8 * n)" using n by (intro power_increasing) (auto split: if_splits)
  then have up: "2 * num_unacked pn la \<le> 256 ^ n" using spec(1) by (simp add: power_mult)
  have low: "256 ^ (n - 1) < 2 * num_unacked pn la" if "1 < n"
  proof -
    have "8 * (n - 1) \<le> b - 1" "1 < b" using that n by (auto split: if_splits)
    then have "(2 :: nat) ^ (8 * (n - 1)) \<le> 2 ^ (b - 1)" by (intro power_increasing) simp_all
    with spec(2) [OF \<open>1 < b\<close>] show ?thesis by (simp add: power_mult)
  qed
  show ?thesis using n up low k by (auto simp: not_le split: option.splits if_splits)
qed

lemma encodedLength_too_far:
  assumes "pn \<le> max_value" "encodedLength pn la = Inl UnacknowledgedTooFar"
  shows "2 ^ 31 < num_unacked pn la"
proof -
  have pn_le: "unat pn < 2 ^ 62" using assms(1) by (simp add: word_le_nat_alt)
  from assms(2) obtain k where k: "(case la of Some l \<Rightarrow> (if pn \<le> l then Inl InvalidLength else Inr (pn - l))
      | None \<Rightarrow> Inr (pn + 1)) = Inr k"
    and "encodedLength_loop (sat_mul_u64 2 k) 2 1 = Inl UnacknowledgedTooFar \<or>
      (\<exists>b. encodedLength_loop (sat_mul_u64 2 k) 2 1 = Inr b \<and> 32 < b)"
    by (auto simp: encodedLength_def zbind_eq_Inl split: if_splits option.splits)
  then have "2 ^ 32 < unat (sat_mul_u64 2 k)"
    using encodedLength_loop_spec [of 1 2 "sat_mul_u64 2 k"] by auto
  moreover have "unat k = num_unacked pn la"
    using k pn_le by (auto simp: num_unacked_def unat_sub unat_word_ariths word_le_nat_alt
        split: option.splits if_splits)
  ultimately show ?thesis by (simp add: unat_sat_mul_2)
qed

text \<open>The RFC rule is enough for the receiver: any largest between the acknowledged one and the
  packet itself recovers the number.\<close>

lemma encodedLength_sufficient:
  assumes "encodedLength pn (Some la) = Inr n" "pn \<le> max_value" "la \<le> largest" "largest < pn"
  shows "pn_decode (truncate pn n) n largest = Inr pn"
proof -
  from encodedLength_Inr [OF assms(1,2)] have n: "1 \<le> n" "n \<le> 4"
    "2 * (unat pn - unat la) \<le> 256 ^ n" by (auto simp: num_unacked_def)
  have pn: "unat pn \<le> 2 ^ 62 - 1" using assms(2) by (simp add: word_le_nat_alt)
  have l: "unat la \<le> unat largest" "unat largest < unat pn" using assms(3,4)
    by (simp_all add: word_le_nat_alt word_less_nat_alt)
  show ?thesis
    using n l pn by (intro pn_decode_truncate) (auto simp: word_le_nat_alt)
qed

text \<open>The sender's policy is never shorter than the RFC rule.\<close>

lemma chooseLength_ge:
  assumes "encodedLength pn la = Inr n" "pn \<le> max_value"
  shows "n \<le> chooseLength pn la"
proof -
  note spec = encodedLength_Inr [OF assms]
  show ?thesis
  proof (cases la)
    case None
    then show ?thesis using spec
      by (simp add: chooseLength_def word_less_nat_alt unsigned_minus_1_eq_mask mask_eq_exp_minus_1)
  next
    case (Some l)
    have gt: "l < pn" using spec Some by simp
    then have d: "unat (pn - l) = unat pn - unat l" by (simp add: unat_sub)
    have "n = 1 \<or> n = 2 \<or> n = 3 \<or> n = 4" using spec by auto
    then show ?thesis
      using spec Some gt d by (auto simp: chooseLength_def num_unacked_def word_less_nat_alt)
  qed
qed

lemma chooseLength_range: "chooseLength pn la \<in> {2, 3, 4}"
  by (simp add: chooseLength_def Let_def)

text \<open>The window the policy leaves: with \<open>pn - la\<close> below \<open>2 ^ 31\<close> the receiver recovers the
  number unless it has already seen half a window beyond it.\<close>

lemma chooseLength_sufficient:
  assumes pn: "pn \<le> max_value" and la: "la < pn" "unat pn - unat la \<le> 2 ^ 31"
    and l: "la \<le> largest" "unat largest + 1 < unat pn + 256 ^ chooseLength pn (Some la) div 2"
      "largest \<le> max_value"
  shows "pn_decode (truncate pn (chooseLength pn (Some la))) (chooseLength pn (Some la)) largest = Inr pn"
proof -
  let ?n = "chooseLength pn (Some la)"
  have d: "unat (pn - la) = unat pn - unat la" using la(1) by (simp add: unat_sub)
  have win: "unat pn - unat la \<le> 256 ^ ?n div 2"
    using la d by (auto simp: chooseLength_def word_less_nat_alt)
  have n: "1 \<le> ?n" "?n \<le> 4" using chooseLength_range [of pn "Some la"] by auto
  have "unat pn \<le> 2 ^ 62 - 1" using pn by (simp add: word_le_nat_alt)
  moreover have "unat la \<le> unat largest" using l(1) by (simp add: word_le_nat_alt)
  ultimately show ?thesis
    using n win l by (intro pn_decode_truncate) (auto simp: pn min_def)
qed

subsection \<open>Wire form\<close>

lemma pn_encode_eq:
  "1 \<le> len \<Longrightarrow> len \<le> 4 \<Longrightarrow> pn_encode dst pn len =
     (if length dst < len then Inl BufferTooSmall else Inr (be_bytes len (unat pn) @ drop len dst))"
  using encodeFixed_loop_eq [of len len dst pn] by (simp add: pn_encode_def)

lemma decode_loop_be_val:
  "i \<le> len \<Longrightarrow> len \<le> 7 \<Longrightarrow> len \<le> length src \<Longrightarrow> unat v < 256 ^ i \<Longrightarrow>
   unat (decode_loop src v i len) = unat v * 256 ^ (len - i) + be_val (take (len - i) (drop i src))"
proof (induction src v i len rule: decode_loop.induct)
  case (1 src v i len)
  show ?case
  proof (cases "i < len")
    case False
    with "1.prems" show ?thesis by (simp add: decode_loop.simps)
  next
    case True
    let ?b = "src ! i"
    let ?v = "push_bit 8 v OR ucast ?b :: u64"
    have "(256 :: nat) ^ i \<le> 256 ^ 6" using True "1.prems" by (intro power_increasing) simp_all
    then have "unat v < 2 ^ 56" using "1.prems"(4) by simp
    then have v: "unat ?v = unat v * 256 + unat ?b" by (rule unat_shift_or_small)
    have "(unat v + 1) * 256 \<le> 256 ^ i * 256" using "1.prems"(4) by (intro mult_right_mono) simp_all
    then have "unat ?v < 256 ^ (i + 1)" using v unat_lt_256 [of ?b] by simp
    then have "unat (decode_loop src ?v (i + 1) len) =
        unat ?v * 256 ^ (len - (i + 1)) + be_val (take (len - (i + 1)) (drop (i + 1) src))"
      using True "1.prems" by (intro "1.IH") simp_all
    moreover have "take (len - i) (drop i src) = ?b # take (len - (i + 1)) (drop (i + 1) src)"
      using True "1.prems" by (simp add: Cons_nth_drop_Suc [symmetric] Suc_diff_Suc [symmetric])
    moreover have "(256 :: nat) ^ (len - i) = 256 * 256 ^ (len - (i + 1))"
      using True by (simp add: Suc_diff_Suc [symmetric])
    ultimately show ?thesis using True "1.prems"
      by (simp add: decode_loop.simps [of src v i len] be_val_Cons v algebra_simps)
  qed
qed

lemma readTruncated_pn_encode:
  assumes len: "1 \<le> len" "len \<le> 4" and enc: "pn_encode dst pn len = Inr out"
  shows "readTruncated out len = Inr (truncate pn len)"
proof -
  have out: "out = be_bytes len (unat pn) @ drop len dst" "len \<le> length out"
    using enc len by (auto simp: pn_encode_eq split: if_splits)
  have "unat (decode_loop out 0 0 len) = be_val (take len out)"
    using decode_loop_be_val [of 0 len out 0] len out(2) by simp
  also have "\<dots> = unat (truncate pn len)"
    using out(1) by (simp add: be_val_be_bytes truncate_unat [OF len(2)])
  finally have "decode_loop out 0 0 len = truncate pn len" by (rule unsigned_word_eqI)
  with len out(2) show ?thesis by (simp add: readTruncated_def)
qed

subsection \<open>Properties\<close>

lemma encodedLength_loop_Inl: "encodedLength_loop target rng b = Inl e \<Longrightarrow> e = UnacknowledgedTooFar"
  by (induction target rng b rule: encodedLength_loop.induct)
     (auto simp: encodedLength_loop.simps split: if_splits)

lemma encodedLength_Inl:
  "encodedLength pn la = Inl e \<Longrightarrow>
     e = UnacknowledgedTooFar \<or> e = InvalidLength \<and> (\<exists>l. la = Some l \<and> pn \<le> l)"
  by (auto simp: encodedLength_def zbind_eq_Inl dest!: encodedLength_loop_Inl
      split: if_splits option.splits)

text \<open>C25: The wire carries the truncated number: what \<open>encode\<close> writes in the first \<open>len\<close> bytes
  is read back by \<open>readTruncated\<close>, so sending and receiving through a buffer recovers the
  number; and the bytes behind it are left alone.\<close>

theorem pn_wire_roundtrip:
  assumes "1 \<le> len" "len \<le> 4" "pn_encode dst pn len = Inr out" "pn \<le> max_value" "largest \<le> max_value"
    and "min (unat largest + 1) (2 ^ 62 - 1) < unat pn + 256 ^ len div 2"
    and "unat pn \<le> min (unat largest + 1) (2 ^ 62 - 1) + 256 ^ len div 2"
  shows "zbind (readTruncated out len) (\<lambda>t. pn_decode t len largest) = Inr pn \<and>
    drop len out = drop len dst \<and> length out = length dst"
proof -
  have "drop len out = drop len dst" "length out = length dst"
    using assms(1-3) by (auto simp: pn_encode_eq split: if_splits)
  with readTruncated_pn_encode [OF assms(1-3)] pn_decode_truncate [OF assms(1,2,4-7)]
  show ?thesis by simp
qed

theorem pn_wire_roundtrip_witness:
  "\<exists>out. pn_encode [1, 2, 3] 0xa82f9b32 2 = Inr out \<and>
     zbind (readTruncated out 2) (\<lambda>t. pn_decode t 2 0xa82f30ea) = Inr 0xa82f9b32"
proof -
  have "\<exists>out. pn_encode [1, 2, 3] 0xa82f9b32 2 = Inr out" by (simp add: pn_encode_eq)
  then obtain out where o: "pn_encode [1, 2, 3] 0xa82f9b32 2 = Inr out" by blast
  from pn_wire_roundtrip [OF _ _ o, where largest = "0xa82f30ea"] o show ?thesis by (simp add: max_value_def)
qed

text \<open>C26: The RFC rule \<open>encodedLength\<close> is exact.  It fails only when the number is not above
  the acknowledged one or more than \<open>2 ^ 31\<close> numbers are unacknowledged; otherwise the
  length is the least of 1 to 4 whose window holds twice the unacknowledged range, and every
  receiver between the acknowledged number and the packet recovers it.\<close>

theorem encodedLength_exact:
  assumes "pn \<le> max_value"
  shows "case encodedLength pn la of
      Inr n \<Rightarrow> 1 \<le> n \<and> n \<le> 4 \<and> 2 * num_unacked pn la \<le> 256 ^ n \<and>
        (1 < n \<longrightarrow> 256 ^ (n - 1) < 2 * num_unacked pn la) \<and>
        (\<forall>l largest. la = Some l \<and> l \<le> largest \<and> largest < pn \<longrightarrow>
           pn_decode (truncate pn n) n largest = Inr pn)
    | Inl e \<Rightarrow> (case e of InvalidLength \<Rightarrow> \<exists>l. la = Some l \<and> pn \<le> l
        | UnacknowledgedTooFar \<Rightarrow> 2 ^ 31 < num_unacked pn la | _ \<Rightarrow> False)"
proof (cases "encodedLength pn la")
  case (Inr n)
  with encodedLength_Inr [OF Inr assms] encodedLength_sufficient [OF _ assms] show ?thesis by auto
next
  case (Inl e)
  with encodedLength_Inl [OF Inl] encodedLength_too_far [OF assms] show ?thesis by auto
qed

theorem encodedLength_exact_witness:
  "encodedLength 200 (Some 72) = Inr 1 \<and> encodedLength 200 (Some 71) = Inr 2 \<and>
   pn_decode (truncate 200 1) 1 72 = Inr 200"
proof -
  have e: "encodedLength 200 (Some 72) = Inr 1" "encodedLength 200 (Some 71) = Inr 2"
    by (simp_all add: encodedLength_def sat_mul_u64_def encodedLength_loop.simps)
  have "(200 :: u64) \<le> max_value" "(72 :: u64) \<le> 72" "(72 :: u64) < 200" by (simp_all add: max_value_def)
  with encodedLength_exact [of 200 "Some 72"] e show ?thesis by simp
qed

text \<open>C27: The sender's policy \<open>chooseLength\<close> dominates the RFC rule and leaves headroom for
  reordering.  It returns two to four bytes, never fewer than \<open>encodedLength\<close>; and for fewer
  than \<open>2 ^ 31\<close> unacknowledged numbers the receiver recovers the packet also when it arrives
  late, as long as less than half a window of newer packets came first.\<close>

theorem chooseLength_headroom:
  assumes "pn \<le> max_value" "largest \<le> max_value"
    and "la < pn" "unat pn - unat la \<le> 2 ^ 31" "la \<le> largest"
    and "unat largest + 1 < unat pn + 256 ^ chooseLength pn (Some la) div 2"
  shows "chooseLength pn (Some la) \<in> {2, 3, 4} \<and>
    (\<forall>n. encodedLength pn (Some la) = Inr n \<longrightarrow> n \<le> chooseLength pn (Some la)) \<and>
    pn_decode (truncate pn (chooseLength pn (Some la))) (chooseLength pn (Some la)) largest = Inr pn"
  using chooseLength_range chooseLength_ge [OF _ assms(1)]
    chooseLength_sufficient [OF assms(1,3,4,5,6,2)] by blast

theorem chooseLength_headroom_witness:
  "chooseLength 200 (Some 72) = 2 \<and> pn_decode (truncate 200 2) 2 32000 = Inr 200"
proof -
  have c: "chooseLength 200 (Some 72) = 2" by (simp add: chooseLength_def)
  have "(200 :: u64) \<le> max_value" "(32000 :: u64) \<le> max_value" "(72 :: u64) < 200" "(72 :: u64) \<le> 32000"
    by (simp_all add: max_value_def)
  with chooseLength_headroom [of 200 32000 72] c show ?thesis by simp
qed

end
