(* ===== verification/Iteration.thy ===== *)
theory Iteration
  imports Wire_Base
begin

text \<open>
  Iterators of the library: \<open>next\<close> yields an item, the end, or an error, and moves on.  The
  consumers' loop \<open>while (try it.next()) |item|\<close> with fuel, and the interface under which it
  needs no more fuel than a bound that every item makes smaller.
\<close>

fun walk :: "('s \<Rightarrow> ('e + 'a option) \<times> 's) \<Rightarrow> nat \<Rightarrow> 's \<Rightarrow> ('e + 'a list) option" where
  "walk step 0 s = None"
| "walk step (Suc n) s =
     (case step s of
        (Inl e, _) \<Rightarrow> Some (Inl e)
      | (Inr None, _) \<Rightarrow> Some (Inr [])
      | (Inr (Some x), s) \<Rightarrow> map_option (map_sum id (Cons x)) (walk step n s))"

locale iteration =
  fixes step :: "'s \<Rightarrow> ('e + 'a option) \<times> 's"
    and valid :: "'s \<Rightarrow> bool"
    and left :: "'s \<Rightarrow> nat"
  assumes advance: "valid s \<Longrightarrow> step s = (Inr (Some x), s') \<Longrightarrow> valid s' \<and> left s' < left s"
begin

lemma walk_ends: "valid s \<Longrightarrow> left s < n \<Longrightarrow> \<exists>r. walk step n s = Some r"
proof (induction n arbitrary: s)
  case (Suc n)
  obtain r s' where s: "step s = (r, s')" by force
  show ?case
  proof (cases r)
    case (Inr o')
    show ?thesis
    proof (cases o')
      case (Some x)
      with s Inr Suc.prems advance have "valid s'" "left s' < n" by fastforce+
      with Suc.IH obtain r' where "walk step n s' = Some r'" by blast
      with s Inr Some show ?thesis by simp
    qed (use s Inr in simp)
  qed (use s in simp)
qed simp

lemma walk_items: "valid s \<Longrightarrow> walk step n s = Some (Inr xs) \<Longrightarrow> length xs \<le> left s"
proof (induction n arbitrary: s xs)
  case (Suc n)
  obtain r s' where s: "step s = (r, s')" by force
  show ?case
  proof (cases "r = Inr None")
    case False
    with s Suc.prems(2) obtain x where r: "r = Inr (Some x)" by (cases r) auto
    with s Suc.prems(2) obtain z where z: "walk step n s' = Some z" "map_sum id (Cons x) z = Inr xs"
      by auto
    then obtain ys where ys: "walk step n s' = Some (Inr ys)" "xs = x # ys" by (cases z) auto
    from advance [OF Suc.prems(1)] s r have "valid s'" "left s' < left s" by auto
    with Suc.IH ys show ?thesis by force
  qed (use s Suc.prems in simp)
qed simp

text \<open>More fuel than needed changes nothing.\<close>

lemma walk_more: "walk step n s = Some r \<Longrightarrow> n \<le> m \<Longrightarrow> walk step m s = Some r"
proof (induction n arbitrary: s r m)
  case (Suc n)
  then obtain k where m: "m = Suc k" "n \<le> k" by (cases m) auto
  obtain q s' where s: "step s = (q, s')" by force
  show ?case
    using Suc.prems(1) Suc.IH [OF _ m(2)] s m(1) by (auto split: sum.splits option.splits)
qed simp

end

end
