(* ===== verification/Frame_Payload.thy ===== *)
theory Frame_Payload
  imports Ack_Range Iteration
begin

text \<open>
  The payload iterator of \<open>src/src/frame/root.zig\<close> (\<open>iter\<close>, \<open>Iterator.next\<close>): a packet's frames
  one after the other.  It and the iterator over ACK ranges are both instances of the
  \<open>iteration\<close> interface, so their consumers' loops end.
\<close>

subsection \<open>The iterator\<close>

record frame_iterator =
  fr_rest :: "byte list"

definition frame_iter :: "byte list \<Rightarrow> frame_iterator" where
  "frame_iter src = \<lparr>fr_rest = src\<rparr>"

definition frame_next :: "frame_iterator \<Rightarrow> (wire_error + frame option) \<times> frame_iterator" where
  "frame_next it =
     (if fr_rest it = [] then (Inr None, it)
      else case frame_decode (fr_rest it) of
        Inl e \<Rightarrow> (Inl e, it)
      | Inr (f, n) \<Rightarrow> (Inr (Some f), it\<lparr>fr_rest := drop n (fr_rest it)\<rparr>))"

subsection \<open>Instances of the interface\<close>

lemma frame_next_Some:
  assumes "length (fr_rest it) < 2 ^ 64" "frame_next it = (Inr (Some f), it')"
  shows "\<exists>n. frame_decode (fr_rest it) = Inr (f, n) \<and> fr_rest it' = drop n (fr_rest it) \<and>
    0 < n \<and> n \<le> length (fr_rest it) \<and> frame_encodedLen f \<le> n \<and> frame_encodable f \<and> frame_shaped f"
proof -
  from assms(2) obtain n where n: "frame_decode (fr_rest it) = Inr (f, n)" "fr_rest it' = drop n (fr_rest it)"
    by (auto simp: frame_next_def split: if_splits sum.splits prod.splits)
  with frame_decode_sound [OF n(1) assms(1)] frame_encodedLen_pos [of f] show ?thesis
    by (auto simp: sound_at_def)
qed

interpretation frames: iteration frame_next "\<lambda>it. length (fr_rest it) < 2 ^ 64" "\<lambda>it. length (fr_rest it)"
proof unfold_locales
  fix s x s'
  assume "length (fr_rest s) < 2 ^ 64" "frame_next s = (Inr (Some x), s')"
  from frame_next_Some [OF this] this(1) show "length (fr_rest s') < 2 ^ 64 \<and> length (fr_rest s') < length (fr_rest s)"
    by auto
qed

text \<open>The ranges an ACK iterator has left, the first one included.\<close>

definition ranges_left :: "iterator \<Rightarrow> nat" where
  "ranges_left it = (if it_first_emitted it then 0 else 1) + (unat (it_range_count it) - unat (it_next_range_index it))"

lemma it_next_advance:
  assumes "it_next it = (Inr (Some iv), it')"
  shows "ranges_left it' < ranges_left it"
proof (cases "it_first_emitted it")
  case False
  with assms show ?thesis
    by (auto simp: it_next_def ranges_left_def Let_def split: if_splits)
next
  case True
  with assms have lt: "it_next_range_index it < it_range_count it" 
    and it': "it_first_emitted it'" "it_range_count it' = it_range_count it"
      "it_next_range_index it' = it_next_range_index it + 1"
    by (auto simp: it_next_def Let_def split: if_splits sum.splits prod.splits)
  have "unat (it_next_range_index it + 1) = unat (it_next_range_index it) + 1"
  proof -
    have "unat (it_range_count it) < 2 ^ LENGTH(64)" by (rule unsigned_less)
    with lt have "Suc (unat (it_next_range_index it)) < 2 ^ 64" by (simp add: word_less_nat_alt)
    then show ?thesis by (simp add: unat_word_ariths)
  qed
  with lt it' True show ?thesis by (auto simp: ranges_left_def word_less_nat_alt)
qed

interpretation ack_ranges: iteration it_next "\<lambda>_. True" ranges_left
  by unfold_locales (simp add: it_next_advance)

lemma drain_walk: "drain n it = walk it_next n it"
  by (induction n arbitrary: it) (simp_all split: prod.split sum.split option.split)

subsection \<open>Payloads the encoder wrote\<close>

text \<open>The frames one after the other, each as \<open>encode\<close> writes it into a buffer of its length.\<close>

fun pack :: "frame list \<Rightarrow> wire_error + byte list" where
  "pack [] = Inr []"
| "pack (f # fs) =
     zbind (frame_encode (replicate (frame_encodedLen f) 0) f) (\<lambda>(out, n).
     zbind (pack fs) (\<lambda>rest. Inr (take n out @ rest)))"

text \<open>A frame without a length extends to the end of the packet, and neighbouring PADDING frames
  are read as one.\<close>

fun is_padding :: "frame \<Rightarrow> bool" where
  "is_padding (Padding f) = True"
| "is_padding _ = False"

fun open_ended :: "frame \<Rightarrow> bool" where
  "open_ended (Stream f) = (\<not> sf_has_length f)"
| "open_ended (Datagram f) = (\<not> dg_has_length f)"
| "open_ended _ = False"

fun separable :: "frame list \<Rightarrow> bool" where
  "separable (f # g # fs) = (\<not> open_ended f \<and> \<not> (is_padding f \<and> is_padding g) \<and> separable (g # fs))"
| "separable _ = True"

lemma pack_Cons:
  assumes "frame_shaped f" "pack (f # fs) = Inr p"
  shows "\<exists>rest. frame_encodable f \<and> pack fs = Inr rest \<and> p = frame_bytes f @ rest"
proof -
  from assms(2) obtain out n rest where e: "frame_encode (replicate (frame_encodedLen f) 0) f = Inr (out, n)"
    "pack fs = Inr rest" "p = take n out @ rest"
    by (auto simp: zbind_eq_Inr)
  have enc: "frame_encodable f" using e(1) frame_encode_refuses [of f "replicate (frame_encodedLen f) 0"] by fastforce
  with frame_encode_eq [OF enc assms(1), of "replicate (frame_encodedLen f) 0"] e frame_encodedLen_correct [OF assms(1)]
  show ?thesis by auto
qed

lemma first_byte:
  assumes "reads_back f rest" "frame_bytes f \<noteq> []" "\<not> is_padding f"
  shows "hd (frame_bytes f) \<noteq> 0"
proof
  assume "hd (frame_bytes f) = 0"
  with assms(2) have "(frame_bytes f @ rest) ! 0 = 0" by (cases "frame_bytes f") auto
  with assms(1,2) have "f = Padding \<lparr>pd_count = word_of_nat (length (takeWhile (\<lambda>b. b = 0) (frame_bytes f @ rest)))\<rparr>"
    by (auto simp: reads_back_def frame_decode_def Let_def)
  then have "is_padding f" by (metis is_padding.simps(1))
  with assms(3) show False ..
qed

lemma tail_ok_next:
  assumes "separable (f # fs)" "list_all frame_shaped fs" "list_all frame_canonical fs" "pack fs = Inr rest"
    "\<And>g gs r. fs = g # gs \<Longrightarrow> pack gs = Inr r \<Longrightarrow> reads_back g r"
  shows "tail_ok f rest"
proof (cases fs)
  case Nil
  with assms(4) show ?thesis by (cases f) simp_all
next
  case (Cons g gs)
  with assms(2,3) have g: "frame_shaped g" "frame_canonical g" by auto
  from pack_Cons [OF g(1)] assms(4) Cons obtain r where r: "pack gs = Inr r" "rest = frame_bytes g @ r" by blast
  have ne: "frame_bytes g \<noteq> []"
    using frame_encodedLen_pos [OF g(2)] frame_encodedLen_correct [OF g(1)] by auto
  show ?thesis
  proof (cases "is_padding f")
    case True
    with assms(1) Cons have "\<not> is_padding g" by simp
    with first_byte [OF assms(5) [OF Cons r(1)] ne] ne r(2) True show ?thesis by (cases f) auto
  next
    case False
    with assms(1) Cons show ?thesis by (cases f) auto
  qed
qed

lemma pack_reads:
  assumes "list_all frame_shaped fs" "list_all frame_canonical fs" "separable fs" "pack fs = Inr p"
  shows "(\<forall>f gs. fs = f # gs \<longrightarrow> (\<forall>r. pack gs = Inr r \<longrightarrow> reads_back f r)) \<and>
    walk frame_next (length fs + 1) (frame_iter p) = Some (Inr fs)"
  using assms
proof (induction fs arbitrary: p)
  case Nil
  then show ?case by (simp add: frame_iter_def frame_next_def)
next
  case (Cons f fs)
  then have f: "frame_shaped f" "frame_canonical f" by auto
  obtain rest where rest: "frame_encodable f" "pack fs = Inr rest" "p = frame_bytes f @ rest"
    using pack_Cons [OF f(1) Cons.prems(4)] by blast
  have sep: "separable fs" using Cons.prems(3) by (cases fs) auto
  have IH: "\<And>g gs r. fs = g # gs \<Longrightarrow> pack gs = Inr r \<Longrightarrow> reads_back g r"
    "walk frame_next (length fs + 1) (frame_iter rest) = Some (Inr fs)"
    using Cons.IH [OF _ _ sep rest(2)] Cons.prems(1,2) by auto
  have "tail_ok f rest"
    using Cons.prems(1-3) rest(2) IH(1) by (intro tail_ok_next) auto
  then have rb: "reads_back f rest" using frame_reads_back rest(1) f by blast
  have "frame_bytes f \<noteq> []" using frame_encodedLen_pos [OF f(2)] frame_encodedLen_correct [OF f(1)] by auto
  with rb have "frame_next (frame_iter p) = (Inr (Some f), frame_iter rest)"
    by (simp add: frame_next_def frame_iter_def rest(3) reads_back_def)
  with IH(2) rb rest(2) show ?case by simp
qed

subsection \<open>Properties\<close>

text \<open>C31: Iterating over a packet payload ends.  Whatever the bytes are, the loop stops after at
  most one turn per byte and one more, with an error or with frames; in the latter case
  every frame is one the encoder accepts, and all of them together encode into at most as
  many bytes as were read.\<close>

theorem payload_iteration_ends:
  assumes "length src < 2 ^ 64"
  shows "\<exists>r. walk frame_next (length src + 1) (frame_iter src) = Some r \<and>
    (\<forall>fs. r = Inr fs \<longrightarrow> length fs \<le> length src \<and> list_all frame_encodable fs \<and>
       sum_list (map frame_encodedLen fs) \<le> length src)"
proof -
  have v: "length (fr_rest (frame_iter src)) < 2 ^ 64" using assms by (simp add: frame_iter_def)
  obtain r where r: "walk frame_next (length src + 1) (frame_iter src) = Some r"
    using frames.walk_ends [OF v, of "length src + 1"] by (auto simp: frame_iter_def)
  have items: "list_all frame_encodable fs \<and> sum_list (map frame_encodedLen fs) \<le> length (fr_rest it)"
    if "walk frame_next n it = Some (Inr fs)" "length (fr_rest it) < 2 ^ 64" for n it fs
    using that
  proof (induction n arbitrary: it fs)
    case (Suc n)
    obtain q it' where q: "frame_next it = (q, it')" by force
    show ?case
    proof (cases "q = Inr None")
      case False
      with q Suc.prems(1) obtain f where f: "q = Inr (Some f)" by (cases q) auto
      with q Suc.prems(1) obtain z where z: "walk frame_next n it' = Some z" "map_sum id (Cons f) z = Inr fs" by auto
      then obtain gs where gs: "walk frame_next n it' = Some (Inr gs)" "fs = f # gs" by (cases z) auto
      from frame_next_Some [OF Suc.prems(2)] q f obtain m where m: "fr_rest it' = drop m (fr_rest it)"
        "m \<le> length (fr_rest it)" "frame_encodedLen f \<le> m" "frame_encodable f" by blast
      then have "length (fr_rest it') < 2 ^ 64" using Suc.prems(2) by simp
      from Suc.IH [OF gs(1) this] have IH: "list_all frame_encodable gs"
        "sum_list (map frame_encodedLen gs) + m \<le> length (fr_rest it)" using m(1,2) by auto
      with m(3,4) gs(2) show ?thesis by simp
    qed (use q Suc.prems in simp)
  qed simp
  have rest: "fr_rest (frame_iter src) = src" by (simp add: frame_iter_def)
  have "length fs \<le> length src \<and> list_all frame_encodable fs \<and> sum_list (map frame_encodedLen fs) \<le> length src"
    if "r = Inr fs" for fs
    using frames.walk_items [OF v r [unfolded that]] items [OF r [unfolded that] v] unfolding rest by simp
  with r show ?thesis by blast
qed

text \<open>C30: A packet payload reads back frame by frame.  Frames that can stand in that order (only
  the last may extend to the end of the packet, no two PADDING frames are neighbours) are
  read by the iterator exactly as the encoder was given them.\<close>

theorem payload_roundtrip:
  assumes "list_all frame_shaped fs" "list_all frame_canonical fs" "separable fs" "pack fs = Inr payload"
  shows "walk frame_next (length fs + 1) (frame_iter payload) = Some (Inr fs)"
  using pack_reads [OF assms] by blast

definition sample_frames :: "frame list" where
  "sample_frames = [ResetStream \<lparr>rs_stream_id = 1, rs_application_error_code = 2, rs_final_size = 3\<rparr>,
     Padding \<lparr>pd_count = 2\<rparr>, ResetStream \<lparr>rs_stream_id = 5, rs_application_error_code = 6, rs_final_size = 7\<rparr>]"

lemma sample_frames_packed: "pack sample_frames = Inr [4, 1, 2, 3, 0, 0, 4, 5, 6, 7]"
  by code_simp

theorem payload_roundtrip_witness:
  "walk frame_next 4 (frame_iter [4, 1, 2, 3, 0, 0, 4, 5, 6, 7]) = Some (Inr sample_frames)"
proof -
  have "list_all frame_shaped sample_frames" "list_all frame_canonical sample_frames" "separable sample_frames"
    "length sample_frames + 1 = 4" by (simp_all add: sample_frames_def)
  with payload_roundtrip [OF _ _ _ sample_frames_packed] show ?thesis by metis
qed

theorem payload_iteration_ends_witness:
  "\<exists>r. walk frame_next 3 (frame_iter [0x1f, 0x3f]) = Some r"
  using payload_iteration_ends [of "[0x1f, 0x3f]"] by (auto simp: numeral_3_eq_3)

end
