(* ===== verification/Py_Base.thy ===== *)
theory Py_Base
  imports Complex_Main Wire_Base
begin

text \<open>
  What the Python tools under \<open>src/tools\<close> use of their language: JSON values as
  \<open>json.loads\<close> returns them, \<open>==\<close> on them, dictionary access with its exceptions, and a few
  string operations.  A call that may raise returns a value of \<open>py_error + 'a\<close>; \<open>zbind\<close>
  sequences such calls and \<open>mapE\<close> is a comprehension over them.
\<close>

datatype py_error =
    ValueError string
  | KeyError string
  | TypeError
  | AttributeError
  | ZeroDivisionError
  | OSError string
  | RuntimeError string
  | CalledProcessError string
  | StopIteration
  | OverflowError
  | KeyboardInterrupt
  | Blocked_Forever     \<comment> \<open>no exception: the call does not return\<close>

text \<open>\<open>JFloat\<close> holds the exact value of a finite double.\<close>

datatype json =
    JNull
  | JBool bool
  | JInt int
  | JFloat rat
  | JStr string
  | JList "json list"
  | JObj "(string \<times> json) list"

text \<open>Python compares booleans, integers and floats by value.\<close>

fun py_num :: "json \<Rightarrow> rat option" where
  "py_num (JBool b) = Some (if b then 1 else 0)"
| "py_num (JInt n) = Some (of_int n)"
| "py_num (JFloat r) = Some r"
| "py_num _ = None"

fun py_eq :: "json \<Rightarrow> json \<Rightarrow> bool"
  and py_eq_list :: "json list \<Rightarrow> json list \<Rightarrow> bool"
  and py_eq_items :: "(string \<times> json) list \<Rightarrow> (string \<times> json) list \<Rightarrow> bool" where
  "py_eq (JList xs) w = (case w of JList ys \<Rightarrow> py_eq_list xs ys | _ \<Rightarrow> False)"
| "py_eq (JObj o1) w =
     (case w of JObj o2 \<Rightarrow> length o1 = length o2 \<and> py_eq_items o1 o2 | _ \<Rightarrow> False)"
| "py_eq (JStr s) w = (case w of JStr t \<Rightarrow> s = t | _ \<Rightarrow> False)"
| "py_eq JNull w = (w = JNull)"
| "py_eq (JBool b) w = (py_num w = Some (if b then 1 else 0))"
| "py_eq (JInt n) w = (py_num w = Some (of_int n))"
| "py_eq (JFloat r) w = (py_num w = Some r)"
| "py_eq_list [] ys = (ys = [])"
| "py_eq_list (x # xs) ys = (case ys of [] \<Rightarrow> False | y # ys \<Rightarrow> py_eq x y \<and> py_eq_list xs ys)"
| "py_eq_items [] d = True"
| "py_eq_items ((k, v) # kvs) d =
     (case map_of d k of None \<Rightarrow> False | Some w \<Rightarrow> py_eq v w \<and> py_eq_items kvs d)"

text \<open>\<open>d.get(k, default)\<close> and \<open>d[k]\<close> with a string key.\<close>

definition py_get_default :: "json \<Rightarrow> string \<Rightarrow> json \<Rightarrow> py_error + json" where
  "py_get_default d k dflt =
     (case d of JObj kvs \<Rightarrow> Inr (case map_of kvs k of Some v \<Rightarrow> v | None \<Rightarrow> dflt)
      | _ \<Rightarrow> Inl AttributeError)"

definition py_get :: "json \<Rightarrow> string \<Rightarrow> py_error + json" where
  "py_get d k = py_get_default d k JNull"

definition py_index :: "json \<Rightarrow> string \<Rightarrow> py_error + json" where
  "py_index d k =
     (case d of JObj kvs \<Rightarrow> (case map_of kvs k of Some v \<Rightarrow> Inr v | None \<Rightarrow> Inl (KeyError k))
      | _ \<Rightarrow> Inl TypeError)"

definition py_iter :: "json \<Rightarrow> py_error + json list" where
  "py_iter v =
     (case v of JList xs \<Rightarrow> Inr xs
      | JObj kvs \<Rightarrow> Inr (map (JStr \<circ> fst) kvs)
      | JStr s \<Rightarrow> Inr (map (\<lambda>c. JStr [c]) s)
      | _ \<Rightarrow> Inl TypeError)"

text \<open>An operand of integer arithmetic; booleans are integers.\<close>

definition py_int :: "json \<Rightarrow> py_error + int" where
  "py_int v = (case v of JInt n \<Rightarrow> Inr n | JBool b \<Rightarrow> Inr (if b then 1 else 0) | _ \<Rightarrow> Inl TypeError)"

text \<open>\<open>float(q)\<close> of a \<open>Fraction\<close> divides two integers, which raises when the quotient rounds to
  \<open>2 ^ 1024\<close> or more.  The value is kept exact: rounding is left out.\<close>

definition float_overflows :: "rat \<Rightarrow> bool" where
  "float_overflows q \<longleftrightarrow> 2 ^ 1024 - 2 ^ 970 \<le> \<bar>q\<bar>"

definition py_float :: "rat \<Rightarrow> py_error + rat" where
  "py_float q = (if float_overflows q then Inl OverflowError else Inr q)"

text \<open>\<open>len(v)\<close>\<close>

definition py_len :: "json \<Rightarrow> py_error + nat" where
  "py_len v =
     (case v of JList xs \<Rightarrow> Inr (length xs) | JObj kvs \<Rightarrow> Inr (length kvs) | JStr s \<Rightarrow> Inr (length s)
      | _ \<Rightarrow> Inl TypeError)"

text \<open>\<open>type(v) is int and v >= 0\<close>\<close>

definition natural_int :: "json \<Rightarrow> bool" where
  "natural_int v = (case v of JInt n \<Rightarrow> n \<ge> 0 | _ \<Rightarrow> False)"

definition py_raise :: "bool \<Rightarrow> string \<Rightarrow> py_error + unit" where
  "py_raise c msg = (if c then Inl (ValueError msg) else Inr ())"

fun mapE :: "('a \<Rightarrow> 'e + 'b) \<Rightarrow> 'a list \<Rightarrow> 'e + 'b list" where
  "mapE f [] = Inr []"
| "mapE f (x # xs) = zbind (f x) (\<lambda>y. zbind (mapE f xs) (\<lambda>ys. Inr (y # ys)))"

lemma mapE_Inr_iff: "mapE f xs = Inr ys \<longleftrightarrow> list_all2 (\<lambda>x y. f x = Inr y) xs ys"
proof (induction xs arbitrary: ys)
  case Nil
  then show ?case by auto
next
  case (Cons x xs)
  then show ?case by (cases ys) (auto simp: zbind_eq_Inr)
qed

lemma mapE_total: "(\<And>x. x \<in> set xs \<Longrightarrow> f x = Inr (g x)) \<Longrightarrow> mapE f xs = Inr (map g xs)"
  by (induction xs) auto

lemma mapE_one_error:
  assumes "\<forall>x\<in>set xs. f x = Inl e \<or> (\<exists>y. f x = Inr y)"
  shows "if \<exists>x\<in>set xs. f x = Inl e then mapE f xs = Inl e else \<exists>ys. mapE f xs = Inr ys"
  using assms by (induction xs) (fastforce split: if_splits)+

lemma py_float_Inr [simp]: "py_float q = Inr r \<longleftrightarrow> \<not> float_overflows q \<and> r = q"
  by (auto simp: py_float_def)

lemma float_overflows_small: "\<bar>q\<bar> \<le> 10 ^ 30 \<Longrightarrow> \<not> float_overflows q"
proof -
  assume "\<bar>q\<bar> \<le> 10 ^ 30"
  also have "(10 ^ 30 :: rat) < 2 ^ 1024 - 2 ^ 970" by simp
  finally show ?thesis by (simp add: float_overflows_def)
qed

lemma py_raise_simps [simp]: "py_raise True m = Inl (ValueError m)" "py_raise False m = Inr ()"
  by (simp_all add: py_raise_def)

lemma py_raise_Inr [simp]: "py_raise c m = Inr u \<longleftrightarrow> \<not> c"
  by (simp add: py_raise_def)

text \<open>\<open>sub in s\<close>, \<open>s.endswith(t)\<close> and \<open>s.startswith(t)\<close>\<close>

fun startswith :: "string \<Rightarrow> string \<Rightarrow> bool" where
  "startswith s [] = True"
| "startswith [] (t # ts) = False"
| "startswith (c # s) (t # ts) = (if c = t then startswith s ts else False)"

definition endswith :: "string \<Rightarrow> string \<Rightarrow> bool" where
  "endswith s t = (length t \<le> length s \<and> drop (length s - length t) s = t)"

lemma startswith_def: "startswith s t \<longleftrightarrow> take (length t) s = t"
  by (induction s t rule: startswith.induct) auto

fun py_in :: "string \<Rightarrow> string \<Rightarrow> bool" where
  "py_in sub [] = (sub = [])"
| "py_in sub (c # s) = (startswith (c # s) sub \<or> py_in sub s)"

lemma py_get_index: "py_get d k = Inr v \<Longrightarrow> v \<noteq> JNull \<Longrightarrow> py_index d k = Inr v"
  by (auto simp: py_get_def py_get_default_def py_index_def split: json.splits option.splits)

lemma py_eq_JInt: "py_eq v (JInt n) \<Longrightarrow> v \<noteq> JNull"
  by auto

lemma natural_intD: "natural_int v \<Longrightarrow> \<exists>n. v = JInt n \<and> 0 \<le> n"
  by (cases v) (simp_all add: natural_int_def)

end
