(* ===== verification/Fairness.thy ===== *)
theory Fairness
  imports Py_Base "HOL-Library.AList"
begin

text \<open>
  Model of \<open>src/tools/check-fairness.py\<close>: the frozen baseline, the validation of a benchmark
  report (\<open>rows\<close>), Jain's index and link utilisation (\<open>measure\<close>), the gate \<open>compare\<close>, and
  the byte stream hashed by \<open>runtime_digest\<close>.  Fractions are rationals, as in the source; the
  \<open>float\<close> conversions of the report may overflow, their rounding is left out.
\<close>

subsection \<open>The frozen baseline\<close>

definition baseline_bytes :: "(string \<times> int list) list" where
  "baseline_bytes =
    [(''fairness_10mbit_2f_cubic'', [13256844, 11022153]),
     (''fairness_10mbit_2f_bbr'', [11800355, 12478780]),
     (''fairness_10mbit_4f_bbr'', [5755198, 5672693, 6096706, 6754510]),
     (''fairness_10mbit_2f_bbr_stagger5s'', [12384794, 11894327]),
     (''fairness_10mbit_2f_mixed'', [6514960, 17764095]),
     (''fairness_10mbit_2f_mixed_shallow25ms'', [15630273, 8648841]),
     (''fairness_grid_mixed_reverse'', [18561702, 5717369]),
     (''fairness_grid_mixed_reverse_shallow25ms'', [9697417, 14581697]),
     (''fairness_grid_mixed_cubic_delayed1s'', [6108173, 18170948]),
     (''fairness_grid_mixed_bbr_delayed1s'', [12087917, 12079879]),
     (''fairness_grid_mixed_base10ms'', [8215545, 16063422]),
     (''fairness_grid_mixed_shallow5ms'', [15590156, 8693542]),
     (''fairness_grid_mixed_deep250ms'', [4417751, 19861294]),
     (''fairness_grid_mixed_measure60s'', [31889436, 40947447])]"

subsection \<open>The digest of the build inputs\<close>

text \<open>
  \<open>runtime_digest\<close> feeds the hash with a length-prefixed stream of the selected files in name
  order; \<open>read\<close> stands for the file contents and the hash is applied to this stream.
\<close>

definition runtime_input :: "string \<Rightarrow> bool" where
  "runtime_input name \<longleftrightarrow>
     startswith name ''src/'' \<or> name = ''build.zig'' \<or> name = ''build.zig.zon''"

definition digest_chunk :: "byte list \<Rightarrow> byte list" where
  "digest_chunk data = be_bytes 8 (length data) @ data"

definition digest_stream ::
  "(string \<Rightarrow> byte list) \<Rightarrow> (string \<Rightarrow> byte list) \<Rightarrow> string list \<Rightarrow> byte list" where
  "digest_stream encode_name read names =
     concat (map (\<lambda>name. digest_chunk (encode_name name) @ digest_chunk (read name))
       (filter runtime_input names))"

subsection \<open>Validation of a report\<close>

definition py_eqs :: "json list \<Rightarrow> json list \<Rightarrow> bool" where
  "py_eqs xs ys = list_all2 py_eq xs ys"

definition expected_cc :: "string \<Rightarrow> nat \<Rightarrow> string list" where
  "expected_cc name n =
     (if endswith name ''2f_cubic'' then [''cubic'', ''cubic'']
      else if \<not> py_in ''mixed'' name then replicate n ''bbr''
      else if py_in ''reverse'' name then [''cubic'', ''bbr''] else [''bbr'', ''cubic''])"

definition expected_starts :: "string \<Rightarrow> nat \<Rightarrow> int list" where
  "expected_starts name n =
     (let s = replicate n 0;
          s = (if endswith name ''stagger5s'' then s[1 := 5000000] else s);
          s = (if endswith name ''cubic_delayed1s'' then s[1 := 1000000] else s);
          s = (if endswith name ''bbr_delayed1s'' then s[0 := 1000000] else s)
      in s)"

definition measure_window :: "string \<Rightarrow> int" where
  "measure_window name = (if endswith name ''measure60s'' then 60000000 else 20000000)"

definition virtual_time :: "string \<Rightarrow> nat \<Rightarrow> int" where
  "virtual_time name n = fold max (expected_starts name n) 0 + 5000000 + measure_window name"

definition counter_keys :: "string list" where
  "counter_keys = [''enqueued'', ''dropped'', ''queue_dropped'', ''peak_queue_delay_us'']"

text \<open>The body of the loop over the cells; \<open>bytes\<close> is \<open>BASELINE_BYTES[name]\<close>.  The disjunction of
  the first test is read from left to right.\<close>

definition wrong_shape :: "json \<Rightarrow> json \<Rightarrow> nat \<Rightarrow> py_error + bool" where
  "wrong_shape row fl n =
     zbind (py_get row ''kind'') (\<lambda>kind.
     if \<not> py_eq kind (JStr ''fairness'') then Inr True
     else zbind (py_len fl) (\<lambda>len.
     if len \<noteq> n then Inr True
     else zbind (py_get row ''flow_count'') (\<lambda>count. Inr (\<not> py_eq count (JInt (int len))))))"

definition check_flow :: "string \<Rightarrow> json \<Rightarrow> py_error + unit" where
  "check_flow name f = zbind (py_get f ''measured_bytes'') (\<lambda>v.
     py_raise (\<not> natural_int v) (''invalid measured bytes: '' @ name))"

definition check_counter :: "string \<Rightarrow> json \<Rightarrow> string \<Rightarrow> py_error + unit" where
  "check_counter name row key = zbind (py_get row key) (\<lambda>v.
     py_raise (\<not> natural_int v) (''invalid queue/counter field: '' @ name))"

definition check_row :: "string \<Rightarrow> json \<Rightarrow> int list \<Rightarrow> py_error + unit" where
  "check_row name row bytes =
     zbind (py_get_default row ''flows'' (JList [])) (\<lambda>fl.
     zbind (wrong_shape row fl (length bytes)) (\<lambda>wrong.
     zbind (py_raise wrong (''wrong cell type or flow count: '' @ name)) (\<lambda>_.
     let n = length bytes; starts = expected_starts name n; window = measure_window name in
     zbind (mapE (py_get row) [''seed'', ''measure_window_us'', ''virtual_us'']) (\<lambda>got.
     zbind (py_raise (\<not> py_eqs got [JInt 780740, JInt window, JInt (virtual_time name n)])
              (''wrong workload seed/window: '' @ name)) (\<lambda>_.
     zbind (py_iter fl) (\<lambda>flows.
     zbind (mapE (\<lambda>f. py_get f ''cc'') flows) (\<lambda>ccs.
     zbind (if py_eqs ccs (map JStr (expected_cc name n))
            then zbind (mapE (\<lambda>f. py_get f ''start_us'') flows) (\<lambda>ss.
                 py_raise (\<not> py_eqs ss (map JInt starts)) (''wrong controller/order/start: '' @ name))
            else Inl (ValueError (''wrong controller/order/start: '' @ name))) (\<lambda>_.
     zbind (mapE (check_flow name) flows) (\<lambda>_.
     zbind (mapE (check_counter name row) counter_keys) (\<lambda>_.
     Inr ()))))))))))"

text \<open>The key of a row in the dictionary comprehension must be hashable.\<close>

definition row_name :: "json \<Rightarrow> py_error + json" where
  "row_name row = zbind (py_index row ''name'') (\<lambda>n.
     case n of JList _ \<Rightarrow> Inl TypeError | JObj _ \<Rightarrow> Inl TypeError | _ \<Rightarrow> Inr n)"

definition name_of :: "json \<Rightarrow> string" where
  "name_of n = (case n of JStr s \<Rightarrow> s | _ \<Rightarrow> [])"

definition rows :: "json \<Rightarrow> py_error + (string \<times> json) list" where
  "rows report =
     zbind (mapE (py_get report) [''optimize'', ''zig_version'', ''samples_per_benchmark'']) (\<lambda>head.
     zbind (py_raise (\<not> py_eqs head [JStr ''safe'', JStr ''0.17.0'', JInt 1])
              ''expected Zig 0.17.0 ReleaseSafe, one deterministic sample per cell'') (\<lambda>_.
     zbind (py_get_default report ''benchmarks'' (JList [])) (\<lambda>bs.
     zbind (py_iter bs) (\<lambda>values.
     zbind (mapE row_name values) (\<lambda>names.
     zbind (py_raise (length values \<noteq> 14 \<or> set names \<noteq> set (map (JStr \<circ> fst) baseline_bytes))
              ''expected all 14 unique declared cells'') (\<lambda>_.
     let result = zip (map name_of names) values in
     zbind (mapE (\<lambda>(name, row). check_row name row (the (map_of baseline_bytes name))) result) (\<lambda>_.
     Inr result)))))))"

subsection \<open>Measures\<close>

definition jain :: "int list \<Rightarrow> rat" where
  "jain values =
     (let total = sum_list values; squares = sum_list (map (\<lambda>v. v * v) values) in
      if squares \<noteq> 0 then of_int (total * total) / of_int (int (length values) * squares) else 0)"

definition flow_bytes :: "json \<Rightarrow> py_error + int list" where
  "flow_bytes row =
     zbind (py_index row ''flows'') (\<lambda>fl. zbind (py_iter fl) (\<lambda>flows.
     mapE (\<lambda>f. zbind (py_index f ''measured_bytes'') py_int) flows))"

definition measure_row :: "json \<Rightarrow> py_error + (rat \<times> rat)" where
  "measure_row row =
     zbind (flow_bytes row) (\<lambda>values.
     zbind (zbind (py_index row ''measure_window_us'') py_int) (\<lambda>window.
     if window * 1250000 = 0 then Inl ZeroDivisionError
     else Inr (jain values, of_int (sum_list values * 1000000) / of_int (window * 1250000))))"

subsection \<open>The gate\<close>

datatype outcome = Improved | Worse | Equal

record controls =
  mixed_mean_jain_improved :: bool
  mixed_worst_jain_nonregressed :: bool
  all_clean_link_utilization_at_least_095 :: bool
  all_flows_progress :: bool
  homogeneous_bbr_jain_at_least_098 :: bool
  pure_cubic_reference_unchanged :: bool

text \<open>The fields \<open>baseline_..\<close> and \<open>candidate_..\<close> of one entry of \<open>queue_costs\<close>, and one entry of
  \<open>details\<close>.\<close>

record queue_cost =
  qc_name :: string
  qc_peak :: "json \<times> json"
  qc_queue_dropped :: "json \<times> json"
  qc_total_dropped :: "json \<times> json"

record lane_row =
  lr_counters :: "(string \<times> json) list"
  lr_jain :: rat
  lr_utilization :: rat
  lr_flows :: "json list"

record cell_detail =
  cd_name :: string
  cd_mixed :: bool
  cd_delta :: rat
  cd_outcome :: outcome
  cd_lanes :: "lane_row \<times> lane_row"

record comparison =
  cmp_controls :: controls
  passed_fairness_controls :: bool
  mixed_mean_jain :: "rat \<times> rat"
  mixed_worst_jain :: "rat \<times> rat"
  mixed_outcomes :: "nat \<times> nat \<times> nat"      \<comment> \<open>improved, worse, equal\<close>
  homogeneous_queue_costs :: "queue_cost list"
  cmp_rows :: "cell_detail list"

definition is_mixed :: "string \<Rightarrow> bool" where
  "is_mixed name = py_in ''mixed'' name"

text \<open>\<open>{f["cc"] for f in flows} == {"bbr"}\<close>\<close>

definition is_homogeneous :: "json \<Rightarrow> py_error + bool" where
  "is_homogeneous row =
     zbind (py_index row ''flows'') (\<lambda>fl. zbind (py_iter fl) (\<lambda>flows.
     zbind (mapE (\<lambda>f. py_index f ''cc'') flows) (\<lambda>ccs.
     Inr (ccs \<noteq> [] \<and> list_all (\<lambda>c. py_eq c (JStr ''bbr'')) ccs))))"

definition parity_keys :: "string list" where
  "parity_keys = [''flows'', ''seed'', ''measure_window_us'', ''virtual_us'', ''enqueued'',
     ''dropped'', ''queue_dropped'', ''peak_queue_delay_us'']"

definition all_controls :: "controls \<Rightarrow> bool" where
  "all_controls c \<longleftrightarrow> mixed_mean_jain_improved c \<and> mixed_worst_jain_nonregressed c
     \<and> all_clean_link_utilization_at_least_095 c \<and> all_flows_progress c
     \<and> homogeneous_bbr_jain_at_least_098 c \<and> pure_cubic_reference_unchanged c"

definition outcome_of :: "rat \<Rightarrow> outcome" where
  "outcome_of delta = (if delta > 0 then Improved else if delta < 0 then Worse else Equal)"

definition row_of :: "(string \<times> json) list \<Rightarrow> string \<Rightarrow> py_error + json" where
  "row_of data name = (case map_of data name of Some r \<Rightarrow> Inr r | None \<Rightarrow> Inl (KeyError name))"

definition list_min :: "rat list \<Rightarrow> rat" where
  "list_min xs = fold min (tl xs) (hd xs)"

definition rat_mean :: "rat list \<Rightarrow> rat" where
  "rat_mean xs = sum_list xs / of_nat (length xs)"

text \<open>The six controls; \<open>sb\<close> and \<open>sc\<close> are the measures of the two lanes.\<close>

definition jain_of :: "(string \<times> rat \<times> rat) list \<Rightarrow> string \<Rightarrow> rat" where
  "jain_of stats n = fst (the (map_of stats n))"

definition mean_over :: "string list \<Rightarrow> (string \<times> rat \<times> rat) list \<Rightarrow> rat" where
  "mean_over names stats = rat_mean (map (jain_of stats) names)"

definition worst_over :: "string list \<Rightarrow> (string \<times> rat \<times> rat) list \<Rightarrow> rat" where
  "worst_over names stats = list_min (map (jain_of stats) names)"

definition gate_controls ::
  "string list \<Rightarrow> string list \<Rightarrow> (string \<times> rat \<times> rat) list \<Rightarrow> (string \<times> rat \<times> rat) list \<Rightarrow>
   int list list \<Rightarrow> bool list \<Rightarrow> controls" where
  "gate_controls mixed homogeneous sb sc cbytes parity =
     \<lparr>mixed_mean_jain_improved = mean_over mixed sc > mean_over mixed sb,
      mixed_worst_jain_nonregressed = worst_over mixed sc \<ge> worst_over mixed sb,
      all_clean_link_utilization_at_least_095 = list_all (\<lambda>(n, (_, u)). u \<ge> 95 / 100) sc,
      all_flows_progress = list_all (\<lambda>bs. list_all (\<lambda>b. b > 0) bs) cbytes,
      homogeneous_bbr_jain_at_least_098 = list_all (\<lambda>n. jain_of sc n \<ge> 98 / 100) homogeneous,
      pure_cubic_reference_unchanged = list_all id parity\<rparr>"

text \<open>The details of one cell.\<close>

definition detail_keys :: "string list" where
  "detail_keys = [''seed'', ''measure_window_us'', ''virtual_us'', ''enqueued'', ''dropped'',
     ''queue_dropped'', ''peak_queue_delay_us'']"

definition with_share :: "int \<Rightarrow> json \<Rightarrow> py_error + json" where
  "with_share lane_total flow =
     (case flow of
        JObj kvs \<Rightarrow> zbind (zbind (py_index flow ''measured_bytes'') py_int) (\<lambda>b.
          Inr (JObj (AList.update ''share''
                 (if lane_total \<noteq> 0 then JFloat (of_int b / of_int lane_total) else JInt 0) kvs)))
      | _ \<Rightarrow> Inl TypeError)"

definition lane_row_of :: "(string \<times> rat \<times> rat) list \<Rightarrow> string \<Rightarrow> json \<Rightarrow> py_error + lane_row" where
  "lane_row_of stats name row =
     zbind (flow_bytes row) (\<lambda>bs.
     zbind (mapE (\<lambda>key. zbind (py_index row key) (\<lambda>v. Inr (key, v))) detail_keys) (\<lambda>counters.
     zbind (py_float (jain_of stats name)) (\<lambda>index.
     zbind (py_float (snd (the (map_of stats name)))) (\<lambda>utilization.
     zbind (py_index row ''flows'') (\<lambda>fl. zbind (py_iter fl) (\<lambda>flows.
     zbind (mapE (with_share (sum_list bs)) flows) (\<lambda>shared.
     Inr \<lparr>lr_counters = counters, lr_jain = index, lr_utilization = utilization,
          lr_flows = shared\<rparr>)))))))"

definition cell_detail_of ::
  "(string \<times> rat \<times> rat) list \<Rightarrow> (string \<times> rat \<times> rat) list \<Rightarrow> (string \<times> json) list \<Rightarrow>
   (string \<times> json) list \<Rightarrow> string \<Rightarrow> py_error + cell_detail" where
  "cell_detail_of sb sc baseline candidate name =
     (let delta = jain_of sc name - jain_of sb name in
      zbind (row_of baseline name) (\<lambda>rb. zbind (lane_row_of sb name rb) (\<lambda>lb.
      zbind (row_of candidate name) (\<lambda>rc. zbind (lane_row_of sc name rc) (\<lambda>lc.
      zbind (py_float delta) (\<lambda>jain_delta.
      Inr \<lparr>cd_name = name, cd_mixed = is_mixed name, cd_delta = jain_delta,
           cd_outcome = outcome_of delta, cd_lanes = (lb, lc)\<rparr>))))))"

definition pair_of :: "json \<Rightarrow> json \<Rightarrow> string \<Rightarrow> py_error + (json \<times> json)" where
  "pair_of rb rc key = zbind (py_index rb key) (\<lambda>b. zbind (py_index rc key) (\<lambda>c. Inr (b, c)))"

definition queue_cost_of ::
  "(string \<times> json) list \<Rightarrow> (string \<times> json) list \<Rightarrow> string \<Rightarrow> py_error + queue_cost" where
  "queue_cost_of baseline candidate name =
     zbind (row_of baseline name) (\<lambda>rb. zbind (row_of candidate name) (\<lambda>rc.
     zbind (pair_of rb rc ''peak_queue_delay_us'') (\<lambda>peak.
     zbind (pair_of rb rc ''queue_dropped'') (\<lambda>qd.
     zbind (pair_of rb rc ''dropped'') (\<lambda>d.
     Inr \<lparr>qc_name = name, qc_peak = peak, qc_queue_dropped = qd, qc_total_dropped = d\<rparr>)))))"

definition tally :: "cell_detail list \<Rightarrow> outcome \<Rightarrow> nat" where
  "tally details oc = length (filter (\<lambda>d. cd_mixed d \<and> cd_outcome d = oc) details)"

definition measure_all :: "(string \<times> json) list \<Rightarrow> py_error + (string \<times> rat \<times> rat) list" where
  "measure_all data = mapE (\<lambda>(name, row). zbind (measure_row row) (\<lambda>m. Inr (name, m))) data"

text \<open>Whether each baseline cell has the frozen byte counts.\<close>

definition baseline_matches :: "(string \<times> json) list \<Rightarrow> py_error + bool list" where
  "baseline_matches baseline =
     mapE (\<lambda>(name, expected). zbind (row_of baseline name) (\<lambda>row.
       zbind (flow_bytes row) (\<lambda>got. Inr (got = expected)))) baseline_bytes"

text \<open>Whether each parity key of the pure CUBIC cell is unchanged.\<close>

definition cubic_parity :: "(string \<times> json) list \<Rightarrow> (string \<times> json) list \<Rightarrow> py_error + bool list" where
  "cubic_parity baseline candidate =
     zbind (row_of baseline ''fairness_10mbit_2f_cubic'') (\<lambda>rb.
     zbind (row_of candidate ''fairness_10mbit_2f_cubic'') (\<lambda>rc.
     mapE (\<lambda>key. zbind (pair_of rb rc key) (\<lambda>(b, c). Inr (py_eq b c))) parity_keys))"

text \<open>\<open>compare\<close> after both reports passed \<open>rows\<close>.\<close>

definition compare_rows ::
  "(string \<times> json) list \<Rightarrow> (string \<times> json) list \<Rightarrow> py_error + comparison" where
  "compare_rows baseline candidate =
     zbind (baseline_matches baseline) (\<lambda>same.
     zbind (py_raise (\<not> list_all id same) ''fresh S4 baseline differs from immutable measured-byte controls'') (\<lambda>_.
     let names = map fst baseline; mixed = filter is_mixed names in
     zbind (mapE (\<lambda>(name, row). is_homogeneous row) baseline) (\<lambda>homog.
     let homogeneous = map fst (filter snd (zip names homog)) in
     zbind (measure_all baseline) (\<lambda>sb.
     zbind (measure_all candidate) (\<lambda>sc.
     zbind (mapE (\<lambda>(name, row). flow_bytes row) candidate) (\<lambda>cbytes.
     zbind (cubic_parity baseline candidate) (\<lambda>parity.
     let ctl = gate_controls mixed homogeneous sb sc cbytes parity in
     zbind (mapE (cell_detail_of sb sc baseline candidate) names) (\<lambda>details.
     zbind (mapE (queue_cost_of baseline candidate) homogeneous) (\<lambda>costs.
     zbind (mapE (\<lambda>stats. py_float (mean_over mixed stats)) [sb, sc]) (\<lambda>means.
     zbind (mapE (\<lambda>stats. py_float (worst_over mixed stats)) [sb, sc]) (\<lambda>worst.
     Inr \<lparr>cmp_controls = ctl, passed_fairness_controls = all_controls ctl,
          mixed_mean_jain = (hd means, last means), mixed_worst_jain = (hd worst, last worst),
          mixed_outcomes = (tally details Improved, tally details Worse, tally details Equal),
          homogeneous_queue_costs = costs, cmp_rows = details\<rparr>)))))))))))"

definition compare_reports :: "json \<Rightarrow> json \<Rightarrow> py_error + comparison" where
  "compare_reports baseline candidate =
     zbind (rows baseline) (\<lambda>b. zbind (rows candidate) (\<lambda>c. compare_rows b c))"

subsection \<open>Jain's index\<close>

definition sum_sq :: "int list \<Rightarrow> int" where
  "sum_sq vs = sum_list (map (\<lambda>v. v * v) vs)"

lemma sum_sq_simps [simp]: "sum_sq [] = 0" "sum_sq (v # vs) = v * v + sum_sq vs"
  by (simp_all add: sum_sq_def)

lemma sum_sq_nonneg: "0 \<le> sum_sq vs"
  by (induction vs) simp_all

lemma deviation_sum:
  "sum_list (map (\<lambda>v. (a * v - b) * (a * v - b)) vs) =
     a * a * sum_sq vs - 2 * a * b * sum_list vs + int (length vs) * (b * b)"
  by (induction vs) (simp_all add: algebra_simps)

lemma deviation_nonneg: "0 \<le> sum_list (map (\<lambda>v. (a * v - b) * (a * v - b)) (vs :: int list))"
  by (induction vs) simp_all

lemma cauchy_schwarz_list: "sum_list vs * sum_list vs \<le> int (length vs) * sum_sq vs"
proof (cases "vs = []")
  case False
  then have n: "0 < int (length vs)" by simp
  have "0 \<le> int (length vs) * (int (length vs) * sum_sq vs - sum_list vs * sum_list vs)"
    using deviation_nonneg [of "int (length vs)" "sum_list vs" vs]
    unfolding deviation_sum by (simp add: algebra_simps)
  with n show ?thesis by (simp add: zero_le_mult_iff)
qed simp

lemma cauchy_schwarz_equality:
  assumes "sum_list vs * sum_list vs = int (length vs) * sum_sq vs" "v \<in> set vs"
  shows "int (length vs) * v = sum_list vs"
proof -
  have "sum_list (map (\<lambda>v. (int (length vs) * v - sum_list vs) * (int (length vs) * v - sum_list vs)) vs) = 0"
    unfolding deviation_sum using assms(1) by (simp add: algebra_simps)
  moreover have "sum_list (map (\<lambda>v. (a * v - b) * (a * v - b)) ws) = 0 \<longrightarrow> (\<forall>w\<in>set ws. a * w = b)"
    for a b :: int and ws
  proof (induction ws)
    case (Cons w ws)
    let ?x = "(a * w - b) * (a * w - b)" and ?r = "sum_list (map (\<lambda>v. (a * v - b) * (a * v - b)) ws)"
    have nn: "0 \<le> ?x" "0 \<le> ?r" by (rule zero_le_square, rule deviation_nonneg)
    show ?case
    proof
      assume "sum_list (map (\<lambda>v. (a * v - b) * (a * v - b)) (w # ws)) = 0"
      then have "?x + ?r = 0" by (simp only: list.map sum_list.Cons)
      with nn have "?x = 0" "?r = 0" by linarith+
      with Cons show "\<forall>v\<in>set (w # ws). a * v = b" by simp
    qed
  qed simp
  ultimately show ?thesis using assms(2) by blast
qed

lemma sum_sq_le_square: "\<forall>v\<in>set vs. 0 \<le> v \<Longrightarrow> sum_sq vs \<le> sum_list vs * sum_list vs \<and> 0 \<le> sum_list vs"
proof (induction vs)
  case (Cons v vs)
  then have *: "0 \<le> v" "sum_sq vs \<le> sum_list vs * sum_list vs" "0 \<le> sum_list vs" by simp_all
  from *(1,3) have "0 \<le> v * sum_list vs" by (rule mult_nonneg_nonneg)
  moreover have "(v + sum_list vs) * (v + sum_list vs) = v * v + sum_list vs * sum_list vs + 2 * (v * sum_list vs)"
    by (simp add: algebra_simps)
  ultimately have "v * v + sum_sq vs \<le> (v + sum_list vs) * (v + sum_list vs)" using *(2) by linarith
  with *(1,3) show ?case by simp
qed simp

lemma sum_sq_zero_iff: "sum_sq vs = 0 \<longleftrightarrow> (\<forall>v\<in>set vs. v = 0)"
proof (induction vs)
  case (Cons v vs)
  then show ?case using sum_sq_nonneg [of vs] zero_le_square [of v]
    by (auto simp: add_nonneg_eq_0_iff)
qed simp

lemma all_equal_sums:
  "\<forall>v\<in>set vs. v = c \<Longrightarrow> sum_list vs = int (length vs) * c \<and> sum_sq vs = int (length vs) * (c * c)"
  by (induction vs) (simp_all add: algebra_simps)

lemma jain_eq: "jain vs = (if sum_sq vs \<noteq> 0
   then of_int (sum_list vs * sum_list vs) / of_int (int (length vs) * sum_sq vs) else 0)"
  by (simp add: jain_def sum_sq_def Let_def)

lemma sum_sq_pos: "sum_sq vs \<noteq> 0 \<Longrightarrow> 0 < int (length vs) * sum_sq vs"
  using sum_sq_nonneg [of vs] by (cases vs) auto

text \<open>The fairness measure is Jain's index.  For nonnegative per-flow byte counts it lies
  between 0 and 1; it is 0 exactly when nothing was sent, at least \<open>1/n\<close> otherwise, and 1
  exactly when all flows sent the same positive amount.\<close>

lemma jain_index:
  assumes "\<forall>v\<in>set vs. 0 \<le> v"
  shows "0 \<le> jain vs \<and> jain vs \<le> 1 \<and> (jain vs = 0 \<longleftrightarrow> (\<forall>v\<in>set vs. v = 0)) \<and>
    (jain vs \<noteq> 0 \<longrightarrow> 1 / of_nat (length vs) \<le> jain vs) \<and>
    (jain vs = 1 \<longleftrightarrow> vs \<noteq> [] \<and> hd vs \<noteq> 0 \<and> (\<forall>v\<in>set vs. v = hd vs))"
proof (cases "sum_sq vs = 0")
  case True
  then have z: "\<forall>v\<in>set vs. v = 0" "jain vs = 0" using sum_sq_zero_iff by (auto simp: jain_eq)
  then show ?thesis by (cases vs) auto
next
  case False
  let ?S = "sum_list vs" and ?Q = "sum_sq vs" and ?n = "int (length vs)"
  have d: "0 < ?n * ?Q" by (rule sum_sq_pos [OF False])
  have n: "0 < ?n" using d sum_sq_nonneg [of vs] by (simp add: zero_less_mult_iff)
  have j: "jain vs = of_int (?S * ?S) / of_int (?n * ?Q)" using False by (simp only: jain_eq) simp
  have dr: "0 < (of_int (?n * ?Q) :: rat)" using d by (simp only: of_int_0_less_iff)
  have Q: "?Q \<le> ?S * ?S" "0 < ?Q" using sum_sq_le_square [OF assms] sum_sq_nonneg [of vs] False by auto
  have nz: "\<not> (\<forall>v\<in>set vs. v = 0)" using False sum_sq_zero_iff by simp
  have le1: "jain vs \<le> 1"
    unfolding j using cauchy_schwarz_list [of vs] dr by (simp only: divide_le_eq_1_pos of_int_le_iff)
  have pos: "0 < jain vs" unfolding j using Q dr by (intro divide_pos_pos) (simp_all only: of_int_0_less_iff)
  have low: "1 / of_nat (length vs) \<le> jain vs"
  proof -
    have "(1 :: rat) / of_nat (length vs) = of_int ?Q / of_int (?n * ?Q)"
      using Q(2) n by simp
    also have "\<dots> \<le> jain vs"
      unfolding j using Q(1) dr by (intro divide_right_mono) (simp_all only: of_int_le_iff less_imp_le)
    finally show ?thesis .
  qed
  have one: "jain vs = 1 \<longleftrightarrow> ?S * ?S = ?n * ?Q"
    unfolding j using dr by (simp only: divide_eq_1_iff of_int_eq_iff) auto
  have eq: "?S * ?S = ?n * ?Q \<longleftrightarrow> (\<forall>v\<in>set vs. v = hd vs)"
  proof
    assume s: "?S * ?S = ?n * ?Q"
    show "\<forall>v\<in>set vs. v = hd vs"
    proof
      fix v assume v: "v \<in> set vs"
      then have "hd vs \<in> set vs" by (cases vs) auto
      from cauchy_schwarz_equality [OF s v] cauchy_schwarz_equality [OF s this] n
      have "?n * v = ?n * hd vs" by simp
      with n show "v = hd vs" by simp
    qed
  next
    assume "\<forall>v\<in>set vs. v = hd vs"
    from all_equal_sums [OF this] show "?S * ?S = ?n * ?Q" by simp
  qed
  have ne: "vs \<noteq> []" using n by auto
  have hd: "(\<forall>v\<in>set vs. v = hd vs) \<longrightarrow> hd vs \<noteq> 0" using nz by metis
  have e0: "(jain vs = 0) = (\<forall>v\<in>set vs. v = 0)" using nz less_imp_neq [OF pos] by argo
  have e1: "(jain vs = 1) = (vs \<noteq> [] \<and> hd vs \<noteq> 0 \<and> (\<forall>v\<in>set vs. v = hd vs))"
    using one eq ne hd by argo
  show ?thesis by (intro conjI impI less_imp_le [OF pos] le1 e0 low e1)
qed

subsection \<open>The digest stream\<close>

lemma be_bytes_inj: "m < 256 ^ k \<Longrightarrow> n < 256 ^ k \<Longrightarrow> be_bytes k m = be_bytes k n \<Longrightarrow> m = n"
  by (metis be_val_be_bytes mod_less)

lemma digest_chunk_prefix_free:
  assumes "length a < 2 ^ 64" "length b < 2 ^ 64" "digest_chunk a @ r = digest_chunk b @ s"
  shows "a = b \<and> r = s"
proof -
  have "be_bytes 8 (length a) = be_bytes 8 (length b)" "a @ r = b @ s"
    using assms(3) by (simp_all add: digest_chunk_def append_eq_append_conv)
  moreover have "(256 :: nat) ^ 8 = 2 ^ 64" by simp
  ultimately have "length a = length b" using be_bytes_inj [of "length a" 8 "length b"] assms(1,2) by simp
  with \<open>a @ r = b @ s\<close> show ?thesis by simp
qed

lemma digest_stream_filter:
  "digest_stream e f names = digest_stream e f (filter runtime_input names)"
  by (simp add: digest_stream_def)

lemma digest_stream_Cons:
  "digest_stream e f (n # names) =
     (if runtime_input n then digest_chunk (e n) @ digest_chunk (f n) @ digest_stream e f names
      else digest_stream e f names)"
  by (simp add: digest_stream_def)

lemma digest_chunk_nonempty: "digest_chunk a \<noteq> []"
  using length_be_bytes [of 8 "length a"] by (auto simp: digest_chunk_def simp del: length_be_bytes)

lemma digest_stream_Nil: "digest_stream e f [] = []"
  by (simp add: digest_stream_def)

lemma digest_stream_inj_filtered:
  "inj_on e A \<Longrightarrow> \<forall>n\<in>A. length (e n) < 2 ^ 64 \<and> length (f n) < 2 ^ 64 \<and> length (g n) < 2 ^ 64 \<Longrightarrow>
   set ms \<subseteq> A \<Longrightarrow> set ns \<subseteq> A \<Longrightarrow>
   \<forall>n\<in>set ms. runtime_input n \<Longrightarrow> \<forall>n\<in>set ns. runtime_input n \<Longrightarrow>
   digest_stream e f ms = digest_stream e g ns \<Longrightarrow> ms = ns \<and> (\<forall>n\<in>set ms. f n = g n)"
proof (induction ms arbitrary: ns)
  case Nil
  show ?case
  proof (cases ns)
    case (Cons n ns')
    with Nil.prems(6,7) digest_chunk_nonempty [of "e n"] show ?thesis
      by (simp add: digest_stream_Nil digest_stream_Cons)
  qed simp
next
  case (Cons m ms)
  show ?case
  proof (cases ns)
    case Nil
    with Cons.prems(5,7) digest_chunk_nonempty [of "e m"] show ?thesis
      by (simp add: digest_stream_Nil digest_stream_Cons)
  next
    case (Cons n ns')
    have mn: "m \<in> A" "n \<in> A" using Cons.prems(3,4) Cons by auto
    have eq: "digest_chunk (e m) @ digest_chunk (f m) @ digest_stream e f ms =
        digest_chunk (e n) @ digest_chunk (g n) @ digest_stream e g ns'"
      using Cons.prems(5-7) Cons by (simp add: digest_stream_Cons)
    have a: "e m = e n" "digest_chunk (f m) @ digest_stream e f ms =
        digest_chunk (g n) @ digest_stream e g ns'"
      using digest_chunk_prefix_free [OF _ _ eq] Cons.prems(2) mn by blast+
    have b: "f m = g n" "digest_stream e f ms = digest_stream e g ns'"
      using digest_chunk_prefix_free [OF _ _ a(2)] Cons.prems(2) mn by blast+
    have "m = n" using a(1) Cons.prems(1) mn by (simp add: inj_on_eq_iff)
    moreover have "ms = ns' \<and> (\<forall>n\<in>set ms. f n = g n)"
      by (rule Cons.IH [OF Cons.prems(1,2) _ _ _ _ b(2)]) (use Cons.prems Cons in auto)
    ultimately show ?thesis using b(1) Cons by simp
  qed
qed

text \<open>C18: The digest of the build inputs determines them.  The stream hashed by
  \<open>runtime_digest\<close> is injective: if two source trees give the same stream, they select the
  same files in the same order with the same contents, so two different trees can only share
  a digest through a collision of the hash itself.\<close>

theorem runtime_digest_injective:
  assumes "inj_on encode_name (set ms \<union> set ns)"
    and "\<forall>n\<in>set ms \<union> set ns. length (encode_name n) < 2 ^ 64 \<and> length (f n) < 2 ^ 64 \<and> length (g n) < 2 ^ 64"
    and "digest_stream encode_name f ms = digest_stream encode_name g ns"
  shows "filter runtime_input ms = filter runtime_input ns \<and>
     (\<forall>n\<in>set ms. runtime_input n \<longrightarrow> f n = g n)"
proof -
  have "digest_stream encode_name f (filter runtime_input ms) =
      digest_stream encode_name g (filter runtime_input ns)"
    using assms(3) by (simp only: digest_stream_filter [symmetric])
  then have "filter runtime_input ms = filter runtime_input ns \<and>
      (\<forall>n\<in>set (filter runtime_input ms). f n = g n)"
    by (rule digest_stream_inj_filtered [OF assms(1,2), rotated -1]) (auto simp only: set_filter)
  then show ?thesis by (simp only: set_filter) blast
qed

theorem runtime_digest_injective_witness:
  "filter runtime_input [''src/a'', ''doc''] = filter runtime_input [''src/a''] \<and>
   digest_stream (map of_char) (\<lambda>_. [7]) [''src/a'', ''doc''] =
   digest_stream (map of_char) (\<lambda>_. [7]) [''src/a'']"
proof -
  have d: "digest_stream (map of_char) (\<lambda>_. [7]) [''src/a'', ''doc''] =
      digest_stream (map of_char) (\<lambda>_. [7]) [''src/a'']"
    by (simp add: digest_stream_def runtime_input_def startswith_def)
  have i: "inj_on (map of_char :: string \<Rightarrow> byte list) (set [''src/a'', ''doc''] \<union> set [''src/a''])"
    by (simp add: inj_on_def)
  from runtime_digest_injective [OF i _ d] d show ?thesis by simp
qed

subsection \<open>What \<open>rows\<close> guarantees\<close>

text \<open>The shape of a validated cell with \<open>n\<close> flows.\<close>

definition row_shape :: "nat \<Rightarrow> json \<Rightarrow> bool" where
  "row_shape n row \<longleftrightarrow> (\<exists>flows bs. py_index row ''flows'' = Inr (JList flows) \<and> length flows = n \<and>
     mapE (\<lambda>f. zbind (py_index f ''measured_bytes'') py_int) flows = Inr bs \<and> (\<forall>b\<in>set bs. 0 \<le> b) \<and>
     (\<exists>ccs. mapE (\<lambda>f. py_index f ''cc'') flows = Inr ccs)) \<and>
     (\<forall>k\<in>set parity_keys. \<exists>v. py_index row k = Inr v)"

lemma py_get_error_free: "py_get d k = Inr v \<Longrightarrow> \<exists>kvs. d = JObj kvs"
  by (auto simp: py_get_def py_get_default_def split: json.splits)

lemma mapE_pointwise: "mapE f xs = Inr ys \<Longrightarrow> x \<in> set xs \<Longrightarrow> \<exists>y. f x = Inr y"
  by (induction xs arbitrary: ys) (auto simp: zbind_eq_Inr)

lemma mapE_result: "mapE f xs = Inr ys \<Longrightarrow> y \<in> set ys \<Longrightarrow> \<exists>x\<in>set xs. f x = Inr y"
  by (induction xs arbitrary: ys) (auto simp: zbind_eq_Inr)

lemma mapE_exists: "(\<And>x. x \<in> set xs \<Longrightarrow> \<exists>y. f x = Inr y) \<Longrightarrow> \<exists>ys. mapE f xs = Inr ys"
  by (induction xs) fastforce+

lemma py_eqs3: "py_eqs [a, b, c] [x, y, z] \<longleftrightarrow> py_eq a x \<and> py_eq b y \<and> py_eq c z"
  by (simp add: py_eqs_def)

lemma flows_list:
  assumes "py_get_default row ''flows'' (JList []) = Inr fl" "py_iter fl = Inr flows" "flows \<noteq> []"
    and "\<And>f. f \<in> set flows \<Longrightarrow> \<exists>v. py_get f ''cc'' = Inr v"
  shows "py_index row ''flows'' = Inr (JList flows)"
proof -
  have obj: "\<exists>kvs. f = JObj kvs" if "f \<in> set flows" for f
    using assms(4) [OF that] py_get_error_free by blast
  have "fl = JList flows"
    using assms(2,3) obj [of "hd flows"] by (cases fl; cases flows) (auto simp: py_iter_def)
  then show ?thesis using assms(1,3)
    by (auto simp: py_get_default_def py_index_def split: json.splits option.splits)
qed

lemma wrong_shape_False: "wrong_shape row fl n = Inr False \<Longrightarrow> py_len fl = Inr n"
  by (auto simp: wrong_shape_def zbind_eq_Inr split: if_splits)

lemma py_len_iter: "py_len fl = Inr n \<Longrightarrow> py_iter fl = Inr xs \<Longrightarrow> length xs = n"
  by (auto simp: py_len_def py_iter_def split: json.splits)

lemma check_row_shape:
  assumes "check_row name row bytes = Inr u" "bytes \<noteq> []"
  shows "row_shape (length bytes) row"
proof -
  obtain fl flows got ccs ss x y where
    fl: "py_get_default row ''flows'' (JList []) = Inr fl" "py_iter fl = Inr flows"
    and ws: "wrong_shape row fl (length bytes) = Inr False"
    and got: "mapE (py_get row) [''seed'', ''measure_window_us'', ''virtual_us''] = Inr got"
      "py_eqs got [JInt 780740, JInt (measure_window name), JInt (virtual_time name (length bytes))]"
    and ccs: "mapE (\<lambda>f. py_get f ''cc'') flows = Inr ccs" "py_eqs ccs (map JStr (expected_cc name (length bytes)))"
    and mb: "mapE (check_flow name) flows = Inr x"
    and ck: "mapE (check_counter name row) counter_keys = Inr y"
    using assms(1) by (auto simp: check_row_def zbind_eq_Inr Let_def split: if_splits)
  have len: "length flows = length bytes"
    using wrong_shape_False [OF ws] py_len_iter [OF _ fl(2)] by simp
  have ne: "flows \<noteq> []" using len assms(2) by auto
  have fo: "\<exists>v. py_get f ''cc'' = Inr v" if "f \<in> set flows" for f
    using mapE_pointwise [OF ccs(1) that] .
  note F = flows_list [OF fl ne fo]
  have mb1: "\<exists>n. zbind (py_index f ''measured_bytes'') py_int = Inr n \<and> 0 \<le> n" if f: "f \<in> set flows" for f
  proof -
    obtain v where v: "py_get f ''measured_bytes'' = Inr v" "natural_int v"
      using mapE_pointwise [OF mb f] by (auto simp: check_flow_def zbind_eq_Inr)
    then obtain n where n: "v = JInt n" "0 \<le> n" using natural_intD by blast
    with py_get_index [OF v(1)] show ?thesis by (simp add: py_int_def)
  qed
  obtain bs where bs: "mapE (\<lambda>f. zbind (py_index f ''measured_bytes'') py_int) flows = Inr bs"
    using mapE_exists [of flows "\<lambda>f. zbind (py_index f ''measured_bytes'') py_int"] mb1 by blast
  have "\<forall>b\<in>set bs. 0 \<le> b"
  proof
    fix b assume "b \<in> set bs"
    from mapE_result [OF bs this] mb1 show "0 \<le> b" by force
  qed
  moreover have "\<exists>cs. mapE (\<lambda>f. py_index f ''cc'') flows = Inr cs"
  proof (rule mapE_exists)
    fix f assume f: "f \<in> set flows"
    obtain i where i: "i < length flows" "f = flows ! i" using f by (auto simp: in_set_conv_nth)
    have a: "list_all2 (\<lambda>x y. py_get x ''cc'' = Inr y) flows ccs" using ccs(1) by (simp add: mapE_Inr_iff)
    have "py_get f ''cc'' = Inr (ccs ! i)" using list_all2_nthD [OF a i(1)] i(2) by simp
    moreover have "ccs ! i \<noteq> JNull"
    proof -
      have l: "length ccs = length flows" using a by (simp add: list_all2_lengthD)
      have b: "list_all2 py_eq ccs (map JStr (expected_cc name (length bytes)))" using ccs(2) by (simp add: py_eqs_def)
      from list_all2_nthD [OF b, of i] list_all2_lengthD [OF b] i(1) l
      have "py_eq (ccs ! i) (JStr (expected_cc name (length bytes) ! i))" by simp
      then show ?thesis by auto
    qed
    ultimately show "\<exists>v. py_index f ''cc'' = Inr v" using py_get_index by blast
  qed
  moreover have "\<forall>k\<in>set parity_keys. \<exists>v. py_index row k = Inr v"
  proof -
    obtain a b c where abc: "got = [a, b, c]" "py_get row ''seed'' = Inr a"
      "py_get row ''measure_window_us'' = Inr b" "py_get row ''virtual_us'' = Inr c"
      using got(1) by (auto simp: zbind_eq_Inr)
    from got(2) have "a \<noteq> JNull" "b \<noteq> JNull" "c \<noteq> JNull"
      unfolding abc(1) py_eqs3 by (auto dest: py_eq_JInt)
    with abc py_get_index have "\<exists>v. py_index row ''seed'' = Inr v"
      "\<exists>v. py_index row ''measure_window_us'' = Inr v" "\<exists>v. py_index row ''virtual_us'' = Inr v" by blast+
    moreover have "\<exists>v. py_index row k = Inr v" if kc: "k \<in> set counter_keys" for k
    proof -
      obtain v where v: "py_get row k = Inr v" "natural_int v"
        using mapE_pointwise [OF ck kc] by (auto simp: check_counter_def zbind_eq_Inr)
      then have "v \<noteq> JNull" using natural_intD by fastforce
      with py_get_index [OF v(1)] show ?thesis by blast
    qed
    ultimately show ?thesis using F by (auto simp: parity_keys_def counter_keys_def)
  qed
  ultimately show ?thesis unfolding row_shape_def using F len bs by blast
qed

text \<open>\<open>d[k] == v\<close>, and \<open>d[k]\<close> is a nonnegative integer.\<close>

definition field_is :: "json \<Rightarrow> string \<Rightarrow> json \<Rightarrow> bool" where
  "field_is d k v = (case py_index d k of Inr w \<Rightarrow> py_eq w v | Inl _ \<Rightarrow> False)"

definition field_natural :: "json \<Rightarrow> string \<Rightarrow> bool" where
  "field_natural d k = (case py_index d k of Inr w \<Rightarrow> natural_int w | Inl _ \<Rightarrow> False)"

text \<open>The cell that the benchmark declares under \<open>name\<close>, with \<open>n\<close> flows.\<close>

definition declared_cell :: "string \<Rightarrow> nat \<Rightarrow> json \<Rightarrow> json list \<Rightarrow> bool" where
  "declared_cell name n row flows \<longleftrightarrow>
     py_index row ''flows'' = Inr (JList flows) \<and> length flows = n \<and>
     field_is row ''kind'' (JStr ''fairness'') \<and> field_is row ''flow_count'' (JInt (int n)) \<and>
     field_is row ''seed'' (JInt 780740) \<and> field_is row ''measure_window_us'' (JInt (measure_window name)) \<and>
     field_is row ''virtual_us'' (JInt (virtual_time name n)) \<and>
     (\<forall>i<n. field_is (flows ! i) ''cc'' (JStr (expected_cc name n ! i)) \<and>
        field_is (flows ! i) ''start_us'' (JInt (expected_starts name n ! i)) \<and>
        field_natural (flows ! i) ''measured_bytes'') \<and>
     (\<forall>k\<in>set counter_keys. field_natural row k)"

lemma field_is_get: "py_get d k = Inr w \<Longrightarrow> py_eq w v \<Longrightarrow> v \<noteq> JNull \<Longrightarrow> field_is d k v"
  using py_get_index [of d k w] by (cases v; cases w) (auto simp: field_is_def)

lemma field_natural_get: "py_get d k = Inr w \<Longrightarrow> natural_int w \<Longrightarrow> field_natural d k"
  using py_get_index [of d k w] by (auto simp: field_natural_def natural_int_def split: json.splits)

lemma mapE_py_eqs:
  assumes "mapE (\<lambda>f. py_get f k) flows = Inr vs" "py_eqs vs (map g ws)" "i < length flows" "\<And>w. g w \<noteq> JNull"
  shows "field_is (flows ! i) k (g (ws ! i))"
proof -
  have a: "list_all2 (\<lambda>f v. py_get f k = Inr v) flows vs" using assms(1) by (simp add: mapE_Inr_iff)
  have b: "list_all2 py_eq vs (map g ws)" using assms(2) by (simp add: py_eqs_def)
  have "i < length vs" "i < length ws"
    using assms(3) list_all2_lengthD [OF a] list_all2_lengthD [OF b] by simp_all
  with list_all2_nthD [OF a assms(3)] list_all2_nthD [OF b, of i] field_is_get assms(4)
  show ?thesis by (metis nth_map)
qed

lemma check_row_declared:
  assumes "check_row name row bytes = Inr u" "bytes \<noteq> []"
  shows "\<exists>flows. declared_cell name (length bytes) row flows"
proof -
  let ?n = "length bytes"
  obtain fl flows got ccs ss x y where
    fl: "py_get_default row ''flows'' (JList []) = Inr fl" "py_iter fl = Inr flows"
    and ws: "wrong_shape row fl ?n = Inr False"
    and got: "mapE (py_get row) [''seed'', ''measure_window_us'', ''virtual_us''] = Inr got"
      "py_eqs got [JInt 780740, JInt (measure_window name), JInt (virtual_time name ?n)]"
    and ccs: "mapE (\<lambda>f. py_get f ''cc'') flows = Inr ccs" "py_eqs ccs (map JStr (expected_cc name ?n))"
    and ss: "mapE (\<lambda>f. py_get f ''start_us'') flows = Inr ss" "py_eqs ss (map JInt (expected_starts name ?n))"
    and mb: "mapE (check_flow name) flows = Inr x"
    and ck: "mapE (check_counter name row) counter_keys = Inr y"
    using assms(1) by (auto simp: check_row_def zbind_eq_Inr Let_def split: if_splits)
  have len: "length flows = ?n" using wrong_shape_False [OF ws] py_len_iter [OF _ fl(2)] by simp
  have ne: "flows \<noteq> []" using len assms(2) by auto
  have idx: "py_index row ''flows'' = Inr (JList flows)"
    by (rule flows_list [OF fl ne mapE_pointwise [OF ccs(1)]])
  obtain kind count where "py_get row ''kind'' = Inr kind" "py_eq kind (JStr ''fairness'')"
    "py_get row ''flow_count'' = Inr count" "py_eq count (JInt (int ?n))"
    using ws by (auto simp: wrong_shape_def zbind_eq_Inr split: if_splits)
  then have head: "field_is row ''kind'' (JStr ''fairness'')" "field_is row ''flow_count'' (JInt (int ?n))"
    using field_is_get by blast+
  obtain a b c where abc: "got = [a, b, c]" "py_get row ''seed'' = Inr a"
    "py_get row ''measure_window_us'' = Inr b" "py_get row ''virtual_us'' = Inr c"
    using got(1) by (auto simp: zbind_eq_Inr)
  have clock: "field_is row ''seed'' (JInt 780740)" "field_is row ''measure_window_us'' (JInt (measure_window name))"
    "field_is row ''virtual_us'' (JInt (virtual_time name ?n))"
    using got(2) field_is_get [OF abc(2)] field_is_get [OF abc(3)] field_is_get [OF abc(4)]
    unfolding abc(1) py_eqs3 by blast+
  have counters: "field_natural row k" if kc: "k \<in> set counter_keys" for k
    using mapE_pointwise [OF ck kc] by (auto simp: check_counter_def zbind_eq_Inr intro: field_natural_get)
  have each: "field_natural f ''measured_bytes''" if f: "f \<in> set flows" for f
    using mapE_pointwise [OF mb f] by (auto simp: check_flow_def zbind_eq_Inr intro: field_natural_get)
  show ?thesis unfolding declared_cell_def
    using idx len head clock counters each mapE_py_eqs [OF ccs] mapE_py_eqs [OF ss] by auto
qed

lemma baseline_names: "distinct (map fst baseline_bytes)" "length baseline_bytes = 14"
  "\<forall>(n, bs)\<in>set baseline_bytes. bs \<noteq> []"
  by (simp_all add: baseline_bytes_def)

lemma rows_facts:
  assumes "rows report = Inr result"
  shows "length result = 14 \<and> set (map fst result) = set (map fst baseline_bytes) \<and>
    distinct (map fst result) \<and>
    (\<forall>(name, row)\<in>set result. row_shape (length (the (map_of baseline_bytes name))) row \<and>
       (\<exists>flows. declared_cell name (length (the (map_of baseline_bytes name))) row flows))"
proof -
  obtain head bs vals names x where
    r: "mapE row_name vals = Inr names" "length vals = 14"
      "set names = set (map (JStr \<circ> fst) baseline_bytes)" "result = zip (map name_of names) vals"
    and ck: "mapE (\<lambda>(name, row). check_row name row (the (map_of baseline_bytes name))) result = Inr x"
    using assms by (auto simp: rows_def zbind_eq_Inr Let_def split: if_splits)
  have l: "length names = 14" using r(1,2) by (simp add: mapE_Inr_iff list_all2_lengthD [symmetric])
  have m: "map fst result = map name_of names" using l r(2,4) by simp
  have "set (map name_of names) = set (map (name_of \<circ> (JStr \<circ> fst)) baseline_bytes)"
    by (simp add: r(3) image_image)
  then have s: "set (map fst result) = set (map fst baseline_bytes)"
    using m by (simp add: name_of_def comp_def)
  have "card (set (map fst result)) = 14"
    using s baseline_names(1,2) by (metis distinct_card length_map)
  then have d: "distinct (map fst result)" using m l by (metis card_distinct length_map)
  have "row_shape (length (the (map_of baseline_bytes name))) row \<and>
      (\<exists>flows. declared_cell name (length (the (map_of baseline_bytes name))) row flows)" if nr: "(name, row) \<in> set result" for name row
  proof -
    obtain u where u: "check_row name row (the (map_of baseline_bytes name)) = Inr u"
      using mapE_pointwise [OF ck nr] by auto
    have "name \<in> set (map fst baseline_bytes)" using nr s by force
    then obtain bs where bs: "map_of baseline_bytes name = Some bs"
      by (cases "map_of baseline_bytes name") (simp_all only: map_of_eq_None_iff set_map, simp)
    from map_of_SomeD [OF bs] bs
      baseline_names(3) have "the (map_of baseline_bytes name) \<noteq> []" by auto
    from check_row_shape [OF u this] check_row_declared [OF u this] show ?thesis ..
  qed
  moreover have "length result = 14" using l r(2,4) by simp
  ultimately show ?thesis using s d by auto
qed

lemma row_shape_flow_bytes: "row_shape n row \<Longrightarrow> \<exists>bs. flow_bytes row = Inr bs \<and> length bs = n \<and> (\<forall>b\<in>set bs. 0 \<le> b)"
  by (fastforce simp: row_shape_def flow_bytes_def py_iter_def mapE_Inr_iff dest: list_all2_lengthD)

lemma row_shape_homogeneous: "row_shape n row \<Longrightarrow> \<exists>b. is_homogeneous row = Inr b"
  by (auto simp: row_shape_def is_homogeneous_def py_iter_def)

text \<open>The window of a validated cell is a number equal to the expected one; \<open>rows\<close> compares it
  with \<open>==\<close>, so a float passes.\<close>

definition window_is_int :: "json \<Rightarrow> bool" where
  "window_is_int row = (\<exists>w. py_index row ''measure_window_us'' = Inr (JInt w) \<and> w \<noteq> 0)"

lemma row_shape_measure:
  assumes "row_shape n row" "window_is_int row"
  shows "\<exists>m. measure_row row = Inr m"
proof -
  obtain bs where "flow_bytes row = Inr bs" using row_shape_flow_bytes [OF assms(1)] by blast
  moreover obtain w where "py_index row ''measure_window_us'' = Inr (JInt w)" "w \<noteq> 0"
    using assms(2) by (auto simp: window_is_int_def)
  ultimately show ?thesis by (simp add: measure_row_def py_int_def)
qed

lemma mapE_rows:
  assumes "\<forall>x\<in>set xs. \<exists>y. f x = Inr y"
  obtains ys where "mapE f xs = Inr ys" "length ys = length xs"
  using mapE_exists [of xs f] assms by (metis mapE_Inr_iff list_all2_lengthD)

lemma row_of_result:
  "n \<in> set (map fst result) \<Longrightarrow> \<exists>r. row_of result n = Inr r \<and> (n, r) \<in> set result"
  by (auto simp: row_of_def split: option.splits dest: map_of_SomeD simp: map_of_eq_None_iff)

lemma row_shape_lane_row:
  assumes "row_shape n row" "\<not> float_overflows (jain_of stats name)"
  shows "if float_overflows (snd (the (map_of stats name))) then lane_row_of stats name row = Inl OverflowError
    else \<exists>l. lane_row_of stats name row = Inr l"
proof -
  obtain flows bs where f: "py_index row ''flows'' = Inr (JList flows)"
    "mapE (\<lambda>f. zbind (py_index f ''measured_bytes'') py_int) flows = Inr bs"
    using assms by (auto simp: row_shape_def)
  have "\<exists>y. with_share (sum_list bs) fl = Inr y" if "fl \<in> set flows" for fl
    using mapE_pointwise [OF f(2) that]
    by (auto simp: with_share_def zbind_eq_Inr py_index_def split: json.splits)
  then obtain sh where sh: "mapE (with_share (sum_list bs)) flows = Inr sh"
    using mapE_exists [of flows "with_share (sum_list bs)"] by blast
  have "\<exists>y. zbind (py_index row key) (\<lambda>v. Inr (key, v)) = Inr y" if "key \<in> set detail_keys" for key
  proof -
    have "key \<in> set parity_keys" using that by (auto simp: detail_keys_def parity_keys_def)
    with assms obtain v where "py_index row key = Inr v" by (auto simp: row_shape_def)
    then show ?thesis by simp
  qed
  then obtain cs where cs: "mapE (\<lambda>key. zbind (py_index row key) (\<lambda>v. Inr (key, v))) detail_keys = Inr cs"
    using mapE_exists [of detail_keys "\<lambda>key. zbind (py_index row key) (\<lambda>v. Inr (key, v))"] by blast
  show ?thesis
    using assms(2) by (simp add: lane_row_of_def flow_bytes_def f py_iter_def sh cs py_float_def)
qed

lemma row_shape_pair:
  assumes "row_shape m rb" "row_shape n rc" "key \<in> set parity_keys"
  shows "\<exists>p. pair_of rb rc key = Inr p"
proof -
  obtain b c where "py_index rb key = Inr b" "py_index rc key = Inr c"
    using assms unfolding row_shape_def by meson
  then show ?thesis by (simp add: pair_of_def)
qed

text \<open>The indices of validated cells lie in the unit interval, so no mean, minimum or difference of
  them overflows a float.\<close>

lemma unit_float: "- 1 \<le> q \<Longrightarrow> q \<le> 1 \<Longrightarrow> \<not> float_overflows q"
  by (rule float_overflows_small) (simp add: abs_le_iff)

lemma measure_all_of:
  assumes "measure_all data = Inr st" "map_of data n = Some r"
  shows "\<exists>m. measure_row r = Inr m \<and> map_of st n = Some m"
proof -
  have "list_all2 (\<lambda>x y. (case x of (name, row) \<Rightarrow> zbind (measure_row row) (\<lambda>m. Inr (name, m))) = Inr y) data st"
    using assms(1) by (simp add: measure_all_def mapE_Inr_iff)
  then show ?thesis using assms(2)
    by (induction rule: list_all2_induct) (auto simp: zbind_eq_Inr split: if_splits)
qed

lemma measured_index_unit:
  assumes "row_shape k r" "measure_row r = Inr m"
  shows "0 \<le> fst m \<and> fst m \<le> 1"
proof -
  obtain bs where bs: "flow_bytes r = Inr bs" "\<forall>b\<in>set bs. 0 \<le> b" using row_shape_flow_bytes [OF assms(1)] by blast
  have "fst m = jain bs" using assms(2) by (auto simp: measure_row_def bs(1) zbind_eq_Inr split: if_splits)
  with jain_index [OF bs(2)] show ?thesis by simp
qed

lemma mean_over_unit:
  assumes "\<forall>n\<in>set names. 0 \<le> jain_of st n \<and> jain_of st n \<le> 1"
  shows "0 \<le> mean_over names st \<and> mean_over names st \<le> 1"
proof -
  have "0 \<le> sum_list (map (jain_of st) names) \<and> sum_list (map (jain_of st) names) \<le> of_nat (length names)"
    using assms by (induction names) auto
  then show ?thesis
    by (cases names) (simp_all add: mean_over_def rat_mean_def divide_le_eq)
qed

lemma fold_min_in: "fold min xs x \<in> insert (x :: rat) (set xs)"
  by (induction xs arbitrary: x) (force simp: min_def)+

lemma list_min_Min: "xs \<noteq> [] \<Longrightarrow> list_min xs = Min (set xs)"
  by (cases xs) (simp_all add: list_min_def Min.set_eq_fold [symmetric])

lemma worst_over_in: "names \<noteq> [] \<Longrightarrow> \<exists>n\<in>set names. worst_over names st = jain_of st n"
  using fold_min_in [of "map (jain_of st) (tl names)" "jain_of st (hd names)"]
  by (cases names) (auto simp: worst_over_def list_min_def)

lemma baseline_utilization:
  assumes "flow_bytes r = Inr bs" "(n, bs) \<in> set baseline_bytes" "measure_row r = Inr m"
  shows "\<not> float_overflows (snd m)"
proof -
  have "list_all (\<lambda>(n, bs). 0 \<le> sum_list bs \<and> sum_list bs \<le> 10 ^ 9) baseline_bytes" by code_simp
  with assms(2) have sum: "0 \<le> sum_list bs" "sum_list bs \<le> 10 ^ 9" by (auto simp: list_all_iff)
  obtain w where w: "w * 1250000 \<noteq> 0" "snd m = of_int (sum_list bs * 1000000) / of_int (w * 1250000)"
    using assms(3) by (auto simp: measure_row_def assms(1) zbind_eq_Inr split: if_splits)
  have "\<bar>snd m\<bar> = of_int (sum_list bs * 1000000) / of_int \<bar>w * 1250000\<bar>"
    unfolding w(2) using sum(1) by (simp add: abs_divide abs_mult)
  also have "\<dots> \<le> of_int (sum_list bs * 1000000) / 1"
    using w(1) sum(1) by (intro divide_left_mono) (simp_all add: abs_mult)
  also have "\<dots> \<le> of_int (10 ^ 30)" using sum(2) by (simp only: div_by_1 of_int_le_iff) simp
  finally show ?thesis by (intro float_overflows_small) simp
qed

lemma baseline_frozen:
  assumes "baseline_matches B = Inr same" "list_all id same" "(n, bs) \<in> set baseline_bytes"
  shows "\<exists>r. row_of B n = Inr r \<and> flow_bytes r = Inr bs"
proof -
  have "list_all2 (\<lambda>x y. (case x of (name, expected) \<Rightarrow> zbind (row_of B name) (\<lambda>row.
      zbind (flow_bytes row) (\<lambda>got. Inr (got = expected)))) = Inr y) baseline_bytes same"
    using assms(1) by (simp add: baseline_matches_def mapE_Inr_iff)
  then have "\<forall>x\<in>set baseline_bytes. (case x of (name, expected) \<Rightarrow> zbind (row_of B name) (\<lambda>row.
      zbind (flow_bytes row) (\<lambda>got. Inr (got = expected)))) = Inr True" using assms(2)
    by (induction rule: list_all2_induct) auto
  with assms(3) show ?thesis by (fastforce simp: zbind_eq_Inr)
qed

lemma rows_mixed_count:
  assumes "rows report = Inr result"
  shows "length (filter is_mixed (map fst result)) = 10"
proof -
  note f = rows_facts [OF assms]
  have "length (filter is_mixed xs) = card ({x. is_mixed x} \<inter> set xs)" if "distinct xs" for xs :: "string list"
    using that distinct_card [of "filter is_mixed xs"] by (simp add: Int_def conj_commute)
  then have "length (filter is_mixed (map fst result)) = length (filter is_mixed (map fst baseline_bytes))"
    using f baseline_names(1) by metis
  moreover have "length (filter is_mixed (map fst baseline_bytes)) = 10" by code_simp
  ultimately show ?thesis by simp
qed

text \<open>\<open>compare\<close> on validated reports raises nothing but the refusal of a changed baseline and, for
  a candidate cell with an astronomic byte count, the overflow of its utilisation.\<close>

lemma compare_rows_total:
  assumes b: "rows rb = Inr B" and c: "rows rc = Inr C"
    and wb: "\<forall>(n, r)\<in>set B. window_is_int r" and wc: "\<forall>(n, r)\<in>set C. window_is_int r"
  shows "\<exists>same. baseline_matches B = Inr same \<and>
    (if \<not> list_all id same then compare_rows B C =
       Inl (ValueError ''fresh S4 baseline differs from immutable measured-byte controls'')
     else if \<exists>(n, r)\<in>set C. \<exists>m. measure_row r = Inr m \<and> float_overflows (snd m)
     then compare_rows B C = Inl OverflowError
     else \<exists>r. compare_rows B C = Inr r)"
proof -
  note fb = rows_facts [OF b] and fc = rows_facts [OF c]
  have shb: "\<exists>k. row_shape k r" if "(n, r) \<in> set B" for n r using fb that by blast
  have shc: "\<exists>k. row_shape k r" if "(n, r) \<in> set C" for n r using fc that by blast
  let ?N = "set (map fst baseline_bytes)"
  have rowB: "\<exists>r. row_of B n = Inr r \<and> (\<exists>k. row_shape k r)" if "n \<in> ?N" for n
    using row_of_result [of n B] that fb shb by metis
  have rowC: "\<exists>r. row_of C n = Inr r \<and> (\<exists>k. row_shape k r)" if "n \<in> ?N" for n
    using row_of_result [of n C] that fc shc by metis
  have "\<forall>x\<in>set baseline_bytes. \<exists>y. (case x of (name, expected) \<Rightarrow>
      zbind (row_of B name) (\<lambda>row. zbind (flow_bytes row) (\<lambda>got. Inr (got = expected)))) = Inr y"
    using rowB row_shape_flow_bytes by (fastforce simp: zbind_eq_Inr)
  then obtain same where same: "baseline_matches B = Inr same"
    unfolding baseline_matches_def by (rule mapE_rows)
  have "\<forall>x\<in>set B. \<exists>y. (case x of (name, row) \<Rightarrow> is_homogeneous row) = Inr y"
    using shb row_shape_homogeneous by fastforce
  then obtain homog where homog: "mapE (\<lambda>(name, row). is_homogeneous row) B = Inr homog" by (rule mapE_rows)
  have "\<forall>x\<in>set B. \<exists>y. (case x of (name, row) \<Rightarrow> zbind (measure_row row) (\<lambda>m. Inr (name, m))) = Inr y"
    using shb wb row_shape_measure by (fastforce simp: zbind_eq_Inr)
  then obtain sb where sb: "measure_all B = Inr sb" unfolding measure_all_def by (rule mapE_rows)
  have "\<forall>x\<in>set C. \<exists>y. (case x of (name, row) \<Rightarrow> zbind (measure_row row) (\<lambda>m. Inr (name, m))) = Inr y"
    using shc wc row_shape_measure by (fastforce simp: zbind_eq_Inr)
  then obtain sc where sc: "measure_all C = Inr sc" unfolding measure_all_def by (rule mapE_rows)
  have "\<forall>x\<in>set C. \<exists>y. (case x of (name, row) \<Rightarrow> flow_bytes row) = Inr y"
    using shc row_shape_flow_bytes by fastforce
  then obtain cb where cb: "mapE (\<lambda>(name, row). flow_bytes row) C = Inr cb" by (rule mapE_rows)
  have cubic: "''fairness_10mbit_2f_cubic'' \<in> ?N" by (simp add: baseline_bytes_def)
  obtain br cr kb kc where br: "row_of B ''fairness_10mbit_2f_cubic'' = Inr br" "row_shape kb br"
    "row_of C ''fairness_10mbit_2f_cubic'' = Inr cr" "row_shape kc cr"
    using rowB [OF cubic] rowC [OF cubic] by blast
  have "\<forall>key\<in>set parity_keys. \<exists>y. zbind (pair_of br cr key) (\<lambda>(b, c). Inr (py_eq b c)) = Inr y"
    using row_shape_pair [OF br(2,4)] by (fastforce simp: zbind_eq_Inr)
  then obtain par where "mapE (\<lambda>key. zbind (pair_of br cr key) (\<lambda>(b, c). Inr (py_eq b c))) parity_keys = Inr par"
    by (rule mapE_rows)
  then have par: "cubic_parity B C = Inr par" by (simp add: cubic_parity_def br(1,3))
  have statB: "\<exists>r m. map_of B n = Some r \<and> measure_row r = Inr m \<and> map_of sb n = Some m \<and> 0 \<le> fst m \<and> fst m \<le> 1"
    if n: "n \<in> ?N" for n
    using rowB [OF n] measure_all_of [OF sb] measured_index_unit by (fastforce simp: row_of_def split: option.splits)
  have statC: "\<exists>r m. map_of C n = Some r \<and> measure_row r = Inr m \<and> map_of sc n = Some m \<and> 0 \<le> fst m \<and> fst m \<le> 1"
    if n: "n \<in> ?N" for n
    using rowC [OF n] measure_all_of [OF sc] measured_index_unit by (fastforce simp: row_of_def split: option.splits)
  have unit: "0 \<le> jain_of sb n" "jain_of sb n \<le> 1" "0 \<le> jain_of sc n" "jain_of sc n \<le> 1" if "n \<in> ?N" for n
    using statB [OF that] statC [OF that] by (auto simp: jain_of_def)
  let ?over = "\<lambda>n. float_overflows (snd (the (map_of sc n)))"
  have det: "if ?over n then cell_detail_of sb sc B C n = Inl OverflowError else \<exists>y. cell_detail_of sb sc B C n = Inr y"
    if n: "n \<in> ?N" and s: "list_all id same" for n
  proof -
    obtain r k r' k' where r: "row_of B n = Inr r" "row_shape k r" "row_of C n = Inr r'" "row_shape k' r'"
      using rowB [OF n] rowC [OF n] by blast
    obtain bs where bs: "(n, bs) \<in> set baseline_bytes" using n by auto
    with baseline_frozen [OF same s bs] r(1) have "flow_bytes r = Inr bs" by simp
    from baseline_utilization [OF this bs] statB [OF n] r(1) have "\<not> float_overflows (snd (the (map_of sb n)))"
      by (auto simp: row_of_def)
    moreover have "\<not> float_overflows (jain_of sb n)" "\<not> float_overflows (jain_of sc n)"
      "\<not> float_overflows (jain_of sc n - jain_of sb n)"
      using unit [OF n] by (intro unit_float; simp)+
    ultimately show ?thesis
      using row_shape_lane_row [OF r(2), of sb n] row_shape_lane_row [OF r(4), of sc n]
      unfolding cell_detail_of_def Let_def r(1,3) zbind_Inr by (auto simp: py_float_def split: if_splits)
  qed
  have over: "(\<exists>n\<in>?N. ?over n) \<longleftrightarrow> (\<exists>(n, r)\<in>set C. \<exists>m. measure_row r = Inr m \<and> float_overflows (snd m))"
  proof
    assume "\<exists>n\<in>?N. ?over n"
    then obtain n where n: "n \<in> ?N" "?over n" by blast
    obtain r m where "map_of C n = Some r" "measure_row r = Inr m" "map_of sc n = Some m"
      using statC [OF n(1)] by blast
    with n(2) show "\<exists>(n, r)\<in>set C. \<exists>m. measure_row r = Inr m \<and> float_overflows (snd m)"
      by (intro bexI [of _ "(n, r)"]) (force dest: map_of_SomeD)+
  next
    assume "\<exists>(n, r)\<in>set C. \<exists>m. measure_row r = Inr m \<and> float_overflows (snd m)"
    then obtain n r m where c: "(n, r) \<in> set C" "measure_row r = Inr m" "float_overflows (snd m)" by blast
    then have n: "n \<in> ?N" "map_of C n = Some r" using fc by (force, simp)
    with statC [OF n(1)] c show "\<exists>n\<in>?N. ?over n" by (intro bexI [of _ n]) auto
  qed
  let ?mixed = "filter is_mixed (map fst B)"
  have mixedN: "set ?mixed \<subseteq> ?N" using fb by auto
  have ne: "?mixed \<noteq> []" using rows_mixed_count [OF b] by (metis list.size(3) zero_neq_numeral)
  have fl: "\<not> float_overflows (mean_over ?mixed st)" "\<not> float_overflows (worst_over ?mixed st)" if "st \<in> {sb, sc}" for st
  proof -
    have u: "\<forall>n\<in>set ?mixed. 0 \<le> jain_of st n \<and> jain_of st n \<le> 1" using that unit mixedN by blast
    show "\<not> float_overflows (mean_over ?mixed st)" using mean_over_unit [OF u] by (intro unit_float) simp_all
    obtain n where "n \<in> set ?mixed" "worst_over ?mixed st = jain_of st n" using worst_over_in [OF ne] by blast
    with u show "\<not> float_overflows (worst_over ?mixed st)" by (intro unit_float) auto
  qed
  let ?hom = "map fst (filter snd (zip (map fst B) homog))"
  have "\<exists>y. queue_cost_of B C n = Inr y" if n: "n \<in> ?N" for n
  proof -
    obtain r k r' k' where r: "row_of B n = Inr r" "row_shape k r" "row_of C n = Inr r'" "row_shape k' r'"
      using rowB [OF n] rowC [OF n] by blast
    have keys: "''peak_queue_delay_us'' \<in> set parity_keys" "''queue_dropped'' \<in> set parity_keys"
      "''dropped'' \<in> set parity_keys" by (simp_all add: parity_keys_def)
    from row_shape_pair [OF r(2,4) keys(1)] row_shape_pair [OF r(2,4) keys(2)] row_shape_pair [OF r(2,4) keys(3)]
    show ?thesis unfolding queue_cost_of_def r(1,3) zbind_Inr by (metis zbind_Inr)
  qed
  moreover have "set ?hom \<subseteq> ?N"
    using fb by (auto dest: set_zip_leftD)
  ultimately have "\<forall>n\<in>set ?hom. \<exists>y. queue_cost_of B C n = Inr y" by blast
  then obtain costs where costs: "mapE (queue_cost_of B C) ?hom = Inr costs" by (rule mapE_rows)
  have fl2: "\<exists>m. mapE (\<lambda>stats. py_float (mean_over ?mixed stats)) [sb, sc] = Inr m"
    "\<exists>m. mapE (\<lambda>stats. py_float (worst_over ?mixed stats)) [sb, sc] = Inr m"
    using fl by (simp_all add: py_float_def)
  show ?thesis
  proof (cases "list_all id same")
    case False
    with same show ?thesis by (simp add: compare_rows_def)
  next
    case True
    have N: "set (map fst B) = ?N" using fb by blast
    have "\<forall>n\<in>set (map fst B). cell_detail_of sb sc B C n = Inl OverflowError \<or> (\<exists>y. cell_detail_of sb sc B C n = Inr y)"
      using det [OF _ True] unfolding N by meson
    note one = mapE_one_error [OF this]
    have "(\<exists>n\<in>set (map fst B). cell_detail_of sb sc B C n = Inl OverflowError) \<longleftrightarrow> (\<exists>n\<in>?N. ?over n)"
      using det [OF _ True] unfolding N by (metis sum.distinct(1))
    with one over have "if \<exists>(n, r)\<in>set C. \<exists>m. measure_row r = Inr m \<and> float_overflows (snd m)
        then mapE (cell_detail_of sb sc B C) (map fst B) = Inl OverflowError
        else \<exists>det. mapE (cell_detail_of sb sc B C) (map fst B) = Inr det" by argo
    then show ?thesis using same True fl2
      by (auto simp: compare_rows_def homog sb sc cb par costs Let_def simp del: mapE.simps split: if_splits)
  qed
qed

subsection \<open>Properties\<close>

definition mk_flow :: "string \<times> int \<times> int \<Rightarrow> json" where
  "mk_flow x = JObj [(''cc'', JStr (fst x)), (''start_us'', JInt (fst (snd x))),
     (''measured_bytes'', JInt (snd (snd x)))]"

definition mk_row :: "string \<times> int list \<Rightarrow> json" where
  "mk_row x = (let name = fst x; bs = snd x; n = length bs in
     JObj [(''name'', JStr name), (''kind'', JStr ''fairness''), (''flow_count'', JInt (int n)),
       (''flows'', JList (map mk_flow (zip (expected_cc name n) (zip (expected_starts name n) bs)))),
       (''seed'', JInt 780740), (''measure_window_us'', JInt (measure_window name)),
       (''virtual_us'', JInt (virtual_time name n)), (''enqueued'', JInt 9), (''dropped'', JInt 0),
       (''queue_dropped'', JInt 0), (''peak_queue_delay_us'', JInt 1)])"

definition sample_report :: json where
  "sample_report = JObj [(''optimize'', JStr ''safe''), (''zig_version'', JStr ''0.17.0''),
     (''samples_per_benchmark'', JInt 1), (''benchmarks'', JList (map mk_row baseline_bytes))]"

lemma sample_rows: "rows sample_report = Inr (map (\<lambda>x. (fst x, mk_row x)) baseline_bytes)"
  by code_simp

text \<open>C12: A report that \<open>rows\<close> accepts describes exactly the 14 declared cells, each once.  Every
  cell is of the declared kind, has as many flows as the frozen baseline, the declared seed,
  window and virtual time, on each flow in order the declared controller, start time and a
  nonnegative integer byte count, and nonnegative integer counters.\<close>

theorem rows_sound:
  assumes "rows report = Inr result"
  shows "length result = 14 \<and> distinct (map fst result) \<and>
    set (map fst result) = set (map fst baseline_bytes) \<and>
    (\<forall>(name, row)\<in>set result. let n = length (the (map_of baseline_bytes name)) in
       (\<exists>flows. declared_cell name n row flows) \<and>
       (\<exists>bs. flow_bytes row = Inr bs \<and> length bs = n \<and> (\<forall>b\<in>set bs. 0 \<le> b)))"
  using rows_facts [OF assms] row_shape_flow_bytes unfolding Let_def by blast

theorem rows_sound_witness:
  "length (map (\<lambda>x. (fst x, mk_row x)) baseline_bytes) = 14 \<and>
   (\<exists>flows. declared_cell ''fairness_10mbit_2f_cubic'' 2 (mk_row (hd baseline_bytes)) flows)"
proof -
  have "(fst (hd baseline_bytes), mk_row (hd baseline_bytes)) \<in> set (map (\<lambda>x. (fst x, mk_row x)) baseline_bytes)"
    by (simp add: baseline_bytes_def)
  with rows_sound [OF sample_rows] have "length (map (\<lambda>x. (fst x, mk_row x)) baseline_bytes) = 14 \<and>
    (\<exists>flows. declared_cell (fst (hd baseline_bytes))
       (length (the (map_of baseline_bytes (fst (hd baseline_bytes))))) (mk_row (hd baseline_bytes)) flows)"
    unfolding Let_def by blast
  then show ?thesis by (simp add: baseline_bytes_def numeral_2_eq_2)
qed

text \<open>C13: On two reports that pass validation and whose windows are integers, the gate returns a
  verdict with exactly two exceptions: it refuses a baseline run that differs from the frozen
  byte counts, and it fails with an \<open>OverflowError\<close> if and only if the utilisation of some
  candidate cell is too large for a float, which \<open>rows\<close> does not exclude.  In particular no
  division by zero, missing key or empty mean can occur, and no fairness index overflows.\<close>

theorem compare_total:
  assumes "rows rb = Inr B" "rows rc = Inr C"
    and "\<forall>(n, r)\<in>set B. window_is_int r" "\<forall>(n, r)\<in>set C. window_is_int r"
  shows "\<exists>same. baseline_matches B = Inr same \<and>
    (if \<not> list_all id same then compare_reports rb rc =
       Inl (ValueError ''fresh S4 baseline differs from immutable measured-byte controls'')
     else if \<exists>(n, r)\<in>set C. \<exists>m. measure_row r = Inr m \<and> float_overflows (snd m)
     then compare_reports rb rc = Inl OverflowError
     else \<exists>cmp. compare_reports rb rc = Inr cmp)"
  unfolding compare_reports_def assms(1,2) zbind_Inr by (rule compare_rows_total [OF assms])

lemma sample_windows: "\<forall>(n, r)\<in>set (map (\<lambda>x. (fst x, mk_row x)) baseline_bytes). window_is_int r"
  by (auto simp: mk_row_def window_is_int_def py_index_def measure_window_def Let_def)

lemma sample_matches: "baseline_matches (map (\<lambda>x. (fst x, mk_row x)) baseline_bytes) = Inr (replicate 14 True)"
  by code_simp

text \<open>The utilisations of a sample lane.\<close>

definition utilization_small :: "json \<Rightarrow> bool" where
  "utilization_small r = (case measure_row r of Inr m \<Rightarrow> \<bar>snd m\<bar> \<le> 2 | Inl _ \<Rightarrow> True)"

lemma utilization_small_fits:
  assumes "list_all (\<lambda>(n, r). utilization_small r) C"
  shows "\<not> (\<exists>(n, r)\<in>set C. \<exists>m. measure_row r = Inr m \<and> float_overflows (snd m))"
proof clarify
  fix n r a u assume "(n, r) \<in> set C" "measure_row r = Inr (a, u)" "float_overflows (snd (a, u))"
  with assms have "\<bar>u\<bar> \<le> 2" "float_overflows u" by (auto simp: list_all_iff utilization_small_def)
  with float_overflows_small [of u] show False by simp
qed

lemma sample_utilization: "list_all (\<lambda>(n, r). utilization_small r) (map (\<lambda>x. (fst x, mk_row x)) baseline_bytes)"
  by code_simp

theorem compare_total_witness:
  "\<exists>cmp. compare_reports sample_report sample_report = Inr cmp"
  using compare_total [OF sample_rows sample_rows sample_windows sample_windows]
    sample_matches utilization_small_fits [OF sample_utilization] by (simp add: list_all_iff split: if_split_asm)

text \<open>What a verdict is made of.\<close>

lemma compare_rows_parts:
  assumes "compare_rows B C = Inr cmp"
  obtains sb sc homog hom cb par details where
    "measure_all B = Inr sb" "measure_all C = Inr sc"
    "mapE (\<lambda>(name, row). is_homogeneous row) B = Inr homog"
    "hom = map fst (filter snd (zip (map fst B) homog))"
    "mapE (\<lambda>(name, row). flow_bytes row) C = Inr cb" "cubic_parity B C = Inr par"
    "mapE (cell_detail_of sb sc B C) (map fst B) = Inr details"
    "cmp_controls cmp = gate_controls (filter is_mixed (map fst B)) hom sb sc cb par"
    "passed_fairness_controls cmp = all_controls (cmp_controls cmp)"
    "mixed_outcomes cmp = (tally details Improved, tally details Worse, tally details Equal)"
    "cmp_rows cmp = details"
    "mixed_mean_jain cmp = (mean_over (filter is_mixed (map fst B)) sb, mean_over (filter is_mixed (map fst B)) sc)"
    "mixed_worst_jain cmp = (worst_over (filter is_mixed (map fst B)) sb, worst_over (filter is_mixed (map fst B)) sc)"
proof -
  let ?mixed = "filter is_mixed (map fst B)"
  from assms obtain same homog sb sc cb par details costs means worst where
    q: "measure_all B = Inr sb" "measure_all C = Inr sc"
      "mapE (\<lambda>(name, row). is_homogeneous row) B = Inr homog"
    and q': "mapE (\<lambda>(name, row). flow_bytes row) C = Inr cb" "cubic_parity B C = Inr par"
      "mapE (cell_detail_of sb sc B C) (map fst B) = Inr details"
    and f: "mapE (\<lambda>stats. py_float (mean_over ?mixed stats)) [sb, sc] = Inr means"
      "mapE (\<lambda>stats. py_float (worst_over ?mixed stats)) [sb, sc] = Inr worst"
    and c: "cmp = \<lparr>cmp_controls = gate_controls ?mixed (map fst (filter snd (zip (map fst B) homog))) sb sc cb par,
        passed_fairness_controls = all_controls (gate_controls ?mixed
          (map fst (filter snd (zip (map fst B) homog))) sb sc cb par),
        mixed_mean_jain = (hd means, last means), mixed_worst_jain = (hd worst, last worst),
        mixed_outcomes = (tally details Improved, tally details Worse, tally details Equal),
        homogeneous_queue_costs = costs, cmp_rows = details\<rparr>"
    unfolding compare_rows_def Let_def zbind_eq_Inr sum.inject by metis
  have "means = [mean_over ?mixed sb, mean_over ?mixed sc]" "worst = [worst_over ?mixed sb, worst_over ?mixed sc]"
    using f by (auto simp: zbind_eq_Inr)
  then show ?thesis by (intro that [OF q refl q']) (simp_all add: c)
qed

lemma lane_row_jain: "lane_row_of stats name row = Inr l \<Longrightarrow> lr_jain l = jain_of stats name"
  by (auto simp: lane_row_of_def zbind_eq_Inr)

lemma cell_detail_fields:
  "cell_detail_of sb sc B C n = Inr d \<Longrightarrow> cd_name d = n \<and> cd_mixed d = is_mixed n \<and>
     cd_delta d = jain_of sc n - jain_of sb n \<and> cd_outcome d = outcome_of (jain_of sc n - jain_of sb n) \<and>
     lr_jain (fst (cd_lanes d)) = jain_of sb n \<and> lr_jain (snd (cd_lanes d)) = jain_of sc n"
  by (auto simp: cell_detail_of_def Let_def zbind_eq_Inr lane_row_jain)

text \<open>The indices that the report lists for the mixed cells.\<close>

definition mixed_jains :: "(lane_row \<times> lane_row \<Rightarrow> lane_row) \<Rightarrow> comparison \<Rightarrow> rat list" where
  "mixed_jains lane cmp = map (\<lambda>d. lr_jain (lane (cd_lanes d))) (filter cd_mixed (cmp_rows cmp))"

lemma mixed_jains_details:
  assumes "mapE (cell_detail_of sb sc B C) names = Inr (cmp_rows cmp)"
  shows "mixed_jains fst cmp = map (jain_of sb) (filter is_mixed names)"
    "mixed_jains snd cmp = map (jain_of sc) (filter is_mixed names)"
proof -
  have "list_all2 (\<lambda>n d. cell_detail_of sb sc B C n = Inr d) names (cmp_rows cmp)"
    using assms by (simp add: mapE_Inr_iff)
  then show "mixed_jains fst cmp = map (jain_of sb) (filter is_mixed names)"
    "mixed_jains snd cmp = map (jain_of sc) (filter is_mixed names)"
    unfolding mixed_jains_def by (induction rule: list_all2_induct) (auto dest: cell_detail_fields)
qed

lemma tally_details:
  assumes "mapE (cell_detail_of sb sc B C) names = Inr details"
  shows "tally details oc =
    length (filter (\<lambda>n. outcome_of (jain_of sc n - jain_of sb n) = oc) (filter is_mixed names))"
proof -
  have "list_all2 (\<lambda>n d. cell_detail_of sb sc B C n = Inr d) names details"
    using assms by (simp add: mapE_Inr_iff)
  then show ?thesis
    by (induction rule: list_all2_induct) (auto simp: tally_def dest: cell_detail_fields)
qed

lemma outcome_split:
  "length (filter (\<lambda>n. f n = Improved) xs) + length (filter (\<lambda>n. f n = Worse) xs)
     + length (filter (\<lambda>n. f n = Equal) xs) = length xs"
proof (induction xs)
  case (Cons x xs)
  then show ?case by (cases "f x") auto
qed simp

lemma mean_improves:
  assumes "mean_over names sb < mean_over names sc"
  shows "\<exists>n\<in>set names. jain_of sb n < jain_of sc n"
proof (rule ccontr)
  assume "\<not> ?thesis"
  then have "sum_list (map (jain_of sc) names) \<le> sum_list (map (jain_of sb) names)"
    by (intro sum_list_mono) (simp add: not_less)
  then have "mean_over names sc \<le> mean_over names sb"
    by (simp add: mean_over_def rat_mean_def divide_right_mono)
  with assms show False by simp
qed



end
