(* ===== verification/Py_Text.thy ===== *)
theory Py_Text
  imports Py_Base
begin

text \<open>
  The text operations of the Python tools: \<open>find\<close>, \<open>count\<close>, \<open>split\<close> and \<open>splitlines\<close> on
  strings, and the few regular expressions they use.  Every expression there is a sequence of
  the tokens below in which a repetition is followed by a literal it cannot match itself, so
  greedy matching never has to backtrack.
\<close>

subsection \<open>Searching\<close>

text \<open>\<open>s.find(sub)\<close> (\<open>None\<close> for -1; \<open>s.index\<close> raises then) and \<open>s.count(sub)\<close>\<close>

fun py_find :: "string \<Rightarrow> string \<Rightarrow> nat option" where
  "py_find [] sub = (if sub = [] then Some 0 else None)"
| "py_find (c # s) sub = (if startswith (c # s) sub then Some 0 else map_option Suc (py_find s sub))"

definition py_str_index :: "string \<Rightarrow> string \<Rightarrow> py_error + nat" where
  "py_str_index s sub =
     (case py_find s sub of Some i \<Rightarrow> Inr i | None \<Rightarrow> Inl (ValueError ''substring not found''))"

function py_count :: "string \<Rightarrow> string \<Rightarrow> nat" where
  "py_count s sub =
     (case s of [] \<Rightarrow> 0
      | c # s' \<Rightarrow> if sub \<noteq> [] \<and> startswith s sub then Suc (py_count (drop (length sub) s) sub)
                 else py_count s' sub)"
  by pat_completeness auto
termination
  by (relation "measure (\<lambda>(s, sub). length s)") auto

declare py_count.simps [simp del]

subsection \<open>Splitting\<close>

fun split_on :: "char \<Rightarrow> string \<Rightarrow> string list" where
  "split_on d [] = [[]]"
| "split_on d (c # s) =
     (if c = d then [] # split_on d s
      else case split_on d s of w # ws \<Rightarrow> (c # w) # ws | [] \<Rightarrow> [[c]])"

definition newline :: char where "newline = CHR 0x0A"

text \<open>The line boundaries of \<open>splitlines\<close>; characters are code points below 256, so the separators
  U+2028 and U+2029 do not occur.  A carriage return before a newline belongs to it (reading
  the text already dropped it), and a final boundary ends the last line, it does not start an
  empty one.\<close>

definition line_boundary :: "char \<Rightarrow> bool" where
  "line_boundary c = (let n = (of_char c :: nat) in 10 \<le> n \<and> n \<le> 13 \<or> 28 \<le> n \<and> n \<le> 30 \<or> n = 133)"

definition carriage_return :: char where "carriage_return = CHR 0x0D"

fun cut_lines :: "string \<Rightarrow> string list" where
  "cut_lines [] = [[]]"
| "cut_lines (c # s) =
     (if c = carriage_return \<and> startswith s [newline] then cut_lines s
      else if line_boundary c then [] # cut_lines s
      else case cut_lines s of w # ws \<Rightarrow> (c # w) # ws | [] \<Rightarrow> [[c]])"

definition splitlines :: "string \<Rightarrow> string list" where
  "splitlines s = (let ws = cut_lines s in if last ws = [] then butlast ws else ws)"

fun join_with :: "string \<Rightarrow> string list \<Rightarrow> string" where
  "join_with sep [] = []"
| "join_with sep [w] = w"
| "join_with sep (w # ws) = w @ sep @ join_with sep ws"

subsection \<open>Regular expressions\<close>

text \<open>The class \<open>\s\<close>.\<close>

definition py_space :: "char \<Rightarrow> bool" where
  "py_space c = (let n = (of_char c :: nat) in 9 \<le> n \<and> n \<le> 13 \<or> 28 \<le> n \<and> n \<le> 32 \<or> n = 133 \<or> n = 160)"

datatype tok =
    Lit string
  | Spaces                  \<comment> \<open>\<open>\s*\<close>\<close>
  | NoQuotes                \<comment> \<open>\<open>([^"]+)\<close>, captured\<close>
  | OneOf "string list"     \<comment> \<open>\<open>(a|b|c)\<close>, captured\<close>
  | AnyOf "char list"       \<comment> \<open>\<open>[ab]\<close>\<close>

definition quote :: char where "quote = CHR 0x22"

fun match_tok :: "tok \<Rightarrow> string \<Rightarrow> (string list \<times> string) option" where
  "match_tok (Lit l) s = (if startswith s l then Some ([], drop (length l) s) else None)"
| "match_tok Spaces s = Some ([], dropWhile py_space s)"
| "match_tok NoQuotes s =
     (let w = takeWhile (\<lambda>c. c \<noteq> quote) s in
      if w = [] then None else Some ([w], drop (length w) s))"
| "match_tok (OneOf ws) s =
     (case filter (startswith s) ws of [] \<Rightarrow> None | w # _ \<Rightarrow> Some ([w], drop (length w) s))"
| "match_tok (AnyOf cs) s =
     (case s of [] \<Rightarrow> None | c # r \<Rightarrow> if c \<in> set cs then Some ([], r) else None)"

fun match_toks :: "tok list \<Rightarrow> string \<Rightarrow> (string list \<times> string) option" where
  "match_toks [] s = Some ([], s)"
| "match_toks (t # ts) s =
     (case match_tok t s of None \<Rightarrow> None
      | Some (cap, r) \<Rightarrow> (case match_toks ts r of None \<Rightarrow> None
          | Some (caps, r') \<Rightarrow> Some (cap @ caps, r')))"

text \<open>\<open>re.search\<close>: the groups of the leftmost match.\<close>

fun re_search :: "tok list \<Rightarrow> string \<Rightarrow> string list option" where
  "re_search ts [] = map_option fst (match_toks ts [])"
| "re_search ts (c # s) =
     (case match_toks ts (c # s) of Some (caps, _) \<Rightarrow> Some caps | None \<Rightarrow> re_search ts s)"

text \<open>\<open>re.findall\<close>: the groups of the matches from left to right, none overlapping.\<close>

function re_findall :: "tok list \<Rightarrow> string \<Rightarrow> string list list" where
  "re_findall ts s =
     (case s of [] \<Rightarrow> []
      | c # s' \<Rightarrow> (case match_toks ts s of
           Some (caps, r) \<Rightarrow> caps # re_findall ts (if length r < length s then r else s')
         | None \<Rightarrow> re_findall ts s'))"
  by pat_completeness auto
termination
  by (relation "measure (\<lambda>(ts, s). length s)") auto

declare re_findall.simps [simp del]

subsection \<open>Lemmas\<close>

lemma startswith_iff: "startswith s t \<longleftrightarrow> (\<exists>r. s = t @ r)"
  unfolding startswith_def by (metis append_eq_conv_conj append_take_drop_id)

lemma startswith_append: "startswith (t @ r) t"
  by (simp add: startswith_def)

lemma py_in_iff: "py_in sub s \<longleftrightarrow> (\<exists>a b. s = a @ sub @ b)"
proof (induction s)
  case (Cons c s)
  have "(\<exists>a b. c # s = a @ sub @ b) \<longleftrightarrow> (\<exists>b. c # s = sub @ b) \<or> (\<exists>a b. s = a @ sub @ b)"
    by (metis append_Cons append_Nil list.exhaust list.inject)
  with Cons show ?case by (simp add: startswith_iff)
qed simp

text \<open>A pattern without a newline lies within one line.\<close>

lemma prefix_without:
  assumes "d \<notin> set sub"
  shows "startswith (u @ d # v) sub \<longleftrightarrow> startswith u sub"
proof
  assume "startswith (u @ d # v) sub"
  then have t: "take (length sub) (u @ d # v) = sub" by (simp add: startswith_def)
  have "length sub \<le> length u"
  proof (rule ccontr)
    assume "\<not> ?thesis"
    then obtain k where k: "length sub = length u + Suc k" by (metis less_imp_Suc_add not_less add_Suc_right)
    then have "d \<in> set (take (length sub) (u @ d # v))" by simp
    with t assms show False by simp
  qed
  with t show "startswith u sub" by (simp add: startswith_def)
qed (auto simp: startswith_iff)

lemma py_in_lines: "d \<notin> set sub \<Longrightarrow> py_in sub (u @ d # v) \<longleftrightarrow> py_in sub u \<or> py_in sub v"
proof (induction u)
  case Nil
  then show ?case using prefix_without [of d sub "[]" v] by (auto simp: startswith_def)
next
  case (Cons c u)
  then show ?case using prefix_without [of d sub "c # u" v] by simp
qed

text \<open>A pattern that starts with its only newline.\<close>

lemma startswith_line: "startswith (d # v) (d # q) \<longleftrightarrow> startswith v q"
  by (simp add: startswith_def)

lemma py_in_newline:
  assumes "d \<notin> set q"
  shows "py_in (d # q) (u @ d # v) \<longleftrightarrow> py_in (d # q) u \<or> py_in (d # q) (d # v)"
proof (induction u)
  case (Cons c u)
  have "startswith ((c # u) @ d # v) (d # q) \<longleftrightarrow> startswith (c # u) (d # q)"
    using prefix_without [OF assms, of u v] by (simp add: startswith_def)
  with Cons show ?case by (simp del: startswith_line)
qed simp

lemma py_find_newline:
  assumes "d \<notin> set q" "startswith v q"
  shows "py_find (u @ d # v) (d # q) = Some (length u) \<longleftrightarrow> \<not> py_in (d # q) u"
proof (induction u)
  case Nil
  with assms show ?case by (simp add: startswith_line)
next
  case (Cons c u)
  have "startswith ((c # u) @ d # v) (d # q) \<longleftrightarrow> startswith (c # u) (d # q)"
    using prefix_without [OF assms(1), of u v] by (simp add: startswith_def)
  with Cons show ?case by (auto simp del: startswith_line)
qed

lemma py_find_Some:
  "py_find s sub = Some i \<Longrightarrow> s = take i s @ sub @ drop (i + length sub) s \<and> i + length sub \<le> length s"
proof (induction s arbitrary: i)
  case (Cons c s)
  show ?case
  proof (cases "startswith (c # s) sub")
    case True
    then obtain r where "c # s = sub @ r" by (auto simp: startswith_iff)
    moreover have "i = 0" using True Cons.prems by simp
    ultimately show ?thesis using arg_cong [of "c # s" "sub @ r" length] by simp
  next
    case False
    with Cons.prems obtain j where "py_find s sub = Some j" "i = Suc j" by auto
    with Cons.IH show ?thesis by simp
  qed
qed (auto split: if_splits)

lemma py_find_prefix:
  "py_find (a @ sub @ x) sub = Some (length a) \<Longrightarrow> sub \<noteq> [] \<Longrightarrow> py_find (a @ sub @ y) sub = Some (length a)"
proof (induction a)
  case Nil
  then show ?case by (cases sub) (simp_all add: startswith_def)
next
  case (Cons c a)
  have "take (length sub) (((c # a) @ sub) @ z) = take (length sub) ((c # a) @ sub)" for z
    by (subst take_append) simp
  then have "startswith ((c # a) @ sub @ x) sub \<longleftrightarrow> startswith ((c # a) @ sub @ y) sub"
    by (simp add: startswith_def)
  with Cons show ?case by (auto split: if_splits)
qed

lemma py_count_find:
  assumes "sub \<noteq> []"
  shows "py_count s sub = (case py_find s sub of None \<Rightarrow> 0 | Some i \<Rightarrow> Suc (py_count (drop (i + length sub) s) sub))"
proof (induction s)
  case Nil
  then show ?case using assms by (simp add: py_count.simps)
next
  case (Cons c s)
  then show ?case using assms by (auto simp: py_count.simps [of "c # s"] split: option.splits)
qed

lemma py_find_None: "py_find s sub = None \<longleftrightarrow> \<not> py_in sub s"
  by (induction s) auto

lemma py_count_zero: "sub \<noteq> [] \<Longrightarrow> py_count s sub = 0 \<longleftrightarrow> \<not> py_in sub s"
  using py_count_find [of sub s] py_find_None [of s sub] by (auto split: option.splits)

lemma split_on_nonempty: "split_on d s \<noteq> []"
  by (cases s) (auto split: list.splits)

lemma join_split: "join_with [d] (split_on d s) = s"
proof (induction s)
  case (Cons c s)
  obtain w ws where "split_on d s = w # ws" using split_on_nonempty by (cases "split_on d s") auto
  with Cons show ?case by (cases ws) auto
qed simp

end
