(* ===== verification/Py_Files.thy ===== *)
theory Py_Files
  imports Py_Text "HOL-Library.List_Lexorder" "HOL-Library.Char_ord"
begin

text \<open>
  Directories as the tools see them: the regular files below a directory by their relative
  name (\<open>a/b/c\<close>), with their content as a string of one character per byte, and the maps
  from file name to content digest that the tools record.  The hash
  \<open>hashlib.sha256(...).hexdigest()\<close> is the parameter \<open>sha\<close>.  Symbolic links and names that
  are not UTF-8 are left out.
\<close>

type_synonym file_map = "(string \<times> string) list"

definition slash :: char where "slash = CHR 0x2F"

definition bytes_of :: "string \<Rightarrow> byte list" where
  "bytes_of s = map of_char s"

text \<open>\<open>p.relative_to(path).parts\<close>\<close>

definition path_parts :: "string \<Rightarrow> string list" where
  "path_parts name = split_on slash name"

text \<open>\<open>sorted({...})\<close>\<close>

definition sorted_names :: "string list \<Rightarrow> string list" where
  "sorted_names names = sort (remdups names)"

text \<open>What \<open>git ls-files --cached --others --exclude-standard -z\<close> printed, split at the NULs; the
  decoding of the names is left out.  \<open>None\<close> when the directory has no \<open>.git\<close>.\<close>

record source =
  src_path :: string
  src_git :: "string list option"
  src_commit :: string
  src_status :: string
  src_files :: file_map

definition git_names :: "string list \<Rightarrow> string list" where
  "git_names out = sorted_names (filter (\<lambda>name. name \<noteq> []) out)"

text \<open>\<open>{name: sha(source / name) for name in names if (source / name).is_file()}\<close>\<close>

definition digest_entries :: "(byte list \<Rightarrow> string) \<Rightarrow> file_map \<Rightarrow> string list \<Rightarrow> (string \<times> string) list" where
  "digest_entries sha files names =
     List.map_filter (\<lambda>name. map_option (\<lambda>c. (name, sha (bytes_of c))) (map_of files name)) names"

subsection \<open>Canonical JSON\<close>

text \<open>\<open>json.dumps(entries, sort_keys=True, separators=(",", ":"))\<close> of a string-to-string map.\<close>

definition hex_digit :: "nat \<Rightarrow> char" where
  "hex_digit n = ''0123456789abcdef'' ! n"

definition escapes :: "(nat \<times> char) list" where
  "escapes = [(34, CHR 0x22), (92, CHR 0x5C), (10, CHR ''n''), (13, CHR ''r''), (9, CHR ''t''),
     (12, CHR ''f''), (8, CHR ''b'')]"

definition json_char :: "char \<Rightarrow> string" where
  "json_char c =
     (let n = of_char c in
      case map_of escapes n of Some e \<Rightarrow> [CHR 0x5C, e]
      | None \<Rightarrow> if 32 \<le> n \<and> n \<le> 126 then [c]
          else [CHR 0x5C, CHR ''u'', CHR ''0'', CHR ''0'', hex_digit (n div 16), hex_digit (n mod 16)])"

definition json_string :: "string \<Rightarrow> string" where
  "json_string s = [quote] @ concat (map json_char s) @ [quote]"

definition json_entry :: "string \<times> string \<Rightarrow> string" where
  "json_entry e = json_string (fst e) @ '':'' @ json_string (snd e)"

definition canonical_json :: "(string \<times> string) list \<Rightarrow> string" where
  "canonical_json es = ''{'' @ join_with '','' (map json_entry (sort_key fst es)) @ ''}''"

definition files_digest :: "(byte list \<Rightarrow> string) \<Rightarrow> (string \<times> string) list \<Rightarrow> string" where
  "files_digest sha es = sha (bytes_of (canonical_json es))"

subsection \<open>The serialisation is injective\<close>

lemma hex_digit_inj: "i < 16 \<Longrightarrow> j < 16 \<Longrightarrow> hex_digit i = hex_digit j \<Longrightarrow> i = j"
proof -
  have "\<forall>i\<in>set [0..<16]. \<forall>j\<in>set [0..<16]. hex_digit i = hex_digit j \<longrightarrow> i = j"
    by code_simp
  then show "i < 16 \<Longrightarrow> j < 16 \<Longrightarrow> hex_digit i = hex_digit j \<Longrightarrow> i = j" by simp
qed

lemma of_char_nat_inj: "(of_char c :: nat) = of_char d \<longleftrightarrow> c = d"
  by (metis char_of_char)

lemma of_char_lt: "(of_char c :: nat) < 256"
  by (cases c) (simp add: of_char_def)

lemma escapes_inj: "map_of escapes n = Some e \<Longrightarrow> map_of escapes m = Some e \<Longrightarrow> n = m"
  by (auto simp: escapes_def split: if_splits)

lemma escapes_special:
  "map_of escapes n = Some e \<Longrightarrow> e \<noteq> CHR ''u''" "map_of escapes 34 \<noteq> None" "map_of escapes 92 \<noteq> None"
  by (auto simp: escapes_def split: if_splits)

lemma json_char_plain:
  "map_of escapes (of_char c) = None \<Longrightarrow> c \<noteq> CHR 0x5C \<and> c \<noteq> quote"
  using escapes_special(2,3) by (auto simp: quote_def)

lemma json_char_cases:
  obtains (esc) e where "map_of escapes (of_char c) = Some e" "e \<noteq> CHR ''u''" "json_char c = [CHR 0x5C, e]"
  | (plain) "json_char c = [c]" "c \<noteq> CHR 0x5C"
  | (hex) "json_char c = [CHR 0x5C, CHR ''u'', CHR ''0'', CHR ''0'',
        hex_digit (of_char c div 16), hex_digit (of_char c mod 16)]"
proof (cases "map_of escapes (of_char c)")
  case None
  show ?thesis
  proof (cases "32 \<le> (of_char c :: nat) \<and> (of_char c :: nat) \<le> 126")
    case True
    with None json_char_plain [OF None] show ?thesis by (intro that(2)) (simp_all add: json_char_def)
  next
    case False
    with None show ?thesis by (intro that(3)) (auto simp: json_char_def Let_def)
  qed
next
  case (Some e)
  with escapes_special(1) [OF Some] that(1) show ?thesis by (simp add: json_char_def)
qed

lemma json_char_prefix_free:
  assumes "json_char c @ x = json_char d @ y"
  shows "c = d \<and> x = y"
proof -
  have same: "c = d \<Longrightarrow> x = y" using assms by simp
  have hex: "c = d" if "hex_digit (of_char c div 16) = hex_digit (of_char d div 16)"
    "hex_digit (of_char c mod 16) = hex_digit (of_char d mod 16)"
  proof -
    have "of_char c div 16 < (16 :: nat)" "of_char d div 16 < (16 :: nat)"
      using of_char_lt [of c] of_char_lt [of d] by linarith+
    with that have "(of_char c :: nat) div 16 = of_char d div 16" "(of_char c :: nat) mod 16 = of_char d mod 16"
      by (auto intro: hex_digit_inj)
    then have "(of_char c :: nat) = of_char d" by (metis div_mult_mod_eq)
    then show ?thesis by (simp add: of_char_nat_inj)
  qed
  have "c = d"
  proof (cases c rule: json_char_cases)
    case c: (esc e)
    show ?thesis
    proof (cases d rule: json_char_cases)
      case (esc e')
      with c assms have "map_of escapes (of_char c) = map_of escapes (of_char d)" by simp
      with c esc escapes_inj have "(of_char c :: nat) = of_char d" by metis
      then show ?thesis by (simp add: of_char_nat_inj)
    qed (use assms c in simp_all)
  next
    case c: plain
    show ?thesis by (cases d rule: json_char_cases) (use assms c in simp_all)
  next
    case c: hex
    show ?thesis by (cases d rule: json_char_cases) (use assms c in \<open>auto intro: hex\<close>)
  qed
  with same show ?thesis by simp
qed

lemma json_char_no_quote: "json_char c @ x \<noteq> quote # y"
  using json_char_plain [of c]
  by (auto simp: json_char_def Let_def quote_def split: option.splits if_splits)

lemma json_body_prefix_free:
  "concat (map json_char s) @ quote # x = concat (map json_char t) @ quote # y \<Longrightarrow> s = t \<and> x = y"
proof (induction s arbitrary: t)
  case Nil
  show ?case
  proof (cases t)
    case (Cons d t')
    with Nil.prems have "json_char d @ concat (map json_char t') @ quote # y = quote # x" by simp
    with json_char_no_quote show ?thesis by blast
  qed (use Nil.prems in simp)
next
  case (Cons c s)
  show ?case
  proof (cases t)
    case Nil
    with Cons.prems have "json_char c @ concat (map json_char s) @ quote # x = quote # y" by simp
    with json_char_no_quote show ?thesis by blast
  next
    case (Cons d t')
    with Cons.prems have "json_char c @ concat (map json_char s) @ quote # x =
        json_char d @ concat (map json_char t') @ quote # y" by simp
    from json_char_prefix_free [OF this] Cons.IH Cons show ?thesis by simp
  qed
qed

lemma json_string_prefix_free: "json_string s @ x = json_string t @ y \<Longrightarrow> s = t \<and> x = y"
  using json_body_prefix_free [of s x t y] by (simp add: json_string_def)

lemma json_entry_prefix_free: "json_entry e @ x = json_entry e' @ y \<Longrightarrow> e = e' \<and> x = y"
proof -
  assume "json_entry e @ x = json_entry e' @ y"
  then have "json_string (fst e) @ '':'' @ json_string (snd e) @ x =
      json_string (fst e') @ '':'' @ json_string (snd e') @ y" by (simp add: json_entry_def)
  from json_string_prefix_free [OF this] json_string_prefix_free [of "snd e" x "snd e'" y]
  show ?thesis by (simp add: prod_eq_iff)
qed

lemma json_entries_inj:
  "join_with '','' (map json_entry es) @ ''}'' = join_with '','' (map json_entry es') @ ''}'' \<Longrightarrow> es = es'"
proof (induction es arbitrary: es')
  case Nil
  show ?case
  proof (cases es')
    case (Cons e es)
    with Nil.prems show ?thesis
      by (cases es) (auto simp: json_entry_def json_string_def quote_def)
  qed simp
next
  case (Cons e es)
  have ne: "es' \<noteq> []"
    using Cons.prems by (cases es) (auto simp: json_entry_def json_string_def quote_def)
  then obtain e' fs where es': "es' = e' # fs" by (cases es') auto
  have split: "join_with '','' (map json_entry (e # es)) = json_entry e @ (case es of [] \<Rightarrow> [] | _ \<Rightarrow> '','' @ join_with '','' (map json_entry es))"
    for e es by (cases es) simp_all
  from Cons.prems have "json_entry e @ (case es of [] \<Rightarrow> [] | _ \<Rightarrow> '','' @ join_with '','' (map json_entry es)) @ ''}'' =
     json_entry e' @ (case fs of [] \<Rightarrow> [] | _ \<Rightarrow> '','' @ join_with '','' (map json_entry fs)) @ ''}''"
    unfolding es' split by simp
  from json_entry_prefix_free [OF this]
  have "e = e'" and r: "(case es of [] \<Rightarrow> [] | _ \<Rightarrow> '','' @ join_with '','' (map json_entry es)) @ ''}'' =
     (case fs of [] \<Rightarrow> [] | _ \<Rightarrow> '','' @ join_with '','' (map json_entry fs)) @ ''}''" by blast+
  moreover have "es = fs"
  proof (cases es)
    case Nil
    with r show ?thesis by (cases fs) auto
  next
    case (Cons a as)
    with r have "fs \<noteq> []" by (cases fs) auto
    with r Cons have "join_with '','' (map json_entry es) @ ''}'' = join_with '','' (map json_entry fs) @ ''}''"
      by (cases fs) simp_all
    then show ?thesis by (rule Cons.IH)
  qed
  ultimately show ?case by (simp add: es')
qed

lemma canonical_json_inj:
  assumes "canonical_json es = canonical_json es'"
  shows "sort_key fst es = sort_key fst es'"
  using assms by (intro json_entries_inj) (simp add: canonical_json_def)

text \<open>Equal serialisations describe the same map.\<close>

lemma canonical_json_same_map:
  assumes "canonical_json es = canonical_json es'"
  shows "set es = set es'"
  using canonical_json_inj [OF assms] by (metis set_sort)

lemma set_digest_entries:
  "set (digest_entries sha files names) =
     {(n, sha (bytes_of c)) | n c. n \<in> set names \<and> map_of files n = Some c}"
  by (force simp: digest_entries_def map_filter_def)

lemma digest_entries_names:
  "map fst (digest_entries sha files names) = filter (\<lambda>n. map_of files n \<noteq> None) names"
  by (induction names) (auto simp: digest_entries_def map_filter_def)

lemma sorted_names_props [simp]:
  "sorted (sorted_names ns)" "distinct (sorted_names ns)" "set (sorted_names ns) = set ns"
  by (simp_all add: sorted_names_def)

lemma set_git_names [simp]: "set (git_names out) = set out - {[]}"
  by (auto simp: git_names_def)

lemma bytes_of_inj: "bytes_of s = bytes_of t \<longleftrightarrow> s = t"
proof
  assume "bytes_of s = bytes_of t"
  then have "map unat (bytes_of s) = map unat (bytes_of t)" by simp
  moreover have "unat (of_char c :: byte) = of_char c" for c
  proof -
    have "(of_char c :: byte) = of_nat (of_char c)" by (simp add: of_char_def horner_sum_eq_sum_funpow)
    then show ?thesis using of_char_lt [of c] by (simp add: unat_of_nat)
  qed
  ultimately have "map (of_char :: char \<Rightarrow> nat) s = map of_char t" by (simp add: bytes_of_def comp_def)
  then show "s = t" by (rule map_injective) (simp add: inj_def of_char_nat_inj)
qed simp

subsection \<open>Verified copies\<close>

lemma digest_entries_iff:
  "(n, h) \<in> set (digest_entries sha files names) \<longleftrightarrow>
     n \<in> set names \<and> (\<exists>c. map_of files n = Some c \<and> h = sha (bytes_of c))"
  by (auto simp: set_digest_entries)

lemma copy_loop_Inr:
  "mapE (\<lambda>(name, _). case read name of Some c \<Rightarrow> Inr (name, c) | None \<Rightarrow> Inl (OSError name)) before = Inr copied \<Longrightarrow>
     map fst copied = map fst before \<and> (\<forall>(n, c)\<in>set copied. read n = Some c)"
proof (induction before arbitrary: copied)
  case (Cons b before)
  then show ?case by (cases b) (fastforce simp: zbind_eq_Inr split: option.splits)
qed simp

lemma copy_loop_map_of:
  "\<forall>(n, c)\<in>set copied. read n = Some c \<Longrightarrow> n \<in> set (map fst copied) \<Longrightarrow> map_of copied n = read n"
  by (induction copied) auto

text \<open>
  A tool that copies a tree reads each file its identity names and then identifies the copy.
  What it relies on: an entry is the digest of the content the tree has under that name, and
  the copy is a directory of just the files that were read.
\<close>

locale verified_copy =
  fixes sha :: "byte list \<Rightarrow> string"
    and entries :: "source \<Rightarrow> (string \<times> string) list"
    and copy :: "file_map \<Rightarrow> source"
  assumes entry: "(n, h) \<in> set (entries s) \<Longrightarrow> \<exists>c. map_of (src_files s) n = Some c \<and> h = sha (bytes_of c)"
    and copied: "src_files (copy fs) = fs"
begin

lemma copy_names:
  "mapE (\<lambda>(name, _). case read name of Some c \<Rightarrow> Inr (name, c) | None \<Rightarrow> Inl (OSError name)) (entries src) = Inr fs \<Longrightarrow>
     map fst fs = map fst (entries src)"
  by (rule copy_loop_Inr [THEN conjunct1])

text \<open>If the copy has the identity of the source, every file of it is the source's.\<close>

lemma copy_faithful:
  assumes "mapE (\<lambda>(name, _). case read name of Some c \<Rightarrow> Inr (name, c) | None \<Rightarrow> Inl (OSError name)) (entries src) = Inr fs"
    and "entries (copy fs) = entries src"
    and "\<forall>n c c'. map_of (src_files src) n = Some c \<and> read n = Some c' \<and>
      sha (bytes_of c) = sha (bytes_of c') \<longrightarrow> c = c'"
    and "(n, c) \<in> set fs"
  shows "map_of (src_files src) n = Some c"
proof -
  note cp = copy_loop_Inr [OF assms(1)]
  have nm: "n \<in> set (map fst fs)" using assms(4) by force
  then have "n \<in> set (map fst (entries src))" using cp by simp
  then obtain h where h: "(n, h) \<in> set (entries src)" by auto
  from entry [OF this] obtain c0 where c0: "map_of (src_files src) n = Some c0" "h = sha (bytes_of c0)" by blast
  from h assms(2) entry [of n h "copy fs"] obtain c1 where c1: "map_of fs n = Some c1" "h = sha (bytes_of c1)"
    by (auto simp: copied)
  have "read n = Some c" using cp assms(4) by auto
  moreover from this copy_loop_map_of [of fs read n] cp nm c1(1) have "c = c1" by simp
  ultimately show ?thesis using assms(3) c0 c1(2) by metis
qed

end

text \<open>An injective stand-in for the hash, for concrete runs.\<close>

definition sample_sha :: "byte list \<Rightarrow> string" where
  "sample_sha bs = map (char_of \<circ> unat) bs"

end
