(* ===== verification/Fairness_Sources.thy ===== *)
theory Fairness_Sources
  imports Fairness Py_Files "HOL-Library.Sublist"
begin

text \<open>
  The source side of \<open>src/tools/check-fairness.py\<close>: the inventory of a checkout, the digest of
  its build inputs, the verified copy (\<open>snapshot\<close>) and the extension of the benchmark's cell
  table (\<open>append_grid\<close>).
\<close>

subsection \<open>Inventory and snapshot\<close>

definition common_files :: "string list" where
  "common_files = [''bench/e2e_main.zig'', ''bench/e2e/fairness.zig'', ''bench/e2e/harness.zig'',
     ''bench/e2e/sim_net.zig'']"

definition excluded_dirs :: "string list" where
  "excluded_dirs = [''.git'', ''.zig-cache'', ''.zig-global-cache'', ''zig-pkg'', ''zig-out'',
     ''__pycache__'', ''benchmark-reports'']"

text \<open>\<open>os.walk\<close> with the excluded directories pruned visits the files none of whose directories
  has an excluded name.\<close>

definition pruned :: "string \<Rightarrow> bool" where
  "pruned name = list_ex (\<lambda>d. d \<in> set excluded_dirs) (butlast (path_parts name))"

definition inventory :: "(byte list \<Rightarrow> string) \<Rightarrow> source \<Rightarrow> (string \<times> string) list" where
  "inventory sha s =
     (let names = (case src_git s of
                     Some out \<Rightarrow> git_names out
                   | None \<Rightarrow> filter (\<lambda>name. \<not> pruned name) (map fst (src_files s)))
      in digest_entries sha (src_files s) (sort names))"

text \<open>\<open>runtime_digest\<close> reads every selected entry again; a file that is gone raises.\<close>

definition runtime_digest ::
  "(byte list \<Rightarrow> string) \<Rightarrow> file_map \<Rightarrow> (string \<times> string) list \<Rightarrow> py_error + string" where
  "runtime_digest sha files entries =
     zbind (mapE (\<lambda>name. case map_of files name of Some c \<Rightarrow> Inr () | None \<Rightarrow> Inl (OSError name))
              (filter runtime_input (sort (map fst entries)))) (\<lambda>_.
     Inr (sha (digest_stream bytes_of (\<lambda>name. bytes_of (the (map_of files name)))
                 (sort (map fst entries)))))"

record fairness_identity =
  fi_path :: string
  fi_files :: "(string \<times> string) list"
  fi_runtime :: string
  fi_git :: "(string \<times> string) option"     \<comment> \<open>commit and status\<close>

text \<open>The files below the new directory after the copy loop.\<close>

definition copied_source :: "file_map \<Rightarrow> source" where
  "copied_source copied = \<lparr>src_path = [], src_git = None, src_commit = [], src_status = [], src_files = copied\<rparr>"

text \<open>
  The source may change while it is copied: \<open>src\<close> is the checkout at the first inventory,
  \<open>read\<close> what \<open>copyfile\<close> read of each file, \<open>src'\<close> the checkout at the second inventory and
  \<open>later\<close> its files when \<open>runtime_digest\<close> reads them.  Returns the copy and the identity.
\<close>

definition snapshot ::
  "(byte list \<Rightarrow> string) \<Rightarrow> source \<Rightarrow> (string \<Rightarrow> string option) \<Rightarrow> source \<Rightarrow> file_map \<Rightarrow>
   py_error + (file_map \<times> fairness_identity)" where
  "snapshot sha src read src' later =
     (let before = inventory sha src in
      zbind (mapE (\<lambda>(name, _). case read name of Some c \<Rightarrow> Inr (name, c) | None \<Rightarrow> Inl (OSError name))
               before) (\<lambda>copied.
      zbind (py_raise (inventory sha src' \<noteq> before \<or> inventory sha (copied_source copied) \<noteq> before)
               ''candidate source changed during snapshot'') (\<lambda>_.
      zbind (runtime_digest sha later before) (\<lambda>digest.
      Inr (copied, \<lparr>fi_path = src_path src, fi_files = before, fi_runtime = digest,
             fi_git = (if src_git src' = None then None else Some (src_commit src', src_status src'))\<rparr>)))))"

subsection \<open>The cell table\<close>

definition extra_cell_lines :: "string list" where
  "extra_cell_lines = [
     '''',
     ''    .{'',
     ''        .name = \"fairness_grid_mixed_reverse\",'',
     ''        .flows = &.{ .{ .congestion_control = .cubic }, .{ .congestion_control = .bbr } },'',
     ''    },'',
     ''    .{'',
     ''        .name = \"fairness_grid_mixed_reverse_shallow25ms\",'',
     ''        .flows = &.{ .{ .congestion_control = .cubic }, .{ .congestion_control = .bbr } },'',
     ''        .max_queue_delay_us = 25000,'',
     ''    },'',
     ''    .{'',
     ''        .name = \"fairness_grid_mixed_cubic_delayed1s\",'',
     ''        .flows = &.{ .{ .congestion_control = .bbr }, .{ .congestion_control = .cubic, .start_us = 1000000 } },'',
     ''    },'',
     ''    .{'',
     ''        .name = \"fairness_grid_mixed_bbr_delayed1s\",'',
     ''        .flows = &.{ .{ .congestion_control = .bbr, .start_us = 1000000 }, .{ .congestion_control = .cubic } },'',
     ''    },'',
     ''    .{'',
     ''        .name = \"fairness_grid_mixed_base10ms\",'',
     ''        .flows = &.{ .{ .congestion_control = .bbr }, .{ .congestion_control = .cubic } },'',
     ''        .base_delay_us = 10000,'',
     ''    },'',
     ''    .{'',
     ''        .name = \"fairness_grid_mixed_shallow5ms\",'',
     ''        .flows = &.{ .{ .congestion_control = .bbr }, .{ .congestion_control = .cubic } },'',
     ''        .max_queue_delay_us = 5000,'',
     ''    },'',
     ''    .{'',
     ''        .name = \"fairness_grid_mixed_deep250ms\",'',
     ''        .flows = &.{ .{ .congestion_control = .bbr }, .{ .congestion_control = .cubic } },'',
     ''        .max_queue_delay_us = 250000,'',
     ''    },'',
     ''    .{'',
     ''        .name = \"fairness_grid_mixed_measure60s\",'',
     ''        .flows = &.{ .{ .congestion_control = .bbr }, .{ .congestion_control = .cubic } },'',
     ''        .measure_us = 60000000,'',
     ''    },'']"

definition extra_cells :: string where
  "extra_cells = join_with [newline] extra_cell_lines"

definition grid_marker :: string where
  "grid_marker = ''const fairness_cells = [_]fairness.FairnessOptions{''"

definition grid_end :: string where
  "grid_end = newline # ''};''"

text \<open>\<open>re.findall(r'\.name = "([^"]+)"', ...)\<close>\<close>

definition name_toks :: "tok list" where
  "name_toks = [Lit (''.name = '' @ [quote]), NoQuotes, Lit [quote]]"

definition cell_names :: "string \<Rightarrow> string list" where
  "cell_names region = concat (re_findall name_toks region)"

definition append_grid :: "string \<Rightarrow> py_error + string" where
  "append_grid doc =
     zbind (py_raise (py_count doc grid_marker \<noteq> 1) ''fairness declaration must occur exactly once'') (\<lambda>_.
     zbind (py_str_index doc grid_marker) (\<lambda>start.
     zbind (py_str_index (drop start doc) grid_end) (\<lambda>len.
     let names = cell_names (take len (drop start doc)) in
     zbind (py_raise (names \<noteq> take 6 (map fst baseline_bytes))
              ''expected the original six fairness cells, in their recorded order'') (\<lambda>_.
     Inr (take (start + len) doc @ extra_cells @ drop (start + len) doc)))))"

subsection \<open>What \<open>findall\<close> finds\<close>

abbreviation name_lit :: string where "name_lit \<equiv> ''.name = '' @ [quote]"

lemma match_name_iff:
  "match_toks name_toks s = Some (caps, r) \<longleftrightarrow>
     (\<exists>w. caps = [w] \<and> w \<noteq> [] \<and> quote \<notin> set w \<and> s = name_lit @ w @ quote # r)"
proof
  assume m: "match_toks name_toks s = Some (caps, r)"
  then obtain b where b: "s = name_lit @ b"
    by (auto simp: name_toks_def startswith_iff split: if_splits)
  define w where "w = takeWhile (\<lambda>c. c \<noteq> quote) b"
  have bw: "b = w @ drop (length w) b" unfolding w_def by (metis append_eq_conv_conj takeWhile_dropWhile_id)
  have m': "w \<noteq> []" "startswith (drop (length w) b) [quote]" "caps = [w]" "r = drop 1 (drop (length w) b)"
    using m by (auto simp: b name_toks_def startswith_append Let_def w_def [symmetric] split: if_splits)
  from m'(2) obtain ra where ra: "drop (length w) b = quote # ra" by (auto simp: startswith_iff)
  have "r = ra" unfolding m'(4) ra by simp
  with ra have "drop (length w) b = quote # r" by simp
  with bw have "b = w @ quote # r" by simp
  moreover have "quote \<notin> set w" by (auto simp: w_def dest: set_takeWhileD)
  ultimately show "\<exists>w. caps = [w] \<and> w \<noteq> [] \<and> quote \<notin> set w \<and> s = name_lit @ w @ quote # r"
    using b m' by blast
next
  assume "\<exists>w. caps = [w] \<and> w \<noteq> [] \<and> quote \<notin> set w \<and> s = name_lit @ w @ quote # r"
  then obtain w where w: "caps = [w]" "w \<noteq> []" "quote \<notin> set w" "s = name_lit @ w @ quote # r" by blast
  have "takeWhile (\<lambda>c. c \<noteq> quote) (w @ quote # r) = w" using w(3) by (subst takeWhile_append2) auto
  moreover have "startswith s name_lit" "drop (length name_lit) s = w @ quote # r" using w(4) by (simp_all add: startswith_append)
  ultimately show "match_toks name_toks s = Some (caps, r)"
    using w(1,2) by (simp add: name_toks_def Let_def)
qed

lemma match_name_append:
  "match_toks name_toks s = Some (caps, r) \<Longrightarrow> match_toks name_toks (s @ x) = Some (caps, r @ x)"
  by (auto simp: match_name_iff)

lemma match_name_shorter: "match_toks name_toks s = Some (caps, r) \<Longrightarrow> length r < length s"
  by (auto simp: match_name_iff)

lemma findall_nonempty: "re_findall ts s \<noteq> [] \<longleftrightarrow> (\<exists>b. suffix b s \<and> b \<noteq> [] \<and> match_toks ts b \<noteq> None)"
proof (induction s)
  case (Cons c s)
  show ?case
  proof (cases "match_toks ts (c # s)")
    case None
    then have "re_findall ts (c # s) = re_findall ts s" by (simp add: re_findall.simps [of ts "c # s"])
    with Cons None show ?thesis by (auto simp: suffix_Cons)
  next
    case (Some m)
    then have "re_findall ts (c # s) \<noteq> []" by (cases m) (simp add: re_findall.simps [of ts "c # s"])
    moreover have "suffix (c # s) (c # s)" by simp
    ultimately show ?thesis using Some by blast
  qed
qed (simp add: re_findall.simps)

lemma straddling_match:
  assumes "match_toks name_toks s = None" "match_toks name_toks (s @ x) = Some m"
  shows "re_findall name_toks s = []"
proof (rule ccontr)
  assume "re_findall name_toks s \<noteq> []"
  then obtain a b m' where ab: "s = a @ b" "match_toks name_toks b = Some m'"
    by (auto simp: findall_nonempty suffix_def)
  obtain w' r' where b: "b = name_lit @ w' @ quote # r'"
    using ab(2) by (cases m') (auto simp: match_name_iff)
  obtain w r where w: "w \<noteq> []" "quote \<notin> set w" "s @ x = name_lit @ w @ quote # r"
    using assms(2) by (cases m) (auto simp: match_name_iff)
  have "length s \<le> length (name_lit @ w)"
  proof (rule ccontr)
    assume "\<not> ?thesis"
    then have "take (length (name_lit @ w @ [quote])) (s @ x) = take (length (name_lit @ w @ [quote])) s" by simp
    moreover have "take (length (name_lit @ w @ [quote])) (s @ x) = name_lit @ w @ [quote]"
      using w(3) by simp
    ultimately have "s = name_lit @ w @ quote # drop (length (name_lit @ w @ [quote])) s"
      by (metis append_Cons append_Nil append_assoc append_take_drop_id)
    with w(1,2) have "match_toks name_toks s = Some ([w], drop (length (name_lit @ w @ [quote])) s)"
      unfolding match_name_iff by blast
    with assms(1) show False by simp
  qed
  then have "s = take (length s) (name_lit @ w)" using w(3)
    by (metis append_eq_append_conv_if append_eq_conv_conj append.assoc)
  then have "count_list s quote \<le> count_list (name_lit @ w) quote"
    by (metis append_take_drop_id count_list_append le_add1)
  also have "\<dots> = 1" using w(2) by (simp add: quote_def count_notin)
  finally show False unfolding ab(1) b by (simp add: quote_def)
qed

text \<open>The text behind the last match.\<close>

function re_rest :: "tok list \<Rightarrow> string \<Rightarrow> string" where
  "re_rest ts s =
     (case s of [] \<Rightarrow> []
      | c # s' \<Rightarrow> (case match_toks ts s of
           Some (caps, r) \<Rightarrow> re_rest ts (if length r < length s then r else s')
         | None \<Rightarrow> if re_findall ts s' = [] then s else re_rest ts s'))"
  by pat_completeness auto
termination
  by (relation "measure (\<lambda>(ts, s). length s)") auto

declare re_rest.simps [simp del]

lemma findall_append:
  "re_findall name_toks (s @ x) = re_findall name_toks s @ re_findall name_toks (re_rest name_toks s @ x)"
proof (induction "length s" arbitrary: s rule: less_induct)
  case less
  show ?case
  proof (cases s)
    case Nil
    then show ?thesis by (simp add: re_findall.simps [of _ "[]"] re_rest.simps)
  next
    case (Cons c s')
    note f = re_findall.simps [of name_toks s] re_findall.simps [of name_toks "s @ x"] re_rest.simps [of name_toks s]
    show ?thesis
    proof (cases "match_toks name_toks s")
      case (Some m)
      obtain caps r where m: "m = (caps, r)" by fastforce
      with Some have M: "match_toks name_toks s = Some (caps, r)" by simp
      note sh = match_name_shorter [OF M]
      from f match_name_append [OF M, of x] less [OF sh] M sh Cons show ?thesis by simp
    next
      case None
      show ?thesis
      proof (cases "re_findall name_toks s' = []")
        case True
        with None f(1,3) Cons show ?thesis by simp
      next
        case False
        then have "re_findall name_toks s \<noteq> []" using f(1) Cons None by simp
        with straddling_match [OF None, of x] have n: "match_toks name_toks (s @ x) = None"
          by (cases "match_toks name_toks (s @ x)") simp_all
        with None False f Cons less [of s'] show ?thesis by simp
      qed
    qed
  qed
qed

lemma findall_line:
  assumes "\<not> py_in name_lit u"
  shows "re_findall name_toks (u @ newline # v) = re_findall name_toks v"
proof -
  have nl: "newline \<notin> set name_lit" by (simp add: newline_def quote_def)
  have no: "match_toks name_toks (u @ newline # v) = None" if "\<not> startswith u name_lit" for u
  proof (cases "match_toks name_toks (u @ newline # v)")
    case (Some m)
    then have "startswith (u @ newline # v) name_lit"
      by (cases m) (auto simp: match_name_iff startswith_iff)
    with prefix_without [OF nl] that show ?thesis by blast
  qed simp
  show ?thesis
    using assms
  proof (induction u)
    case Nil
    have "match_toks name_toks (newline # v) = None" using no [of "[]"] by simp
    then show ?case by (simp add: re_findall.simps [of _ "newline # v"])
  next
    case (Cons c u)
    then have "match_toks name_toks ((c # u) @ newline # v) = None" by (intro no) simp
    with Cons show ?case by (simp add: re_findall.simps [of _ "c # u @ newline # v"])
  qed
qed

lemma findall_lines:
  assumes "\<not> py_in name_lit (re_rest name_toks u)"
  shows "re_findall name_toks (u @ newline # v) = re_findall name_toks u @ re_findall name_toks v"
  unfolding findall_append [of u] findall_line [OF assms] ..


lemma findall_join:
  "list_all (\<lambda>l. \<not> py_in name_lit (re_rest name_toks l)) ls \<Longrightarrow>
   re_findall name_toks (join_with [newline] ls) = concat (map (re_findall name_toks) ls)"
proof (induction ls)
  case Nil
  show ?case by (simp add: re_findall.simps)
next
  case (Cons l ls)
  then show ?case by (cases ls) (simp_all add: findall_lines)
qed

lemma py_in_join:
  "d \<notin> set sub \<Longrightarrow> sub \<noteq> [] \<Longrightarrow> py_in sub (join_with [d] ls) \<longleftrightarrow> list_ex (py_in sub) ls"
proof (induction ls)
  case (Cons l ls)
  then show ?case by (cases ls) (simp_all add: py_in_lines)
qed simp

lemma py_in_join_newline:
  "d \<notin> set q \<Longrightarrow> list_all (\<lambda>l. d \<notin> set l \<and> \<not> startswith l q) ls \<Longrightarrow> \<not> py_in (d # q) (join_with [d] ls)"
proof (induction ls)
  case (Cons l ls)
  have l: "\<not> py_in (d # q) l" using Cons.prems(2) by (auto simp: py_in_iff)
  show ?case
  proof (cases ls)
    case (Cons l' ls')
    have "\<not> startswith (join_with [d] ls) q"
      using Cons Cons.prems prefix_without [OF Cons.prems(1), of l'] by (cases ls') simp_all
    then have "\<not> py_in (d # q) (d # join_with [d] ls)" using Cons.IH Cons.prems by simp
    with l Cons py_in_newline [OF Cons.prems(1)] show ?thesis by simp
  qed (use l in simp)
qed simp

lemma extra_lines_closed: "list_all (\<lambda>l. \<not> py_in name_lit (re_rest name_toks l)) extra_cell_lines"
  by code_simp

lemma extra_names: "concat (concat (map (re_findall name_toks) extra_cell_lines)) = map fst (drop 6 baseline_bytes)"
  by code_simp


lemma extra_cells_head: "extra_cells = newline # join_with [newline] (tl extra_cell_lines)"
  by (simp add: extra_cells_def extra_cell_lines_def)

lemma extra_cells_facts:
  "\<not> py_in grid_marker (join_with [newline] (tl extra_cell_lines))"
  "\<not> py_in grid_end extra_cells"
  "cell_names extra_cells = map fst (drop 6 baseline_bytes)"
proof -
  have "newline \<notin> set grid_marker" "grid_marker \<noteq> []" by (simp_all add: newline_def grid_marker_def)
  moreover have "\<not> list_ex (py_in grid_marker) (tl extra_cell_lines)" by code_simp
  ultimately show "\<not> py_in grid_marker (join_with [newline] (tl extra_cell_lines))"
    by (simp add: py_in_join)
  have "list_all (\<lambda>l. newline \<notin> set l \<and> \<not> startswith l ''};'') extra_cell_lines" by code_simp
  moreover have "newline \<notin> set ''};''" by (simp add: newline_def)
  ultimately show "\<not> py_in grid_end extra_cells"
    unfolding extra_cells_def grid_end_def by (intro py_in_join_newline)
  show "cell_names extra_cells = map fst (drop 6 baseline_bytes)"
    unfolding cell_names_def extra_cells_def findall_join [OF extra_lines_closed] by (rule extra_names)
qed

subsection \<open>What \<open>append_grid\<close> does\<close>

text \<open>The text around the insertion point.\<close>

lemma append_grid_split:
  assumes "append_grid doc = Inr doc'"
  obtains a u c where "doc = a @ u @ grid_end @ c" "doc' = a @ u @ extra_cells @ grid_end @ c"
    "startswith u grid_marker" "py_find doc grid_marker = Some (length a)" "py_count doc grid_marker = 1"
    "\<not> py_in grid_end u" "cell_names u = take 6 (map fst baseline_bytes)"
proof -
  obtain start len where s: "py_count doc grid_marker = 1" "py_find doc grid_marker = Some start"
    "py_find (drop start doc) grid_end = Some len"
    "cell_names (take len (drop start doc)) = take 6 (map fst baseline_bytes)"
    "doc' = take (start + len) doc @ extra_cells @ drop (start + len) doc"
    using assms by (auto simp: append_grid_def py_str_index_def zbind_eq_Inr Let_def split: option.splits)
  define a where "a = take start doc"
  define u where "u = take len (drop start doc)"
  define c where "c = drop (len + length grid_end) (drop start doc)"
  note m = py_find_Some [OF s(2)] and e = py_find_Some [OF s(3)]
  have d: "drop start doc = u @ grid_end @ c" "length u = len" "length a = start"
    using e m by (auto simp: u_def c_def a_def)
  have doc: "doc = a @ u @ grid_end @ c" unfolding a_def d(1) [symmetric] by simp
  have mk: "startswith (u @ grid_end @ c) grid_marker"
    unfolding d(1) [symmetric] using m by (metis a_def append_eq_conv_conj d(3) startswith_append)
  have nl: "newline \<notin> set grid_marker" by (simp add: newline_def grid_marker_def)
  have "startswith u grid_marker"
    using mk prefix_without [OF nl, of u "''};'' @ c"] by (simp add: grid_end_def)
  moreover have "newline \<notin> set ''};''" by (simp add: newline_def)
  then have "\<not> py_in grid_end u"
    using s(3) py_find_newline [of newline "''};''" "''};'' @ c" u] unfolding d(1) d(2) [symmetric] grid_end_def
    by (simp add: startswith_append)
  moreover have "doc' = a @ u @ extra_cells @ grid_end @ c"
    unfolding s(5) using doc d(2,3) by simp
  moreover have "cell_names u = take 6 (map fst baseline_bytes)" using s(4) by (simp only: u_def)
  moreover have "py_find doc grid_marker = Some (length a)" using s(2) d(3) by simp
  ultimately show ?thesis using that [OF doc] s(1) by blast
qed

lemma append_grid_after:
  assumes "doc = a @ u @ grid_end @ c" "startswith u grid_marker"
    "py_find doc grid_marker = Some (length a)" "py_count doc grid_marker = 1" "\<not> py_in grid_end u"
  shows "py_count (a @ u @ extra_cells @ grid_end @ c) grid_marker = 1"
    "py_find (a @ u @ extra_cells @ grid_end @ c) grid_marker = Some (length a)"
    "py_find (u @ extra_cells @ grid_end @ c) grid_end = Some (length (u @ extra_cells))"
proof -
  have ne: "grid_marker \<noteq> []" "newline \<notin> set grid_marker" "newline \<notin> set ''};''"
    by (simp_all add: grid_marker_def newline_def)
  obtain v where v: "u = grid_marker @ v" using assms(2) by (auto simp: startswith_iff)
  let ?new = "a @ u @ extra_cells @ grid_end @ c"
  show find: "py_find ?new grid_marker = Some (length a)"
    using py_find_prefix [OF _ ne(1), of a "v @ grid_end @ c" "v @ extra_cells @ grid_end @ c"] assms(1,3) v by simp
  have "py_count (v @ grid_end @ c) grid_marker = 0"
    using py_count_find [OF ne(1), of doc] assms(1,3,4) v by simp
  then have "\<not> py_in grid_marker (v @ newline # ''};'' @ c)"
    using py_count_zero [OF ne(1)] by (simp add: grid_end_def)
  then have "\<not> py_in grid_marker v" "\<not> py_in grid_marker (''};'' @ c)"
    unfolding py_in_lines [OF ne(2)] by blast+
  then have "\<not> py_in grid_marker (v @ newline # join_with [newline] (tl extra_cell_lines) @ newline # ''};'' @ c)"
    unfolding py_in_lines [OF ne(2)] using extra_cells_facts(1) by blast
  then have "py_count (v @ extra_cells @ grid_end @ c) grid_marker = 0"
    unfolding py_count_zero [OF ne(1)] by (simp add: extra_cells_head grid_end_def)
  then show "py_count ?new grid_marker = 1"
    using py_count_find [OF ne(1), of ?new] find v by simp
  have "\<not> py_in grid_end (u @ newline # join_with [newline] (tl extra_cell_lines))"
    using assms(5) extra_cells_facts(2) py_in_newline [OF ne(3)]
    unfolding grid_end_def extra_cells_head by blast
  then show "py_find (u @ extra_cells @ grid_end @ c) grid_end = Some (length (u @ extra_cells))"
    using py_find_newline [OF ne(3), of "''};'' @ c" "u @ extra_cells"]
    by (simp add: grid_end_def extra_cells_head startswith_append)
qed

lemma findall_singletons: "\<forall>caps\<in>set (re_findall name_toks s). length caps = 1"
proof (induction "length s" arbitrary: s rule: less_induct)
  case less
  show ?case
  proof (cases s)
    case (Cons c s')
    show ?thesis
    proof (cases "match_toks name_toks s")
      case None
      then have "re_findall name_toks s = re_findall name_toks s'"
        using Cons re_findall.simps [of name_toks s] by simp
      with Cons less [of s'] show ?thesis by simp
    next
      case (Some m)
      then obtain caps r where M: "match_toks name_toks s = Some (caps, r)" by (cases m) auto
      from M have "length caps = 1" by (auto simp: match_name_iff)
      moreover have "re_findall name_toks s = caps # re_findall name_toks r"
        using M match_name_shorter [OF M] Cons re_findall.simps [of name_toks s] by simp
      ultimately show ?thesis using less [OF match_name_shorter [OF M]] by simp
    qed
  qed (simp add: re_findall.simps)
qed

lemma length_cell_names: "length (cell_names s) = length (re_findall name_toks s)"
proof -
  have "(\<forall>x\<in>set xs. length x = 1) \<Longrightarrow> length (concat xs) = length xs" for xs :: "string list list"
    by (induction xs) simp_all
  with findall_singletons show ?thesis by (simp add: cell_names_def)
qed

text \<open>The extension cannot be applied twice: running \<open>append_grid\<close> on its own result is
  refused, because the declaration no longer holds just the original six cells.\<close>

lemma append_grid_again:
  assumes "append_grid doc = Inr doc'"
  shows "append_grid doc' =
    Inl (ValueError ''expected the original six fairness cells, in their recorded order'')"
proof -
  obtain a u c where s: "doc = a @ u @ grid_end @ c" "doc' = a @ u @ extra_cells @ grid_end @ c"
    "startswith u grid_marker" "py_find doc grid_marker = Some (length a)" "py_count doc grid_marker = 1"
    "\<not> py_in grid_end u" "cell_names u = take 6 (map fst baseline_bytes)"
    by (rule append_grid_split [OF assms])
  note after = append_grid_after [OF s(1,3-6)]
  have len: "length (re_findall name_toks u) = 6" "length (re_findall name_toks extra_cells) = 8"
    using s(7) extra_cells_facts(3) unfolding length_cell_names [symmetric] by (simp_all add: baseline_bytes_def)
  then have "re_findall name_toks extra_cells \<noteq> []" by auto
  then obtain b where "suffix b extra_cells" "b \<noteq> []" "match_toks name_toks b \<noteq> None"
    unfolding findall_nonempty by blast
  then have "re_findall name_toks (re_rest name_toks u @ extra_cells) \<noteq> []"
    unfolding findall_nonempty by (metis suffix_appendI)
  then have "6 < length (cell_names (u @ extra_cells))"
    unfolding length_cell_names findall_append [of u] using len(1) by simp
  then have "cell_names (u @ extra_cells) \<noteq> take 6 (map fst baseline_bytes)" by auto
  then show ?thesis
    unfolding s(2) append_grid_def py_str_index_def after(1,2) by (simp add: after(3))
qed

subsection \<open>Properties of the cell table\<close>

text \<open>C9: \<open>append_grid\<close> inserts the eight grid cells at the end of the declaration and nowhere
  else.  The text around the insertion is unchanged, the declaration is still the only one
  and still ends at the first closing brace; and unless the six original cells are followed
  by a name without a closing quote, the extended declaration names exactly the fourteen
  cells of the frozen baseline, in its order.  Running it on its own result is refused.\<close>

theorem append_grid_extends:
  assumes "append_grid doc = Inr doc'"
  shows "\<exists>a u c. doc = a @ u @ grid_end @ c \<and> doc' = a @ u @ extra_cells @ grid_end @ c \<and>
    py_count doc' grid_marker = 1 \<and> py_str_index doc' grid_marker = Inr (length a) \<and>
    py_str_index (drop (length a) doc') grid_end = Inr (length (u @ extra_cells)) \<and>
    (\<not> py_in name_lit (re_rest name_toks u) \<longrightarrow> cell_names (u @ extra_cells) = map fst baseline_bytes) \<and>
    append_grid doc' = Inl (ValueError ''expected the original six fairness cells, in their recorded order'')"
proof -
  obtain a u c where s: "doc = a @ u @ grid_end @ c" "doc' = a @ u @ extra_cells @ grid_end @ c"
    "startswith u grid_marker" "py_find doc grid_marker = Some (length a)" "py_count doc grid_marker = 1"
    "\<not> py_in grid_end u" "cell_names u = take 6 (map fst baseline_bytes)"
    by (rule append_grid_split [OF assms])
  note after = append_grid_after [OF s(1,3-6)]
  have "cell_names (u @ extra_cells) = map fst baseline_bytes" if "\<not> py_in name_lit (re_rest name_toks u)"
  proof -
    have e: "re_findall name_toks extra_cells = re_findall name_toks (join_with [newline] (tl extra_cell_lines))"
      unfolding extra_cells_head using findall_line [of "[]"] by simp
    have "cell_names (u @ extra_cells) = cell_names u @ cell_names extra_cells"
      unfolding cell_names_def extra_cells_head findall_lines [OF that] e [unfolded extra_cells_head] by simp
    also have "\<dots> = map fst baseline_bytes"
      unfolding s(7) extra_cells_facts(3) by (simp add: drop_map [symmetric])
    finally show ?thesis .
  qed
  with s(1,2) after append_grid_again [OF assms] show ?thesis
    by (intro exI [of _ a] exI [of _ u] exI [of _ c]) (simp add: py_str_index_def)
qed

definition sample_cells :: string where
  "sample_cells = join_with [newline] ([grid_marker] @
     map (\<lambda>n. ''    .{ .name = '' @ [quote] @ n @ [quote] @ '' },'') (take 6 (map fst baseline_bytes)) @ [''};'', []])"

lemma sample_cells_appended: "\<exists>t. append_grid sample_cells = Inr t"
proof -
  have "py_count sample_cells grid_marker = 1" by code_simp
  moreover have "py_find sample_cells grid_marker = Some 0" by code_simp
  moreover have "map_option (\<lambda>n. cell_names (take n sample_cells)) (py_find sample_cells grid_end) =
      Some (take 6 (map fst baseline_bytes))" by code_simp
  ultimately show ?thesis by (auto simp: append_grid_def py_str_index_def)
qed

theorem append_grid_extends_witness:
  "\<exists>t a u c. append_grid sample_cells = Inr t \<and> sample_cells = a @ u @ grid_end @ c \<and>
     t = a @ u @ extra_cells @ grid_end @ c"
  using sample_cells_appended append_grid_extends [of sample_cells] by blast

subsection \<open>What a snapshot contains\<close>

interpretation fairness_copy: verified_copy sha "inventory sha" copied_source for sha
  by unfold_locales (auto simp: inventory_def digest_entries_iff copied_source_def Let_def)

lemma inventory_copied:
  "(n, h) \<in> set (inventory sha (copied_source copied)) \<longleftrightarrow>
     \<not> pruned n \<and> (\<exists>c. map_of copied n = Some c \<and> h = sha (bytes_of c))"
  by (auto simp: inventory_def copied_source_def digest_entries_iff dest: map_of_SomeD)
     (metis image_eqI map_of_SomeD prod.sel(1))

text \<open>C7: A snapshot that is accepted is a faithful copy, although the checkout is read while
  others may write to it.  If no two contents involved collide under the hash, every copied
  file has the content it had at the first inventory; the copy holds exactly the inventoried
  names, none of them below an excluded directory; and the recorded identity is that
  inventory.\<close>

theorem snapshot_faithful:
  assumes "snapshot sha src read src' later = Inr (copied, ident)"
    and "\<forall>n c c'. map_of (src_files src) n = Some c \<and> read n = Some c' \<and>
      sha (bytes_of c) = sha (bytes_of c') \<longrightarrow> c = c'"
  shows "map fst copied = map fst (inventory sha src) \<and> fi_files ident = inventory sha src \<and>
    (\<forall>(n, c)\<in>set copied. map_of (src_files src) n = Some c \<and> \<not> pruned n) \<and>
    inventory sha src' = inventory sha src"
proof -
  let ?b = "inventory sha src"
  from assms(1) have c: "mapE (\<lambda>(name, _). case read name of Some c \<Rightarrow> Inr (name, c) | None \<Rightarrow> Inl (OSError name))
      ?b = Inr copied"
    and same: "inventory sha src' = ?b" "inventory sha (copied_source copied) = ?b"
    and id: "fi_files ident = ?b"
    by (auto simp: snapshot_def Let_def zbind_eq_Inr)
  have "map_of (src_files src) n = Some d \<and> \<not> pruned n" if nc: "(n, d) \<in> set copied" for n d
  proof -
    have "n \<in> set (map fst copied)" using nc by force
    then have "n \<in> set (map fst ?b)" using fairness_copy.copy_names [OF c] by simp
    then obtain h where "(n, h) \<in> set ?b" by auto
    with same(2) inventory_copied have "\<not> pruned n" by metis
    with fairness_copy.copy_faithful [OF c same(2) assms(2) nc] show ?thesis by simp
  qed
  with fairness_copy.copy_names [OF c] id same show ?thesis by auto
qed

lemma digest_entries_map:
  "digest_entries sha files names =
     map (\<lambda>n. (n, sha (bytes_of (the (map_of files n))))) (filter (\<lambda>n. map_of files n \<noteq> None) names)"
  by (induction names) (auto simp: digest_entries_def map_filter_def)

lemma inventory_names:
  obtains ns where "sorted ns" "\<forall>n\<in>set ns. map_of (src_files s) n \<noteq> None"
    "inventory sha s = map (\<lambda>n. (n, sha (bytes_of (the (map_of (src_files s) n))))) ns"
proof -
  obtain names where n: "inventory sha s = digest_entries sha (src_files s) (sort names)"
    by (simp add: inventory_def Let_def)
  show ?thesis
    by (rule that [of "filter (\<lambda>n. map_of (src_files s) n \<noteq> None) (sort names)"])
       (simp_all add: n digest_entries_map sorted_filter [where f = id, simplified])
qed

lemma snapshot_stable:
  "(\<exists>r. snapshot sha src (map_of (src_files src)) src (src_files src) = Inr r) \<longleftrightarrow>
     \<not> (\<exists>n\<in>set (map fst (inventory sha src)). pruned n)"
proof -
  obtain ns where ns: "sorted ns" "\<forall>n\<in>set ns. map_of (src_files src) n \<noteq> None"
    "inventory sha src = map (\<lambda>n. (n, sha (bytes_of (the (map_of (src_files src) n))))) ns"
    by (rule inventory_names)
  let ?b = "inventory sha src" and ?f = "map_of (src_files src)"
  define copied where "copied = map (\<lambda>n. (n, the (?f n))) ns"
  have c: "mapE (\<lambda>(name, _). case ?f name of Some c \<Rightarrow> Inr (name, c) | None \<Rightarrow> Inl (OSError name)) ?b = Inr copied"
    unfolding ns(3) copied_def mapE_Inr_iff list.rel_map
    by (rule list.rel_refl_strong) (use ns(2) in \<open>auto split: option.split\<close>)
  note cp = copy_loop_Inr [OF c]
  have names: "map fst copied = ns" by (simp add: copied_def comp_def)
  have mo: "map_of copied n = ?f n" if "n \<in> set ns" for n
    using copy_loop_map_of [of copied ?f n] cp that names by simp
  have "inventory sha (copied_source copied) = ?b \<longleftrightarrow> \<not> (\<exists>n\<in>set ns. pruned n)"
  proof
    assume e: "inventory sha (copied_source copied) = ?b"
    show "\<not> (\<exists>n\<in>set ns. pruned n)"
    proof
      assume "\<exists>n\<in>set ns. pruned n"
      then obtain n h where "pruned n" "(n, h) \<in> set ?b" unfolding ns(3) by auto
      with inventory_copied [of n h sha copied] e show False by simp
    qed
  next
    assume p: "\<not> (\<exists>n\<in>set ns. pruned n)"
    then have "filter (\<lambda>n. \<not> pruned n) ns = ns" by (simp add: filter_id_conv)
    then have "inventory sha (copied_source copied) = digest_entries sha copied ns"
      using ns(1) by (simp add: inventory_def copied_source_def names sorted_sort_id)
    also have "\<dots> = map (\<lambda>n. (n, sha (bytes_of (the (map_of copied n))))) ns"
      using mo ns(2) unfolding digest_entries_map by (simp add: filter_id_conv)
    also have "\<dots> = ?b" unfolding ns(3) using mo by simp
    finally show "inventory sha (copied_source copied) = ?b" .
  qed
  moreover have "\<exists>d. runtime_digest sha (src_files src) ?b = Inr d"
  proof -
    have "mapE (\<lambda>name. case ?f name of Some c \<Rightarrow> Inr () | None \<Rightarrow> Inl (OSError name))
        (filter runtime_input (sort (map fst ?b))) = Inr (map (\<lambda>_. ()) (filter runtime_input (sort (map fst ?b))))"
      by (rule mapE_total) (use ns(2) in \<open>auto simp: ns(3)\<close>)
    then show ?thesis by (simp add: runtime_digest_def)
  qed
  moreover have "set (map fst ?b) = set ns" by (simp add: ns(3) image_image)
  ultimately show ?thesis
    unfolding snapshot_def Let_def c zbind_Inr by (auto simp: py_raise_def)
qed

text \<open>C19: The snapshot of a checkout that nobody touches succeeds exactly when no inventoried
  file lies below an excluded directory.  A tracked file under \<open>zig-out\<close>, \<open>zig-pkg\<close> or
  \<open>benchmark-reports\<close> is copied but not seen again in the copy, and the tool then reports a
  changed source although nothing changed.\<close>

theorem snapshot_of_stable_source:
  "(\<exists>r. snapshot sha src (map_of (src_files src)) src (src_files src) = Inr r) \<longleftrightarrow>
     \<not> (\<exists>n\<in>set (map fst (inventory sha src)). pruned n)"
  by (rule snapshot_stable)

definition sample_source :: source where
  "sample_source = \<lparr>src_path = ''/repo'', src_git = None, src_commit = [], src_status = [],
     src_files = [(''src/b.zig'', ''b''), (''build.zig'', ''a''), (''zig-out/x'', ''o'')]\<rparr>"

theorem snapshot_faithful_witness:
  "\<exists>copied ident. snapshot sample_sha sample_source (map_of (src_files sample_source)) sample_source
       (src_files sample_source) = Inr (copied, ident) \<and>
     map fst copied = [''build.zig'', ''src/b.zig'']"
proof -
  have i: "map fst (inventory sample_sha sample_source) = [''build.zig'', ''src/b.zig'']" by code_simp
  have "\<not> (\<exists>n\<in>set [''build.zig'', ''src/b.zig'']. pruned n)" by code_simp
  with snapshot_stable i obtain copied ident where s: "snapshot sample_sha sample_source
      (map_of (src_files sample_source)) sample_source (src_files sample_source) = Inr (copied, ident)"
    by (metis old.prod.exhaust)
  have "\<forall>n c c'. map_of (src_files sample_source) n = Some c \<and> map_of (src_files sample_source) n = Some c' \<and>
      sample_sha (bytes_of c) = sample_sha (bytes_of c') \<longrightarrow> c = c'"
    by (metis option.inject)
  from snapshot_faithful [OF s this] i s show ?thesis by auto
qed

end
