(* ===== verification/Fairness_Run.thy ===== *)
theory Fairness_Run
  imports Fairness_Sources
begin

text \<open>
  The run of \<open>src/tools/check-fairness.py\<close>: one lane (\<open>run_lane\<close>) with its external watchdog,
  the preparation of the two lanes, and \<open>main\<close> with its verdict and exit code.  What the child
  process, git, the compiler and the file system do is given by records of answers; times are
  whole clock ticks.
\<close>

subsection \<open>The watchdog of a lane\<close>

text \<open>
  How the benchmark process behaves: when and with which code it ends by itself, how long after
  a SIGTERM it ends and with which code (\<open>None\<close>: it ignores it), and when exceptions other than
  the timeout strike the waiting thread, each inside one of its \<open>wait\<close> calls and taken to be a
  \<open>KeyboardInterrupt\<close>.  SIGKILL ends the process at once.
\<close>

record lane_child =
  lc_exit :: "(nat \<times> int) option"
  lc_term :: "(nat \<times> int) option"
  lc_interrupts :: "nat list"

datatype wait_outcome = Exited int | Expired | Interrupted

datatype lane_signal = SIGTERM | SIGKILL

text \<open>When and how the process ended, given the signals its group was sent.\<close>

fun earliest :: "(nat \<times> int) option list \<Rightarrow> (nat \<times> int) option" where
  "earliest [] = None"
| "earliest (None # ds) = earliest ds"
| "earliest (Some d # ds) =
     (case earliest ds of None \<Rightarrow> Some d | Some e \<Rightarrow> if fst e < fst d then Some e else Some d)"

fun signal_effect :: "lane_child \<Rightarrow> nat \<times> lane_signal \<Rightarrow> (nat \<times> int) option" where
  "signal_effect c (t, SIGTERM) = map_option (\<lambda>(delay, code). (t + delay, code)) (lc_term c)"
| "signal_effect c (t, SIGKILL) = Some (t, - 9)"

definition ended :: "lane_child \<Rightarrow> (nat \<times> lane_signal) list \<Rightarrow> (nat \<times> int) option" where
  "ended c sigs = earliest (lc_exit c # map (signal_effect c) sigs)"

text \<open>\<open>child.wait(timeout=...)\<close> called at \<open>now\<close> with its deadline at \<open>limit\<close>, and \<open>child.wait()\<close>
  without one, which may never return.  Both also return the interrupts that are left.\<close>

definition timed_wait ::
  "lane_child \<Rightarrow> (nat \<times> lane_signal) list \<Rightarrow> nat \<Rightarrow> nat \<Rightarrow> nat list \<Rightarrow> wait_outcome \<times> nat \<times> nat list" where
  "timed_wait c sigs now limit ints =
     (let stop = (case ended c sigs of
                    Some (t, code) \<Rightarrow> if t \<le> limit then (Exited code, max now t) else (Expired, limit)
                  | None \<Rightarrow> (Expired, limit))
      in case ints of
           [] \<Rightarrow> (fst stop, snd stop, [])
         | i # rest \<Rightarrow> if i < snd stop then (Interrupted, max now i, rest) else (fst stop, snd stop, ints))"

definition final_wait ::
  "lane_child \<Rightarrow> (nat \<times> lane_signal) list \<Rightarrow> nat \<Rightarrow> nat list \<Rightarrow> (wait_outcome \<times> nat) option" where
  "final_wait c sigs now ints =
     (case (ended c sigs, ints) of
        (None, []) \<Rightarrow> None
      | (None, i # _) \<Rightarrow> Some (Interrupted, max now i)
      | (Some (t, code), []) \<Rightarrow> Some (Exited code, max now t)
      | (Some (t, code), i # _) \<Rightarrow>
          Some (if i \<le> max now t then (Interrupted, max now i) else (Exited code, max now t)))"

definition first_wait :: "lane_child \<Rightarrow> nat \<Rightarrow> wait_outcome \<times> nat" where
  "first_wait c timeout =
     (case timed_wait c [] 0 timeout (lc_interrupts c) of (outcome, t, _) \<Rightarrow> (outcome, t))"

text \<open>How the waiting ended.  \<open>None\<close> in place of the code says that an exception leaves
  \<open>run_lane\<close>: the first one raised again, or a second one from inside the handler.\<close>

record lane_wait =
  lw_code :: "int option"
  lw_timed_out :: bool
  lw_left :: nat                              \<comment> \<open>when the last \<open>wait\<close> was left\<close>
  lw_reaped :: bool                           \<comment> \<open>some \<open>wait\<close> has returned the status\<close>
  lw_signals :: "(nat \<times> lane_signal) list"    \<comment> \<open>sent to the process group, in order\<close>

definition is_exited :: "wait_outcome \<Rightarrow> bool" where
  "is_exited outcome = (case outcome of Exited _ \<Rightarrow> True | _ \<Rightarrow> False)"

text \<open>The \<open>except\<close> clause, entered at \<open>t\<close>; \<open>None\<close> says that its last \<open>wait\<close> never returns.\<close>

definition handle_wait :: "lane_child \<Rightarrow> bool \<Rightarrow> nat \<Rightarrow> nat list \<Rightarrow> lane_wait option" where
  "handle_wait c timed_out t ints =
     (let term = [(t, SIGTERM)] in
      case timed_wait c term t (t + 10) ints of (outcome, t2, ints2) \<Rightarrow>
        if outcome = Interrupted
        then Some \<lparr>lw_code = None, lw_timed_out = timed_out, lw_left = t2, lw_reaped = False,
                   lw_signals = term\<rparr>
        else let both = term @ [(t2, SIGKILL)] in
          case (if is_exited outcome then Some (outcome, t2) else final_wait c both t2 ints2) of
            None \<Rightarrow> None
          | Some (last_outcome, t3) \<Rightarrow>
              Some \<lparr>lw_code = (if timed_out \<and> is_exited last_outcome then Some 124 else None),
                    lw_timed_out = timed_out, lw_left = t3, lw_reaped = is_exited last_outcome,
                    lw_signals = both\<rparr>)"

definition lane_wait_of :: "lane_child \<Rightarrow> nat \<Rightarrow> lane_wait option" where
  "lane_wait_of c timeout =
     (case timed_wait c [] 0 timeout (lc_interrupts c) of
        (Exited code, t, _) \<Rightarrow> Some \<lparr>lw_code = Some code, lw_timed_out = False, lw_left = t,
           lw_reaped = True, lw_signals = []\<rparr>
      | (outcome, t, ints) \<Rightarrow> handle_wait c (outcome = Expired) t ints)"

subsection \<open>One lane\<close>

text \<open>What the lane's directory and outputs hold when the child is gone.\<close>

record lane_world =
  wo_files :: file_map
  wo_report :: "string option"                  \<comment> \<open>the JSON report, if it was written\<close>
  wo_log :: string
  wo_binaries :: "(string \<times> string) list"       \<comment> \<open>path and content of the matching binaries\<close>

record execution =
  ex_returncode :: int
  ex_timed_out :: bool
  ex_watchdog :: nat
  ex_elapsed :: nat
  ex_source_unchanged :: bool
  ex_runtime :: string
  ex_log :: "string \<times> string"                   \<comment> \<open>name and digest\<close>
  ex_report :: "(string \<times> string) option"
  ex_binary :: "(string \<times> string) option"       \<comment> \<open>\<open>None\<close>: \<open>binary_error\<close>\<close>

text \<open>\<open>all(sha(source / path) == digest for path, digest in frozen.items())\<close>\<close>

fun frozen_unchanged ::
  "(byte list \<Rightarrow> string) \<Rightarrow> file_map \<Rightarrow> (string \<times> string) list \<Rightarrow> py_error + bool" where
  "frozen_unchanged sha files [] = Inr True"
| "frozen_unchanged sha files ((path, digest) # es) =
     (case map_of files path of None \<Rightarrow> Inl (OSError path)
      | Some c \<Rightarrow> if sha (bytes_of c) = digest then frozen_unchanged sha files es else Inr False)"

definition run_lane ::
  "(byte list \<Rightarrow> string) \<Rightarrow> string \<Rightarrow> string \<Rightarrow> (string \<times> string) list \<Rightarrow> lane_child \<Rightarrow> nat \<Rightarrow> lane_world \<Rightarrow>
   py_error + execution" where
  "run_lane sha output name frozen child timeout w =
     (case lane_wait_of child timeout of None \<Rightarrow> Inl Blocked_Forever
      | Some wait \<Rightarrow> (case lw_code wait of None \<Rightarrow> Inl KeyboardInterrupt
      | Some code \<Rightarrow>
        let log = name @ ''.log'' in
        zbind (frozen_unchanged sha (wo_files w) frozen) (\<lambda>unchanged.
        zbind (runtime_digest sha (wo_files w) frozen) (\<lambda>digest.
        let ex = \<lparr>ex_returncode = code, ex_timed_out = lw_timed_out wait, ex_watchdog = timeout,
              ex_elapsed = lw_left wait, ex_source_unchanged = unchanged, ex_runtime = digest,
              ex_log = (log, sha (bytes_of (wo_log w))),
              ex_report = map_option (\<lambda>r. (name @ ''-bench.json'', sha (bytes_of r))) (wo_report w),
              ex_binary = (case wo_binaries w of
                 [(path, c)] \<Rightarrow> if code = 0 then Some (path, sha (bytes_of c)) else None
               | _ \<Rightarrow> None)\<rparr>
        in if ex_returncode ex \<noteq> 0 \<or> \<not> ex_source_unchanged ex \<or> ex_binary ex = None
           then Inl (ValueError (name @ '' execution failed; see '' @ output @ [slash] @ log))
           else Inr ex))))"

subsection \<open>Preparing the lanes\<close>

fun copy_files :: "string list \<Rightarrow> file_map \<Rightarrow> file_map \<Rightarrow> py_error + file_map" where
  "copy_files [] src dst = Inr dst"
| "copy_files (n # ns) src dst =
     (case map_of src n of None \<Rightarrow> Inl (OSError n)
      | Some c \<Rightarrow> copy_files ns src (AList.update n c dst))"

definition append_grid_file :: "file_map \<Rightarrow> py_error + file_map" where
  "append_grid_file files =
     (case map_of files ''bench/e2e_main.zig'' of None \<Rightarrow> Inl (OSError ''bench/e2e_main.zig'')
      | Some doc \<Rightarrow> zbind (append_grid doc) (\<lambda>doc'. Inr (AList.update ''bench/e2e_main.zig'' doc' files)))"

definition common_digests :: "(byte list \<Rightarrow> string) \<Rightarrow> file_map \<Rightarrow> py_error + (string \<times> string) list" where
  "common_digests sha files =
     mapE (\<lambda>n. case map_of files n of None \<Rightarrow> Inl (OSError n) | Some c \<Rightarrow> Inr (n, sha (bytes_of c))) common_files"

definition prepare_lanes ::
  "(byte list \<Rightarrow> string) \<Rightarrow> file_map \<Rightarrow> file_map \<Rightarrow> py_error + (file_map \<times> file_map)" where
  "prepare_lanes sha baseline candidate =
     zbind (copy_files common_files candidate baseline) (\<lambda>baseline.
     zbind (append_grid_file baseline) (\<lambda>baseline.
     zbind (append_grid_file candidate) (\<lambda>candidate.
     zbind (common_digests sha baseline) (\<lambda>db.
     zbind (common_digests sha candidate) (\<lambda>dc.
     zbind (py_raise (db \<noteq> dc) ''benchmark inputs differ between lanes'') (\<lambda>_.
     Inr (baseline, candidate)))))))"

subsection \<open>The main function\<close>

definition baseline_commit :: string where
  "baseline_commit = ''b51749a52fac0f54068f112f16e1148bb018382d''"

definition fairness_arguments_ok :: "int \<Rightarrow> int \<Rightarrow> bool" where
  "fairness_arguments_ok jobs timeout \<longleftrightarrow> jobs \<in> {1, 2} \<and> 1 \<le> timeout \<and> timeout \<le> 3600"

text \<open>The answers of the outside world to one run; \<open>fe_loads\<close> is \<open>json.loads\<close>.\<close>

record fairness_env =
  fe_rev_parse :: "py_error + string"
  fe_zig :: "string option"
  fe_zig_version :: "py_error + string"
  fe_source :: source
  fe_read :: "string \<Rightarrow> string option"
  fe_source_after :: source
  fe_later :: file_map
  fe_archive :: "py_error + file_map"
  fe_child :: "string \<Rightarrow> lane_child"
  fe_world :: "string \<Rightarrow> lane_world"
  fe_loads :: "string \<Rightarrow> py_error + json"

definition lane_inventory :: "(byte list \<Rightarrow> string) \<Rightarrow> file_map \<Rightarrow> (string \<times> string) list" where
  "lane_inventory sha files = inventory sha (copied_source files)"

definition read_report :: "fairness_env \<Rightarrow> string \<Rightarrow> py_error + json" where
  "read_report e name =
     (case wo_report (fe_world e name) of None \<Rightarrow> Inl (OSError (name @ ''-bench.json''))
      | Some r \<Rightarrow> fe_loads e r)"

text \<open>The body of the \<open>try\<close> block up to the two lanes, which run concurrently: their results
  are awaited in this order.\<close>

definition fairness_lanes ::
  "(byte list \<Rightarrow> string) \<Rightarrow> string \<Rightarrow> nat \<Rightarrow> fairness_env \<Rightarrow> py_error + (execution \<times> execution)" where
  "fairness_lanes sha output timeout e =
     zbind (fe_rev_parse e) (\<lambda>commit.
     zbind (py_raise (commit \<noteq> baseline_commit) ''baseline ref must resolve to the held Sprint 4 baseline; recorded thresholds are not silently rebased'') (\<lambda>_.
     zbind (py_raise (fe_zig e = None \<or> fe_zig e = Some []) ''zig unavailable; run this tool through mise exec'') (\<lambda>_.
     zbind (fe_zig_version e) (\<lambda>version.
     zbind (py_raise (version \<noteq> ''0.17.0'') ''requires pinned Zig 0.17.0'') (\<lambda>_.
     zbind (snapshot sha (fe_source e) (fe_read e) (fe_source_after e) (fe_later e)) (\<lambda>(copied, _).
     zbind (fe_archive e) (\<lambda>archive.
     zbind (prepare_lanes sha archive copied) (\<lambda>(baseline, candidate).
     zbind (run_lane sha output ''baseline'' (lane_inventory sha baseline) (fe_child e ''baseline'') timeout
              (fe_world e ''baseline'')) (\<lambda>xb.
     zbind (run_lane sha output ''candidate'' (lane_inventory sha candidate) (fe_child e ''candidate'') timeout
              (fe_world e ''candidate'')) (\<lambda>xc.
     Inr (xb, xc)))))))))))"

definition fairness_compare :: "fairness_env \<Rightarrow> py_error + comparison" where
  "fairness_compare e =
     zbind (read_report e ''baseline'') (\<lambda>rb.
     zbind (read_report e ''candidate'') (\<lambda>rc.
     compare_reports rb rc))"

record fairness_report =
  ff_executions :: "(execution \<times> execution) option"
  ff_comparison :: "comparison option"
  ff_passed :: bool
  ff_error :: "py_error option"

datatype fairness_end =
    UsageError
  | Hangs
  | Uncaught py_error "fairness_report option"    \<comment> \<open>with the report the \<open>finally\<close> block wrote\<close>
  | ExitCode int fairness_report

text \<open>The \<open>except Exception\<close> and \<open>finally\<close> clauses: a \<open>KeyboardInterrupt\<close> is the one error here
  that is no \<open>Exception\<close>.  A call that does not return raises nothing.\<close>

definition fairness_failed :: "(execution \<times> execution) option \<Rightarrow> py_error \<Rightarrow> fairness_end" where
  "fairness_failed executions err =
     (if err = Blocked_Forever then Hangs
      else if err = KeyboardInterrupt
      then Uncaught err (Some \<lparr>ff_executions = executions, ff_comparison = None, ff_passed = False,
                              ff_error = None\<rparr>)
      else ExitCode 1 \<lparr>ff_executions = executions, ff_comparison = None, ff_passed = False,
                       ff_error = Some err\<rparr>)"

text \<open>\<open>source\<close> is \<open>args.source.resolve(strict=True)\<close> and \<open>fresh\<close> says that the output directory did
  not exist.\<close>

definition fairness_main ::
  "(byte list \<Rightarrow> string) \<Rightarrow> int \<Rightarrow> int \<Rightarrow> py_error + unit \<Rightarrow> bool \<Rightarrow> string \<Rightarrow> fairness_env \<Rightarrow> fairness_end" where
  "fairness_main sha jobs timeout source fresh output e =
     (if \<not> fairness_arguments_ok jobs timeout then UsageError
      else case source of Inl err \<Rightarrow> Uncaught err None
      | Inr _ \<Rightarrow>
        if \<not> fresh then Uncaught (OSError output) None
        else case fairness_lanes sha output (nat timeout) e of
          Inl err \<Rightarrow> fairness_failed None err
        | Inr executions \<Rightarrow> (case fairness_compare e of
            Inl err \<Rightarrow> fairness_failed (Some executions) err
          | Inr cmp \<Rightarrow>
              ExitCode (if passed_fairness_controls cmp then 0 else 1)
                \<lparr>ff_executions = Some executions, ff_comparison = Some cmp,
                 ff_passed = passed_fairness_controls cmp, ff_error = None\<rparr>))"

subsection \<open>Lemmas\<close>

lemma timed_wait_spec:
  assumes "timed_wait c sigs now limit ints = (outcome, t, rest)" "now \<le> limit"
  shows "now \<le> t" "t \<le> limit" "outcome = Expired \<Longrightarrow> t = limit"
    "outcome = Exited code \<Longrightarrow> \<exists>d. ended c sigs = Some (d, code) \<and> t = max now d"
    "outcome = Interrupted \<Longrightarrow> \<exists>i. ints = i # rest" "outcome \<noteq> Interrupted \<Longrightarrow> rest = ints"
  using assms by (auto simp: timed_wait_def Let_def split: option.splits list.splits if_splits prod.splits)

lemma ended_unsignalled: "ended c [] = lc_exit c"
  by (cases "lc_exit c") (simp_all add: ended_def)

lemma earliest_le: "Some (k, code) \<in> set ds \<Longrightarrow> \<exists>d code'. earliest ds = Some (d, code') \<and> d \<le> k"
  by (induction ds rule: earliest.induct) (force split: option.split)+

lemma ended_killed: "(k, SIGKILL) \<in> set sigs \<Longrightarrow> \<exists>d code. ended c sigs = Some (d, code) \<and> d \<le> k"
  unfolding ended_def by (rule earliest_le [of _ "- 9"]) force

lemma first_wait_eq: "timed_wait c [] 0 timeout (lc_interrupts c) = (outcome, t, rest) \<Longrightarrow>
    first_wait c timeout = (outcome, t)"
  by (simp add: first_wait_def)

lemma first_wait_Exited:
  "first_wait c timeout = (Exited code, t) \<Longrightarrow> lc_exit c = Some (t, code) \<and> t \<le> timeout"
  by (auto simp: first_wait_def ended_unsignalled dest: timed_wait_spec(2,4) split: prod.splits)

text \<open>The handler returns; it leaves a reaped child unless an interrupt was left to strike it.\<close>

lemma handle_wait_spec:
  "\<exists>w. handle_wait c timed_out t ints = Some w \<and> lw_timed_out w = timed_out \<and>
     t \<le> lw_left w \<and> lw_left w \<le> t + 10 \<and>
     (lw_code w \<noteq> None \<longrightarrow> timed_out \<and> lw_code w = Some 124 \<and> lw_reaped w) \<and>
     (timed_out \<and> lw_reaped w \<longrightarrow> lw_code w = Some 124) \<and>
     (ints = [] \<longrightarrow> lw_reaped w) \<and>
     (lw_signals w = [(t, SIGTERM), (lw_left w, SIGKILL)] \<or>
      lw_signals w = [(t, SIGTERM)] \<and> \<not> lw_reaped w) \<and>
     (lw_reaped w \<longrightarrow> (lw_left w < t + 10 \<longrightarrow>
        (\<exists>d code. ended c [(t, SIGTERM)] = Some (d, code) \<and> d \<le> lw_left w)) \<and>
        (\<exists>d code. ended c (lw_signals w) = Some (d, code) \<and> d \<le> lw_left w))"
proof -
  obtain outcome t2 ints2 where tw: "timed_wait c [(t, SIGTERM)] t (t + 10) ints = (outcome, t2, ints2)"
    by (cases "timed_wait c [(t, SIGTERM)] t (t + 10) ints") auto
  note s = timed_wait_spec [OF tw le_add1]
  let ?both = "[(t, SIGTERM), (t2, SIGKILL)]"
  obtain d code where k: "ended c ?both = Some (d, code)" "d \<le> t2"
    using ended_killed [of t2 ?both c] by auto
  show ?thesis
  proof (cases outcome)
    case (Exited code')
    with s(4) [of code'] obtain d' where d': "ended c [(t, SIGTERM)] = Some (d', code')" "t2 = max t d'" by auto
    with Exited s k show ?thesis by (auto simp: handle_wait_def tw Let_def is_exited_def)
  next
    case Expired
    with s(3) have t2: "t2 = t + 10" by simp
    show ?thesis
    proof (cases ints)
      case Nil
      with Expired s(6) k t2 tw show ?thesis
        by (auto simp: handle_wait_def Let_def is_exited_def final_wait_def max_def)
    next
      case (Cons i rest)
      with Expired s(6) have "ints2 = i # rest" by simp
      with Expired Cons k t2 tw show ?thesis
        by (auto simp: handle_wait_def Let_def is_exited_def final_wait_def max_def)
    qed
  next
    case Interrupted
    with s(1,2,5) show ?thesis by (auto simp: handle_wait_def tw Let_def)
  qed
qed

lemma lane_wait_handled:
  assumes "timed_wait c [] 0 timeout (lc_interrupts c) = (outcome, t, ints)" "\<not> is_exited outcome"
  shows "lane_wait_of c timeout = handle_wait c (outcome = Expired) t ints"
  using assms by (cases outcome) (simp_all add: lane_wait_of_def is_exited_def)

text \<open>A code other than 124 is the process's own.\<close>

lemma lane_wait_code:
  assumes "lane_wait_of c timeout = Some w" "lw_code w = Some code" "code \<noteq> 124"
  shows "first_wait c timeout = (Exited code, lw_left w) \<and> \<not> lw_timed_out w"
proof -
  obtain outcome t ints where tw: "timed_wait c [] 0 timeout (lc_interrupts c) = (outcome, t, ints)"
    by (cases "timed_wait c [] 0 timeout (lc_interrupts c)") auto
  show ?thesis
  proof (cases "is_exited outcome")
    case True
    with assms tw show ?thesis
      by (cases outcome) (auto simp: lane_wait_of_def first_wait_def is_exited_def)
  next
    case False
    with assms lane_wait_handled [OF tw] handle_wait_spec [of c "outcome = Expired" t ints] show ?thesis by auto
  qed
qed

lemma lane_wait_exited:
  "first_wait c timeout = (Exited code, t) \<Longrightarrow> lane_wait_of c timeout =
     Some \<lparr>lw_code = Some code, lw_timed_out = False, lw_left = t, lw_reaped = True, lw_signals = []\<rparr>"
  by (auto simp: lane_wait_of_def first_wait_def split: prod.splits)

lemma frozen_unchanged_True:
  "frozen_unchanged sha files es = Inr True \<longleftrightarrow>
     (\<forall>(p, h)\<in>set es. \<exists>c. map_of files p = Some c \<and> sha (bytes_of c) = h)"
  by (induction sha files es rule: frozen_unchanged.induct) (auto split: option.split)

lemma run_lane_Inr:
  assumes "run_lane sha output name frozen child timeout w = Inr ex"
  shows "(\<exists>t\<le>timeout. lc_exit child = Some (t, 0) \<and> ex_elapsed ex = t) \<and> ex_returncode ex = 0 \<and>
    \<not> ex_timed_out ex \<and> frozen_unchanged sha (wo_files w) frozen = Inr True \<and>
    (\<exists>b. wo_binaries w = [b] \<and> ex_binary ex = Some (fst b, sha (bytes_of (snd b))))"
proof -
  from assms obtain wt where w: "lane_wait_of child timeout = Some wt" "lw_code wt = Some 0"
    and a: "ex_returncode ex = 0" "ex_timed_out ex = lw_timed_out wt" "ex_elapsed ex = lw_left wt"
    "frozen_unchanged sha (wo_files w) frozen = Inr True"
    "\<exists>b. wo_binaries w = [b] \<and> ex_binary ex = Some (fst b, sha (bytes_of (snd b)))"
    by (auto simp: run_lane_def Let_def zbind_eq_Inr split: if_splits list.splits option.splits)
  have "first_wait child timeout = (Exited 0, lw_left wt) \<and> \<not> lw_timed_out wt"
    by (rule lane_wait_code [OF w]) simp
  with first_wait_Exited [of child timeout 0 "lw_left wt"] a show ?thesis by auto
qed

subsection \<open>Properties\<close>

text \<open>C6: A lane cannot hang.  Whatever the process does, also when it ignores SIGTERM, and whatever
  interrupts the waiting thread, the last wait is left at most ten ticks after the timeout.
  A process that ends in time is not signalled and its own code is kept.  Otherwise its group
  gets SIGTERM when the first wait is left and then SIGKILL, before the ten ticks of grace are
  over only if the process has ended (the source then signals the group of a reaped process);
  a timeout reports code 124.  The process has ended and is reaped whenever a code is
  reported, and also when an exception is raised again, unless a further one struck the
  handler itself.\<close>

theorem lane_watchdog:
  "\<exists>w. lane_wait_of c timeout = Some w \<and> lw_left w \<le> timeout + 10 \<and>
     (lw_reaped w \<longrightarrow> (\<exists>d code. ended c (lw_signals w) = Some (d, code) \<and> d \<le> lw_left w)) \<and>
     (lw_code w \<noteq> None \<longrightarrow> lw_reaped w) \<and>
     (length (lc_interrupts c) \<le> (if fst (first_wait c timeout) = Interrupted then 1 else 0) \<longrightarrow> lw_reaped w) \<and>
     (case first_wait c timeout of
        (Exited code, t) \<Rightarrow> lc_exit c = Some (t, code) \<and> t \<le> timeout \<and> lw_left w = t \<and>
          lw_code w = Some code \<and> \<not> lw_timed_out w \<and> lw_signals w = []
      | (outcome, t) \<Rightarrow> lw_timed_out w = (outcome = Expired) \<and> (outcome = Expired \<longrightarrow> t = timeout) \<and>
          (lw_reaped w \<longrightarrow> lw_code w = (if outcome = Expired then Some 124 else None) \<and>
             lw_signals w = [(t, SIGTERM), (lw_left w, SIGKILL)] \<and> lw_left w \<le> t + 10 \<and>
             (lw_left w < t + 10 \<longrightarrow> (\<exists>d code. ended c [(t, SIGTERM)] = Some (d, code) \<and> d \<le> lw_left w))))"
proof -
  obtain outcome t ints where tw: "timed_wait c [] 0 timeout (lc_interrupts c) = (outcome, t, ints)"
    by (cases "timed_wait c [] 0 timeout (lc_interrupts c)") auto
  note first = first_wait_eq [OF tw] and s = timed_wait_spec [OF tw le0]
  show ?thesis
  proof (cases "is_exited outcome")
    case True
    then obtain code where "first_wait c timeout = (Exited code, t)"
      using first by (cases outcome) (auto simp: is_exited_def)
    with first_wait_Exited [OF this] lane_wait_exited [OF this] show ?thesis by (simp add: ended_unsignalled)
  next
    case False
    obtain w where w: "lane_wait_of c timeout = Some w" "handle_wait c (outcome = Expired) t ints = Some w"
      using lane_wait_handled [OF tw False] handle_wait_spec [of c "outcome = Expired" t ints] by auto
    have h: "length (lc_interrupts c) \<le> (if outcome = Interrupted then 1 else 0) \<Longrightarrow> ints = []"
      using s(5,6) by (cases outcome) auto
    have hs: "lw_timed_out w = (outcome = Expired)" "lw_left w \<le> t + 10"
      "lw_code w \<noteq> None \<Longrightarrow> outcome = Expired \<and> lw_code w = Some 124 \<and> lw_reaped w"
      "outcome = Expired \<and> lw_reaped w \<longrightarrow> lw_code w = Some 124" "ints = [] \<Longrightarrow> lw_reaped w"
      "lw_reaped w \<Longrightarrow> lw_signals w = [(t, SIGTERM), (lw_left w, SIGKILL)]"
      "lw_reaped w \<Longrightarrow> lw_left w < t + 10 \<longrightarrow> (\<exists>d code. ended c [(t, SIGTERM)] = Some (d, code) \<and> d \<le> lw_left w)"
      "lw_reaped w \<Longrightarrow> \<exists>d code. ended c (lw_signals w) = Some (d, code) \<and> d \<le> lw_left w"
      using handle_wait_spec [of c "outcome = Expired" t ints] unfolding w(2) option.inject by blast+
    have "lw_code w = (if outcome = Expired then Some 124 else None)" if "lw_reaped w"
      using hs(3,4) that by (cases "lw_code w") auto
    note tail = this hs(6,7)
    have late: "lw_left w \<le> timeout + 10" using hs(2) s(2) by simp
    have A: "length (lc_interrupts c) \<le> (if fst (first_wait c timeout) = Interrupted then 1 else 0) \<longrightarrow> lw_reaped w"
      using h hs(5) unfolding first fst_conv by blast
    have B: "case first_wait c timeout of
        (Exited code, t) \<Rightarrow> lc_exit c = Some (t, code) \<and> t \<le> timeout \<and> lw_left w = t \<and>
          lw_code w = Some code \<and> \<not> lw_timed_out w \<and> lw_signals w = []
      | (outcome, t) \<Rightarrow> lw_timed_out w = (outcome = Expired) \<and> (outcome = Expired \<longrightarrow> t = timeout) \<and>
          (lw_reaped w \<longrightarrow> lw_code w = (if outcome = Expired then Some 124 else None) \<and>
             lw_signals w = [(t, SIGTERM), (lw_left w, SIGKILL)] \<and> lw_left w \<le> t + 10 \<and>
             (lw_left w < t + 10 \<longrightarrow> (\<exists>d code. ended c [(t, SIGTERM)] = Some (d, code) \<and> d \<le> lw_left w)))"
      using False tail hs(1,2) s(3) unfolding first
      by (cases outcome) (simp_all add: is_exited_def)
    show ?thesis
      by (rule exI [of _ w], intro conjI w(1) late A B) (use hs(3,8) in blast)+
  qed
qed

definition stubborn_child :: lane_child where
  "stubborn_child = \<lparr>lc_exit = None, lc_term = None, lc_interrupts = []\<rparr>"

theorem lane_watchdog_witness:
  "\<exists>w. lane_wait_of stubborn_child 600 = Some w \<and> lw_reaped w \<and> lw_code w = Some 124 \<and> lw_left w = 610 \<and>
     lw_signals w = [(600, SIGTERM), (610, SIGKILL)]"
proof -
  have f: "first_wait stubborn_child 600 = (Expired, 600)" "lc_interrupts stubborn_child = []"
    by (simp_all add: stubborn_child_def first_wait_def timed_wait_def ended_def)
  have e: "ended stubborn_child [(600, SIGTERM)] = None" by (simp add: stubborn_child_def ended_def)
  obtain w where w: "lane_wait_of stubborn_child 600 = Some w" "lw_reaped w" "lw_left w \<le> 610"
    "lw_code w = Some 124" "lw_signals w = [(600, SIGTERM), (lw_left w, SIGKILL)]" "\<not> lw_left w < 610"
    using lane_watchdog [of stubborn_child 600] unfolding f fst_conv prod.case wait_outcome.case e by auto
  then have "lw_left w = 610" by simp
  with w show ?thesis by auto
qed

text \<open>C11: \<open>run_lane\<close> accepts a lane exactly when the benchmark ended by itself with code 0 within
  the timeout, every file of the frozen inventory still has its recorded digest, the build
  inputs could be read again, and there is exactly one benchmark binary, whose digest is
  then recorded.\<close>

theorem run_lane_accepts:
  "(\<exists>ex. run_lane sha output name frozen child timeout w = Inr ex) \<longleftrightarrow>
     (\<exists>t b d. first_wait child timeout = (Exited 0, t) \<and> wo_binaries w = [b] \<and>
       frozen_unchanged sha (wo_files w) frozen = Inr True \<and>
       runtime_digest sha (wo_files w) frozen = Inr d)"
proof
  assume "\<exists>ex. run_lane sha output name frozen child timeout w = Inr ex"
  then obtain ex where ex: "run_lane sha output name frozen child timeout w = Inr ex" by blast
  note r = run_lane_Inr [OF ex]
  have "\<exists>d. runtime_digest sha (wo_files w) frozen = Inr d"
    using ex by (auto simp: run_lane_def Let_def zbind_eq_Inr split: if_splits option.splits)
  moreover have "\<exists>t. first_wait child timeout = (Exited 0, t)"
  proof -
    obtain wt where w: "lane_wait_of child timeout = Some wt" "lw_code wt = Some 0"
      using ex by (auto simp: run_lane_def Let_def zbind_eq_Inr split: if_splits option.splits)
    show ?thesis using lane_wait_code [OF w] by auto
  qed
  ultimately show "\<exists>t b d. first_wait child timeout = (Exited 0, t) \<and> wo_binaries w = [b] \<and>
       frozen_unchanged sha (wo_files w) frozen = Inr True \<and> runtime_digest sha (wo_files w) frozen = Inr d"
    using r by blast
next
  assume "\<exists>t b d. first_wait child timeout = (Exited 0, t) \<and> wo_binaries w = [b] \<and>
       frozen_unchanged sha (wo_files w) frozen = Inr True \<and> runtime_digest sha (wo_files w) frozen = Inr d"
  then obtain t b d where h: "first_wait child timeout = (Exited 0, t)" "wo_binaries w = [b]"
    "frozen_unchanged sha (wo_files w) frozen = Inr True" "runtime_digest sha (wo_files w) frozen = Inr d" by blast
  then show "\<exists>ex. run_lane sha output name frozen child timeout w = Inr ex"
    by (cases b) (simp add: run_lane_def lane_wait_exited Let_def)
qed

lemma copy_files_Inr:
  "copy_files ns src dst = Inr out \<Longrightarrow>
     map_of out = (\<lambda>n. if n \<in> set ns then map_of src n else map_of dst n) \<and> (\<forall>n\<in>set ns. map_of src n \<noteq> None)"
proof (induction ns src dst rule: copy_files.induct)
  case (2 n ns src dst)
  then show ?case by (auto simp: update_conv fun_eq_iff split: option.splits)
qed simp

lemma append_grid_file_Inr:
  "append_grid_file files = Inr out \<Longrightarrow> \<exists>doc doc'. map_of files ''bench/e2e_main.zig'' = Some doc \<and>
     append_grid doc = Inr doc' \<and> map_of out = (map_of files)(''bench/e2e_main.zig'' \<mapsto> doc')"
  by (auto simp: append_grid_file_def zbind_eq_Inr update_conv' split: option.splits)

text \<open>C10: The comparison is like for like.  After \<open>prepare_lanes\<close> both lanes hold the same four
  harness files, the candidate's, with the same extended cell table; apart from those four
  every file of the baseline archive and of the candidate copy is untouched, so the lanes
  differ only in what they are meant to compare.\<close>

theorem lanes_share_harness:
  assumes "prepare_lanes sha baseline candidate = Inr (b, c)"
  shows "\<exists>doc doc'. map_of candidate ''bench/e2e_main.zig'' = Some doc \<and> append_grid doc = Inr doc' \<and>
      map_of b ''bench/e2e_main.zig'' = Some doc' \<and> map_of c ''bench/e2e_main.zig'' = Some doc' \<and>
      (\<forall>n. if n \<in> set common_files then map_of b n = map_of c n \<and> map_of c n \<noteq> None
           else map_of b n = map_of baseline n \<and> map_of c n = map_of candidate n)"
proof -
  obtain b0 where s: "copy_files common_files candidate baseline = Inr b0"
    "append_grid_file b0 = Inr b" "append_grid_file candidate = Inr c"
    using assms by (auto simp: prepare_lanes_def zbind_eq_Inr)
  note cp = copy_files_Inr [OF s(1)]
  have main: "''bench/e2e_main.zig'' \<in> set common_files" by (simp add: common_files_def)
  obtain doc doc' where d: "map_of candidate ''bench/e2e_main.zig'' = Some doc" "append_grid doc = Inr doc'"
    "map_of c = (map_of candidate)(''bench/e2e_main.zig'' \<mapsto> doc')"
    using append_grid_file_Inr [OF s(3)] by blast
  have b0: "map_of b0 ''bench/e2e_main.zig'' = Some doc" using cp main d(1) by simp
  then have b: "map_of b = (map_of b0)(''bench/e2e_main.zig'' \<mapsto> doc')"
    using append_grid_file_Inr [OF s(2)] d(2) by auto
  show ?thesis
    by (intro exI [of _ doc] exI [of _ doc']) (use d b cp main in \<open>auto simp: b\<close>)
qed

definition sample_lane :: "string \<Rightarrow> file_map" where
  "sample_lane extra = [(''bench/e2e/fairness.zig'', ''f''), (''bench/e2e/harness.zig'', ''h''),
     (''bench/e2e/sim_net.zig'', ''n''), (''bench/e2e_main.zig'', sample_cells), (''src/root.zig'', extra)]"

lemma sample_prepared:
  "\<exists>b c. prepare_lanes sample_sha (sample_lane ''old'') (sample_lane ''new'') = Inr (b, c)"
proof -
  obtain t where t: "append_grid sample_cells = Inr t" using sample_cells_appended by blast
  have "copy_files common_files (sample_lane ''new'') (sample_lane ''old'') = Inr (sample_lane ''old'')"
    by (simp add: sample_lane_def common_files_def)
  then show ?thesis
    by (simp add: prepare_lanes_def append_grid_file_def sample_lane_def t common_digests_def common_files_def)
qed

theorem lanes_share_harness_witness:
  "\<exists>b c. prepare_lanes sample_sha (sample_lane ''old'') (sample_lane ''new'') = Inr (b, c) \<and>
     map_of b ''src/root.zig'' = Some ''old'' \<and> map_of c ''src/root.zig'' = Some ''new''"
proof -
  obtain b c where p: "prepare_lanes sample_sha (sample_lane ''old'') (sample_lane ''new'') = Inr (b, c)"
    using sample_prepared by blast
  have "''src/root.zig'' \<notin> set common_files" by (simp add: common_files_def)
  with lanes_share_harness [OF p]
  have "map_of b ''src/root.zig'' = map_of (sample_lane ''old'') ''src/root.zig''"
    "map_of c ''src/root.zig'' = map_of (sample_lane ''new'') ''src/root.zig''" by metis+
  with p show ?thesis by (simp add: sample_lane_def)
qed

text \<open>C1: Exit code 0 means a complete qualification.  The arguments were in range, the baseline
  reference resolved to the held commit, the compiler is the pinned one, both lanes were
  prepared from the archive and a faithful snapshot, ended by themselves with code 0 in time,
  and after their runs still held every file of their frozen inventories with its recorded
  digest; both reports passed validation, and every one of the six controls holds.  In every
  other case the exit code is not 0 and the report does not say passed.\<close>

theorem fairness_exit_zero:
  assumes "fairness_main sha jobs timeout source fresh output e = ExitCode code r"
  shows "(ff_passed r \<longleftrightarrow> code = 0) \<and> code \<in> {0, 1} \<and>
    (code = 0 \<longrightarrow>
       fairness_arguments_ok jobs timeout \<and> fe_rev_parse e = Inr baseline_commit \<and>
       fe_zig_version e = Inr ''0.17.0'' \<and>
       (\<forall>lane\<in>{''baseline'', ''candidate''}. \<exists>t b. t \<le> nat timeout \<and>
          lc_exit (fe_child e lane) = Some (t, 0) \<and> wo_binaries (fe_world e lane) = [b]) \<and>
       (\<exists>copied ident archive b c.
          snapshot sha (fe_source e) (fe_read e) (fe_source_after e) (fe_later e) = Inr (copied, ident) \<and>
          fe_archive e = Inr archive \<and> prepare_lanes sha archive copied = Inr (b, c) \<and>
          (\<forall>(lane, files)\<in>{(''baseline'', b), (''candidate'', c)}. \<forall>(path, digest)\<in>set (lane_inventory sha files).
             \<exists>content. map_of (wo_files (fe_world e lane)) path = Some content \<and> sha (bytes_of content) = digest)) \<and>
       (\<exists>rb rc B C cmp. read_report e ''baseline'' = Inr rb \<and> read_report e ''candidate'' = Inr rc \<and>
          rows rb = Inr B \<and> rows rc = Inr C \<and> ff_comparison r = Some cmp \<and>
          compare_reports rb rc = Inr cmp \<and> all_controls (cmp_controls cmp)))"
proof -
  have args: "fairness_arguments_ok jobs timeout" using assms by (auto simp: fairness_main_def split: if_splits)
  show ?thesis
  proof (cases "fairness_lanes sha output (nat timeout) e")
    case (Inl err)
    with assms args show ?thesis
      by (auto simp: fairness_main_def fairness_failed_def split: sum.splits if_splits)
  next
    case lanes: (Inr xs)
    show ?thesis
    proof (cases "fairness_compare e")
      case (Inl err)
      with assms args lanes show ?thesis
        by (auto simp: fairness_main_def fairness_failed_def split: sum.splits if_splits)
    next
      case (Inr cmp)
      with assms args lanes have r: "code = (if passed_fairness_controls cmp then 0 else 1)"
        "ff_comparison r = Some cmp" "ff_passed r = passed_fairness_controls cmp"
        by (auto simp: fairness_main_def split: sum.splits if_splits)
      obtain rb rc B C where c: "read_report e ''baseline'' = Inr rb" "read_report e ''candidate'' = Inr rc"
        "rows rb = Inr B" "rows rc = Inr C" "compare_reports rb rc = Inr cmp" "compare_rows B C = Inr cmp"
        using Inr by (auto simp: fairness_compare_def compare_reports_def zbind_eq_Inr)
      have p: "passed_fairness_controls cmp = all_controls (cmp_controls cmp)"
        using compare_rows_parts [OF c(6)] by metis
      obtain x y copied ident archive b d where l: "fe_rev_parse e = Inr baseline_commit" "fe_zig_version e = Inr ''0.17.0''"
        "run_lane sha output ''baseline'' (lane_inventory sha b) (fe_child e ''baseline'') (nat timeout)
           (fe_world e ''baseline'') = Inr x"
        "run_lane sha output ''candidate'' (lane_inventory sha d) (fe_child e ''candidate'') (nat timeout)
           (fe_world e ''candidate'') = Inr y"
        and prep: "snapshot sha (fe_source e) (fe_read e) (fe_source_after e) (fe_later e) = Inr (copied, ident)"
        "fe_archive e = Inr archive" "prepare_lanes sha archive copied = Inr (b, d)"
        using lanes by (auto simp: fairness_lanes_def zbind_eq_Inr)
      note rb = run_lane_Inr [OF l(3)] and rc = run_lane_Inr [OF l(4)]
      have "\<forall>(lane, files)\<in>{(''baseline'', b), (''candidate'', d)}. \<forall>(path, digest)\<in>set (lane_inventory sha files).
          \<exists>content. map_of (wo_files (fe_world e lane)) path = Some content \<and> sha (bytes_of content) = digest"
        using rb rc by (simp add: frozen_unchanged_True)
      with prep have kept: "\<exists>copied ident archive b c.
          snapshot sha (fe_source e) (fe_read e) (fe_source_after e) (fe_later e) = Inr (copied, ident) \<and>
          fe_archive e = Inr archive \<and> prepare_lanes sha archive copied = Inr (b, c) \<and>
          (\<forall>(lane, files)\<in>{(''baseline'', b), (''candidate'', c)}. \<forall>(path, digest)\<in>set (lane_inventory sha files).
             \<exists>content. map_of (wo_files (fe_world e lane)) path = Some content \<and> sha (bytes_of content) = digest)"
        by blast
      have ended: "\<forall>lane\<in>{''baseline'', ''candidate''}. \<exists>t b. t \<le> nat timeout \<and>
          lc_exit (fe_child e lane) = Some (t, 0) \<and> wo_binaries (fe_world e lane) = [b]"
        using rb rc by auto
      have "passed_fairness_controls cmp \<longrightarrow> (\<exists>rb rc B C cmp. read_report e ''baseline'' = Inr rb \<and>
          read_report e ''candidate'' = Inr rc \<and> rows rb = Inr B \<and> rows rc = Inr C \<and>
          ff_comparison r = Some cmp \<and> compare_reports rb rc = Inr cmp \<and> all_controls (cmp_controls cmp))"
        using c r(2) p by auto
      then show ?thesis using args l(1,2) kept ended unfolding r(1,3) by simp
    qed
  qed
qed

subsection \<open>A qualifying run\<close>

text \<open>A candidate whose \<open>fairness_10mbit_2f_mixed\<close> cell shares the link evenly, everything else
  as in the frozen baseline, passes the gate.\<close>

definition better_bytes :: "(string \<times> int list) list" where
  "better_bytes = AList.update ''fairness_10mbit_2f_mixed'' [12139527, 12139528] baseline_bytes"

definition better_report :: json where
  "better_report = JObj [(''optimize'', JStr ''safe''), (''zig_version'', JStr ''0.17.0''),
     (''samples_per_benchmark'', JInt 1), (''benchmarks'', JList (map mk_row better_bytes))]"

lemma better_rows: "rows better_report = Inr (map (\<lambda>x. (fst x, mk_row x)) better_bytes)"
  by code_simp

definition mk_stat :: "string \<times> int list \<Rightarrow> string \<times> rat \<times> rat" where
  "mk_stat x = (fst x, jain (snd x),
     of_int (sum_list (snd x) * 1000000) / of_int (measure_window (fst x) * 1250000))"

lemma sample_stats:
  "measure_all (map (\<lambda>x. (fst x, mk_row x)) baseline_bytes) = Inr (map mk_stat baseline_bytes)"
  "measure_all (map (\<lambda>x. (fst x, mk_row x)) better_bytes) = Inr (map mk_stat better_bytes)"
proof -
  have "list_all (\<lambda>x. flow_bytes (mk_row x) = Inr (snd x)) baseline_bytes"
    "list_all (\<lambda>x. flow_bytes (mk_row x) = Inr (snd x)) better_bytes" by code_simp+
  moreover have "measure_row (mk_row x) = Inr (snd (mk_stat x))" if "flow_bytes (mk_row x) = Inr (snd x)" for x
    unfolding measure_row_def that zbind_Inr
    by (simp add: mk_row_def py_index_def py_int_def mk_stat_def Let_def measure_window_def)
  ultimately show "measure_all (map (\<lambda>x. (fst x, mk_row x)) baseline_bytes) = Inr (map mk_stat baseline_bytes)"
    "measure_all (map (\<lambda>x. (fst x, mk_row x)) better_bytes) = Inr (map mk_stat better_bytes)"
    unfolding measure_all_def by (auto simp: mapE_Inr_iff list.rel_map list_all_iff mk_stat_def intro!: list.rel_refl_strong)
qed

lemma sum_list_strict:
  fixes f g :: "'a \<Rightarrow> rat"
  shows "\<forall>x\<in>set xs. f x \<le> g x \<Longrightarrow> \<exists>x\<in>set xs. f x < g x \<Longrightarrow> sum_list (map f xs) < sum_list (map g xs)"
proof (induction xs)
  case (Cons x xs)
  have "sum_list (map f xs) \<le> sum_list (map g xs)" using Cons.prems(1) by (intro sum_list_mono) simp
  with Cons show ?case by (cases "f x < g x") (auto intro: add_less_le_mono add_le_less_mono)
qed simp

lemma better_controls:
  "all_controls (gate_controls (filter is_mixed (map fst baseline_bytes))
     [''fairness_10mbit_2f_bbr'', ''fairness_10mbit_4f_bbr'', ''fairness_10mbit_2f_bbr_stagger5s'']
     (map mk_stat baseline_bytes) (map mk_stat better_bytes) (map snd better_bytes) (replicate 8 True))"
proof -
  let ?sb = "map mk_stat baseline_bytes" and ?sc = "map mk_stat better_bytes"
  let ?m = "filter is_mixed (map fst baseline_bytes)"
  have le: "list_all (\<lambda>n. jain_of ?sb n \<le> jain_of ?sc n) ?m" by code_simp
  have lt: "list_ex (\<lambda>n. jain_of ?sb n < jain_of ?sc n) ?m" by code_simp
  have w: "worst_over ?m ?sb \<le> worst_over ?m ?sc" by code_simp
  have u: "list_all (\<lambda>(n, (_, u)). u \<ge> 95 / 100) ?sc" by code_simp
  have h: "list_all (\<lambda>n. jain_of ?sc n \<ge> 98 / 100)
     [''fairness_10mbit_2f_bbr'', ''fairness_10mbit_4f_bbr'', ''fairness_10mbit_2f_bbr_stagger5s'']" by code_simp
  have f: "list_all (\<lambda>bs. list_all (\<lambda>b. b > 0) bs) (map snd better_bytes)" by code_simp
  have "length ?m = 10" by code_simp
  moreover have "sum_list (map (jain_of ?sb) ?m) < sum_list (map (jain_of ?sc) ?m)"
    using le lt by (intro sum_list_strict) (simp_all only: list_all_iff list_ex_iff)
  ultimately have "mean_over ?m ?sb < mean_over ?m ?sc"
    unfolding mean_over_def rat_mean_def length_map by (intro divide_strict_right_mono) simp_all
  with w u h f show ?thesis by (simp only: all_controls_def gate_controls_def) (simp add: list_all_iff)
qed

lemma better_passes: "\<exists>cmp. compare_reports sample_report better_report = Inr cmp \<and> passed_fairness_controls cmp"
proof -
  let ?B = "map (\<lambda>x. (fst x, mk_row x)) baseline_bytes" and ?C = "map (\<lambda>x. (fst x, mk_row x)) better_bytes"
  have wins: "\<forall>(n, r)\<in>set ?C. window_is_int r"
    by (auto simp: mk_row_def window_is_int_def py_index_def measure_window_def Let_def)
  have "list_all (\<lambda>(n, r). utilization_small r) ?C" by code_simp
  with compare_rows_total [OF sample_rows better_rows sample_windows wins] sample_matches
  obtain cmp where cmp: "compare_rows ?B ?C = Inr cmp"
    using utilization_small_fits [of ?C] by (auto simp: list_all_iff split: if_split_asm)
  have hom: "mapE (\<lambda>(name, row). is_homogeneous row) ?B = Inr homog \<Longrightarrow>
      map fst (filter snd (zip (map fst ?B) homog)) =
      [''fairness_10mbit_2f_bbr'', ''fairness_10mbit_4f_bbr'', ''fairness_10mbit_2f_bbr_stagger5s'']" for homog
  proof -
    have "mapE (\<lambda>(name, row). is_homogeneous row) ?B =
        Inr [False, True, True, True, False, False, False, False, False, False, False, False, False, False]"
      by code_simp
    then show "mapE (\<lambda>(name, row). is_homogeneous row) ?B = Inr homog \<Longrightarrow> ?thesis"
      by (auto simp: baseline_bytes_def)
  qed
  have par: "cubic_parity ?B ?C = Inr (replicate 8 True)" by code_simp
  have cb: "mapE (\<lambda>(name, row). flow_bytes row) ?C = Inr (map snd better_bytes)" by code_simp
  have "map fst ?B = map fst baseline_bytes" by simp
  with compare_rows_parts [OF cmp] hom par cb sample_stats better_controls
  have "passed_fairness_controls cmp" by (metis (no_types, lifting) sum.inject(2))
  with cmp show ?thesis by (auto simp: compare_reports_def sample_rows better_rows)
qed

lemma frozen_unchanged_inventory: "frozen_unchanged sha (src_files s) (inventory sha s) = Inr True"
  by (auto simp: frozen_unchanged_True inventory_def digest_entries_iff Let_def)

lemma runtime_digest_inventory: "\<exists>d. runtime_digest sha (src_files s) (inventory sha s) = Inr d"
proof -
  have "mapE (\<lambda>name. case map_of (src_files s) name of Some c \<Rightarrow> Inr () | None \<Rightarrow> Inl (OSError name))
      (filter runtime_input (sort (map fst (inventory sha s)))) =
      Inr (map (\<lambda>_. ()) (filter runtime_input (sort (map fst (inventory sha s)))))"
    by (rule mapE_total) (auto simp: inventory_def digest_entries_names Let_def)
  then show ?thesis by (simp add: runtime_digest_def)
qed

lemma copy_pairs:
  "\<forall>(n, c)\<in>set copied. read n = Some c \<Longrightarrow> copied = map (\<lambda>n. (n, the (read n))) (map fst copied)"
  by (induction copied) auto

lemma snapshot_copied:
  assumes "snapshot sha src read src' later = Inr (copied, ident)"
  shows "copied = map (\<lambda>n. (n, the (read n))) (map fst (inventory sha src))"
proof -
  from assms have "mapE (\<lambda>(name, _). case read name of Some c \<Rightarrow> Inr (name, c) | None \<Rightarrow> Inl (OSError name))
      (inventory sha src) = Inr copied"
    by (auto simp: snapshot_def Let_def zbind_eq_Inr)
  note cp = copy_loop_Inr [OF this]
  have "copied = map (\<lambda>n. (n, the (read n))) (map fst copied)"
    using cp copy_pairs by blast
  with cp show ?thesis by metis
qed

definition sample_checkout :: source where
  "sample_checkout = \<lparr>src_path = ''/repo'', src_git = None, src_commit = [], src_status = [],
     src_files = sample_lane ''new''\<rparr>"

lemma sample_checkout_snapshot:
  "\<exists>ident. snapshot sample_sha sample_checkout (map_of (sample_lane ''new'')) sample_checkout
     (sample_lane ''new'') = Inr (sample_lane ''new'', ident)"
proof -
  have np: "list_all (\<lambda>n. \<not> pruned n) (map fst (sample_lane ''new''))" by code_simp
  have "sort (map fst (sample_lane ''new'')) = map fst (sample_lane ''new'')" by code_simp
  moreover have "filter (\<lambda>n. \<not> pruned n) (map fst (sample_lane ''new'')) = map fst (sample_lane ''new'')"
    using np by (simp only: filter_id_conv list_all_iff)
  moreover have "filter (\<lambda>n. map_of (sample_lane ''new'') n \<noteq> None) (map fst (sample_lane ''new'')) =
      map fst (sample_lane ''new'')" by (simp add: sample_lane_def)
  ultimately have n: "map fst (inventory sample_sha sample_checkout) = map fst (sample_lane ''new'')"
    by (simp add: inventory_def sample_checkout_def digest_entries_names)
  from np have "list_all (\<lambda>n. \<not> pruned n) (map fst (sample_lane ''new''))" .
  then have "\<not> (\<exists>n\<in>set (map fst (inventory sample_sha sample_checkout)). pruned n)"
    unfolding n by (auto simp only: list_all_iff)
  with snapshot_stable obtain r where "snapshot sample_sha sample_checkout
      (map_of (src_files sample_checkout)) sample_checkout (src_files sample_checkout) = Inr r" by blast
  then obtain copied ident where s: "snapshot sample_sha sample_checkout (map_of (sample_lane ''new''))
      sample_checkout (sample_lane ''new'') = Inr (copied, ident)"
    by (cases r) (simp add: sample_checkout_def)
  have "copied = sample_lane ''new''"
    unfolding snapshot_copied [OF s] n by (simp add: sample_lane_def)
  with s show ?thesis by blast
qed

definition sample_env :: "file_map \<Rightarrow> file_map \<Rightarrow> fairness_env" where
  "sample_env b c =
     \<lparr>fe_rev_parse = Inr baseline_commit, fe_zig = Some ''/bin/zig'', fe_zig_version = Inr ''0.17.0'',
      fe_source = sample_checkout, fe_read = map_of (sample_lane ''new''),
      fe_source_after = sample_checkout, fe_later = sample_lane ''new'',
      fe_archive = Inr (sample_lane ''old''),
      fe_child = (\<lambda>_. \<lparr>lc_exit = Some (5, 0), lc_term = None, lc_interrupts = []\<rparr>),
      fe_world = (\<lambda>lane. \<lparr>wo_files = (if lane = ''baseline'' then b else c), wo_report = Some lane,
         wo_log = [], wo_binaries = [(''bench'', lane)]\<rparr>),
      fe_loads = (\<lambda>r. Inr (if r = ''baseline'' then sample_report else better_report))\<rparr>"

lemma sample_run_lane:
  "\<exists>ex. run_lane sha out name (lane_inventory sha files) \<lparr>lc_exit = Some (5, 0), lc_term = None, lc_interrupts = []\<rparr>
     600 \<lparr>wo_files = files, wo_report = r, wo_log = [], wo_binaries = [b]\<rparr> = Inr ex"
proof -
  have "frozen_unchanged sha files (lane_inventory sha files) = Inr True"
    "\<exists>d. runtime_digest sha files (lane_inventory sha files) = Inr d"
    using frozen_unchanged_inventory [of sha "copied_source files"]
      runtime_digest_inventory [of sha "copied_source files"]
    by (simp_all add: lane_inventory_def copied_source_def)
  then show ?thesis
    by (cases b) (auto simp: run_lane_def lane_wait_of_def timed_wait_def ended_unsignalled Let_def)
qed

lemma sample_run: "\<exists>e r. fairness_main sample_sha 2 600 (Inr ()) True ''out'' e = ExitCode 0 r"
proof -
  obtain b c where p: "prepare_lanes sample_sha (sample_lane ''old'') (sample_lane ''new'') = Inr (b, c)"
    using sample_prepared by blast
  let ?e = "sample_env b c"
  obtain ident where s: "snapshot sample_sha (fe_source ?e) (fe_read ?e) (fe_source_after ?e) (fe_later ?e) =
      Inr (sample_lane ''new'', ident)"
    using sample_checkout_snapshot by (auto simp: sample_env_def)
  obtain x where x: "run_lane sample_sha ''out'' ''baseline'' (lane_inventory sample_sha b)
      (fe_child ?e ''baseline'') 600 (fe_world ?e ''baseline'') = Inr x"
    using sample_run_lane [of sample_sha "''out''" "''baseline''" b "Some ''baseline''" "(''bench'', ''baseline'')"]
    by (auto simp: sample_env_def)
  obtain y where y: "run_lane sample_sha ''out'' ''candidate'' (lane_inventory sample_sha c)
      (fe_child ?e ''candidate'') 600 (fe_world ?e ''candidate'') = Inr y"
    using sample_run_lane [of sample_sha "''out''" "''candidate''" c "Some ''candidate''" "(''bench'', ''candidate'')"]
    by (auto simp: sample_env_def)
  have "fairness_lanes sample_sha ''out'' 600 ?e = Inr (x, y)"
    unfolding fairness_lanes_def s by (simp add: sample_env_def p) (use x y in \<open>simp add: sample_env_def\<close>)
  moreover obtain cmp where cmp: "fairness_compare ?e = Inr cmp" "passed_fairness_controls cmp"
    using better_passes by (auto simp: fairness_compare_def read_report_def sample_env_def)
  ultimately show ?thesis
    by (intro exI [of _ ?e]) (simp add: fairness_main_def fairness_arguments_ok_def)
qed

theorem fairness_exit_zero_witness:
  "\<exists>e r cmp b c. fairness_main sample_sha 2 600 (Inr ()) True ''out'' e = ExitCode 0 r \<and> ff_passed r \<and>
     ff_comparison r = Some cmp \<and> all_controls (cmp_controls cmp) \<and>
     (\<forall>(path, digest)\<in>set (lane_inventory sample_sha b).
        map_of (wo_files (fe_world e ''baseline'')) path \<noteq> None)"
proof -
  obtain e r where m: "fairness_main sample_sha 2 600 (Inr ()) True ''out'' e = ExitCode 0 r"
    using sample_run by blast
  note z = fairness_exit_zero [OF m]
  then obtain b c where "\<forall>(lane, files)\<in>{(''baseline'', b), (''candidate'', c)}.
      \<forall>(path, digest)\<in>set (lane_inventory sample_sha files).
        \<exists>content. map_of (wo_files (fe_world e lane)) path = Some content \<and> sample_sha (bytes_of content) = digest"
    by meson
  then have "\<forall>(path, digest)\<in>set (lane_inventory sample_sha b).
      map_of (wo_files (fe_world e ''baseline'')) path \<noteq> None" by fastforce
  with m z show ?thesis by blast
qed

end
