(* ===== verification/Composition.thy ===== *)
theory Composition
  imports Py_Base
begin

text \<open>
  Model of \<open>src/tools/profile-composition.py\<close>: the accounting checks of a workload record
  (\<open>integer\<close>, \<open>validate\<close>), and \<open>run_child\<close> with its watchdog as a step relation over its two
  threads and the child.
\<close>

subsection \<open>The accounting checks\<close>

definition integer_message :: "string \<Rightarrow> string" where
  "integer_message field = ''workload field '' @ field @ '' must be a nonnegative integer''"

definition integer :: "json \<Rightarrow> string \<Rightarrow> py_error + int" where
  "integer r field =
     zbind (py_get r field) (\<lambda>v.
       case v of JInt n \<Rightarrow> (if n < 0 then Inl (ValueError (integer_message field)) else Inr n)
       | _ \<Rightarrow> Inl (ValueError (integer_message field)))"

definition pubsub_fields :: "string list" where
  "pubsub_fields = [''attempted'', ''matched'', ''queued'', ''backpressured'', ''dropped'',
     ''healthy_delivered'', ''slow_delivered'', ''peak_pending_messages'', ''peak_pending_bytes'',
     ''configured_queue_messages_per_peer'', ''configured_queue_bytes_per_peer'',
     ''cold_handshake_us'', ''warm_elapsed_us'']"

definition recovery_fields :: "string list" where
  "recovery_fields = [''authority_revision'', ''replica_revision'', ''gossip_only_revision'',
     ''hints_published'', ''noise_published'', ''hints_evicted'', ''hints_delivered_after_heal'',
     ''snapshot_attempts'', ''snapshot_timeouts'', ''snapshots_applied'', ''snapshot_bytes'',
     ''peak_pending_requests'', ''peak_pool_entries'', ''elapsed_us'']"

definition read_fields :: "json \<Rightarrow> string list \<Rightarrow> py_error + (string \<Rightarrow> int)" where
  "read_fields r fields =
     zbind (mapE (integer r) fields) (\<lambda>vs. Inr (\<lambda>f. the (map_of (zip fields vs) f)))"

definition pubsub_checks :: "(string \<Rightarrow> int) \<Rightarrow> bool \<Rightarrow> int \<Rightarrow> (string \<times> bool) list" where
  "pubsub_checks v completed publications =
     [(''application_completed'', completed),
      (''attempted'', v ''attempted'' = publications),
      (''source_filter_and_fanout'', v ''matched'' = 3 * publications),
      (''healthy_delivery'', v ''healthy_delivered'' = 2 * publications),
      (''paused_peer_isolation'', v ''slow_delivered'' = 0 \<and> v ''backpressured'' > 0),
      (''admission_accounting'', v ''queued'' \<ge> 2 * publications \<and>
         v ''queued'' + v ''backpressured'' + v ''dropped'' = v ''matched''),
      (''default_block_policy'', v ''dropped'' = 0),
      (''queue_configuration'', v ''configured_queue_messages_per_peer'' = 4 \<and>
         v ''configured_queue_bytes_per_peer'' = 16 * 1024),
      (''bounded_queue'',
         0 < v ''peak_pending_messages'' \<and>
         v ''peak_pending_messages'' \<le> 3 * v ''configured_queue_messages_per_peer'' \<and>
         0 < v ''peak_pending_bytes'' \<and>
         v ''peak_pending_bytes'' \<le> 3 * v ''configured_queue_bytes_per_peer''),
      (''application_timing'', v ''cold_handshake_us'' > 0 \<and> v ''warm_elapsed_us'' > 0)]"

definition recovery_checks :: "(string \<Rightarrow> int) \<Rightarrow> bool \<Rightarrow> (string \<times> bool) list" where
  "recovery_checks v completed =
     [(''application_completed'', completed),
      (''state_convergence'', v ''authority_revision'' = v ''replica_revision'' \<and>
         v ''replica_revision'' = 40),
      (''gossip_only_stale'', v ''gossip_only_revision'' = 0),
      (''all_hints_evicted'', v ''hints_published'' = v ''hints_evicted'' \<and>
         v ''hints_evicted'' = 40 \<and> v ''noise_published'' = 40),
      (''no_late_hint'', v ''hints_delivered_after_heal'' = 0),
      (''bounded_real_timeouts'', 0 < v ''snapshot_timeouts'' \<and>
         v ''snapshot_timeouts'' < v ''snapshot_attempts'' \<and> v ''snapshot_attempts'' \<le> 120),
      (''terminal_accounting'',
         v ''snapshot_attempts'' = v ''snapshot_timeouts'' + v ''snapshots_applied''),
      (''fixed_snapshot'', v ''snapshots_applied'' = 1 \<and> v ''snapshot_bytes'' = 81),
      (''bounded_pending'', v ''peak_pending_requests'' = v ''peak_pool_entries'' \<and>
         v ''peak_pool_entries'' = 1),
      (''application_timing'', 500000 \<le> v ''elapsed_us'' \<and> v ''elapsed_us'' \<le> 8000000)]"

definition is_dict :: "json \<Rightarrow> bool" where
  "is_dict v = (case v of JObj _ \<Rightarrow> True | _ \<Rightarrow> False)"

definition validate :: "string \<Rightarrow> json \<Rightarrow> int \<Rightarrow> py_error + (string \<times> bool) list" where
  "validate workload r publications =
     (if \<not> is_dict r then Inl (ValueError ''workload JSON must be an object'')
      else if workload = ''pubsub'' then
        zbind (read_fields r pubsub_fields) (\<lambda>v.
        zbind (py_get r ''reconnected'') (\<lambda>c.
        Inr (pubsub_checks v (c = JBool True) publications)))
      else
        zbind (read_fields r recovery_fields) (\<lambda>v.
        zbind (py_get r ''converged'') (\<lambda>c.
        Inr (recovery_checks v (c = JBool True)))))"

definition all_pass :: "(string \<times> bool) list \<Rightarrow> bool" where
  "all_pass checks = list_all snd checks"

subsection \<open>The watchdog\<close>

text \<open>
  Two threads share \<open>state\<close> under a lock; each locked section is one step.  The model starts at
  the \<open>try\<close>.  The main thread waits for the child; an exception there (a \<open>KeyboardInterrupt\<close>,
  which may also come after \<open>wait4\<close> reaped the child) makes it kill the group and wait again;
  the \<open>finally\<close> block marks the run as over, cancels the timer and joins it.  A further
  interrupt may strike anywhere: in the handler it goes to the \<open>finally\<close> block, in that block
  it leaves the function (\<open>Aborted\<close>).  The timer's wait ends (\<open>Firing\<close>) before \<open>expire\<close> gets the
  lock, and from then on \<open>cancel\<close> has no effect.  A child that ended is a zombie until \<open>wait4\<close>
  reaps it.  \<open>w_kills\<close> records each \<open>os.killpg\<close> by the state of the child at that moment; it ends a
  living child at once and leaves a zombie or a reaped one as it is (then the group is gone
  or holds other processes, which are outside the model).
\<close>

datatype exit_status = Own int | Killed

datatype child = Alive | Zombie exit_status | Reaped exit_status

datatype main_pc = Waiting | Returned | Handling | Rewaiting | Leaving | Closed | Joining | Done | Aborted

datatype timer = Armed | Firing | Fired | Cancelled

record watch =
  w_pc :: main_pc
  w_timer :: timer
  w_child :: child
  w_running :: bool
  w_timed_out :: bool
  w_kills :: "child list"
  w_interrupts :: nat
  w_error :: "py_error option"     \<comment> \<open>the exception on its way out of the function\<close>

definition watch_init :: watch where
  "watch_init = \<lparr>w_pc = Waiting, w_timer = Armed, w_child = Alive, w_running = True,
     w_timed_out = False, w_kills = [], w_interrupts = 0, w_error = None\<rparr>"

definition kill_group :: "child \<Rightarrow> child" where
  "kill_group c = (case c of Alive \<Rightarrow> Zombie Killed | _ \<Rightarrow> c)"

definition killpg :: "watch \<Rightarrow> watch" where
  "killpg w = w\<lparr>w_kills := w_kills w @ [w_child w], w_child := kill_group (w_child w)\<rparr>"

definition expire :: "watch \<Rightarrow> watch" where
  "expire w = (if \<not> w_running w then w\<lparr>w_timer := Fired\<rparr>
     else killpg (w\<lparr>w_timer := Fired, w_timed_out := True\<rparr>))"

definition interrupt_pc :: "main_pc \<Rightarrow> main_pc" where
  "interrupt_pc pc = (if pc = Waiting \<or> pc = Returned then Handling
     else if pc = Handling \<or> pc = Rewaiting then Leaving else Aborted)"

definition interrupt :: "watch \<Rightarrow> watch" where
  "interrupt w = w\<lparr>w_pc := interrupt_pc (w_pc w), w_interrupts := Suc (w_interrupts w),
     w_error := Some KeyboardInterrupt\<rparr>"

definition cancel :: "timer \<Rightarrow> timer" where
  "cancel t = (if t = Armed then Cancelled else t)"

definition child_process_error :: py_error where
  "child_process_error = OSError ''ChildProcessError: No child processes''"

datatype actor = Main_Thread | Timer_Thread | Child_Process | User_Interrupt

inductive watch_step :: "actor \<Rightarrow> watch \<Rightarrow> watch \<Rightarrow> bool" where
  child_exits: "w_child w = Alive \<Longrightarrow> watch_step Child_Process w (w\<lparr>w_child := Zombie (Own code)\<rparr>)"
| timer_due: "w_timer w = Armed \<Longrightarrow> watch_step Timer_Thread w (w\<lparr>w_timer := Firing\<rparr>)"
| timer_fires: "w_timer w = Firing \<Longrightarrow> watch_step Timer_Thread w (expire w)"
| wait_returns: "w_pc w = Waiting \<Longrightarrow> w_child w = Zombie s \<Longrightarrow>
     watch_step Main_Thread w (w\<lparr>w_pc := Returned, w_child := Reaped s\<rparr>)"
| try_ends: "w_pc w = Returned \<Longrightarrow> watch_step Main_Thread w (w\<lparr>w_pc := Leaving\<rparr>)"
| handler_kills: "w_pc w = Handling \<Longrightarrow> watch_step Main_Thread w (killpg (w\<lparr>w_pc := Rewaiting\<rparr>))"
| rewait_reaps: "w_pc w = Rewaiting \<Longrightarrow> w_child w = Zombie s \<Longrightarrow>
     watch_step Main_Thread w (w\<lparr>w_pc := Leaving, w_child := Reaped s\<rparr>)"
| rewait_fails: "w_pc w = Rewaiting \<Longrightarrow> w_child w = Reaped s \<Longrightarrow>
     watch_step Main_Thread w (w\<lparr>w_pc := Leaving, w_error := Some child_process_error\<rparr>)"
| main_closes: "w_pc w = Leaving \<Longrightarrow>
     watch_step Main_Thread w (w\<lparr>w_pc := Closed, w_running := False\<rparr>)"
| main_cancels: "w_pc w = Closed \<Longrightarrow>
     watch_step Main_Thread w (w\<lparr>w_pc := Joining, w_timer := cancel (w_timer w)\<rparr>)"
| main_joins: "w_pc w = Joining \<Longrightarrow> w_timer w = Fired \<or> w_timer w = Cancelled \<Longrightarrow>
     watch_step Main_Thread w (w\<lparr>w_pc := Done\<rparr>)"
| interrupted: "w_pc w \<noteq> Done \<Longrightarrow> w_pc w \<noteq> Aborted \<Longrightarrow> watch_step User_Interrupt w (interrupt w)"

text \<open>The states after a run of the threads, with the actors of its steps, latest first.\<close>

inductive watch_run :: "actor list \<Rightarrow> watch \<Rightarrow> bool" where
  watch_start: "watch_run [] watch_init"
| watch_next: "watch_run as w \<Longrightarrow> watch_step a w w' \<Longrightarrow> watch_run (a # as) w'"

inductive_cases watch_stepE: "watch_step a w w'"

text \<open>The result of a run that returned: the exit code (a negative signal number when killed)
  and the usage that \<open>wait4\<close> reported, with the unit of \<open>ru_maxrss\<close> on the platform.\<close>

record rusage =
  ru_utime :: rat
  ru_stime :: rat
  ru_maxrss :: int

record child_result =
  cr_returncode :: int
  cr_timed_out :: bool
  cr_watchdog :: int
  cr_wall :: rat
  cr_user :: rat
  cr_system :: rat
  cr_cpu :: rat
  cr_rss_raw :: int
  cr_rss_unit :: string
  cr_rss_bytes :: int

definition exit_code :: "exit_status \<Rightarrow> int" where
  "exit_code s = (case s of Own code \<Rightarrow> code | Killed \<Rightarrow> - 9)"

definition child_status :: "child \<Rightarrow> exit_status" where
  "child_status c = (case c of Reaped s \<Rightarrow> s | Zombie s \<Rightarrow> s | Alive \<Rightarrow> Killed)"

text \<open>What \<open>run_child\<close> returns, or the exception it raises again, when its two threads ended in
  the state \<open>w\<close>.\<close>

definition run_child :: "bool \<Rightarrow> int \<Rightarrow> watch \<Rightarrow> rusage \<Rightarrow> rat \<Rightarrow> py_error + child_result" where
  "run_child darwin timeout w usage wall =
     (case w_error w of Some err \<Rightarrow> Inl err
      | None \<Rightarrow> let rss_unit = (if darwin then ''bytes'' else ''KiB'') in
        Inr \<lparr>cr_returncode = exit_code (child_status (w_child w)), cr_timed_out = w_timed_out w,
             cr_watchdog = timeout, cr_wall = wall, cr_user = ru_utime usage, cr_system = ru_stime usage,
             cr_cpu = ru_utime usage + ru_stime usage, cr_rss_raw = ru_maxrss usage, cr_rss_unit = rss_unit,
             cr_rss_bytes = (if rss_unit = ''bytes'' then ru_maxrss usage else ru_maxrss usage * 1024)\<rparr>)"

subsection \<open>Lemmas\<close>

lemma integer_Inr: "integer r f = Inr n \<longleftrightarrow> py_get r f = Inr (JInt n) \<and> 0 \<le> n"
proof (cases "py_get r f")
  case (Inr v)
  then show ?thesis by (cases v) (auto simp: integer_def)
qed (simp add: integer_def)

lemma map_of_zip_pointwise:
  "list_all2 P fs vs \<Longrightarrow> f \<in> set fs \<Longrightarrow> P f (the (map_of (zip fs vs) f))"
  by (induction fs vs rule: list_all2_induct) auto

lemma read_fields_Inr:
  assumes "read_fields r fds = Inr v" "f \<in> set fds"
  shows "py_get r f = Inr (JInt (v f)) \<and> 0 \<le> v f"
proof -
  obtain vs where "list_all2 (\<lambda>x y. integer r x = Inr y) fds vs" "v = (\<lambda>f. the (map_of (zip fds vs) f))"
    using assms(1) by (auto simp: read_fields_def zbind_eq_Inr mapE_Inr_iff)
  with map_of_zip_pointwise [OF this(1) assms(2)] show ?thesis by (simp add: integer_Inr)
qed

text \<open>The watchdog's invariant, and a measure that every step decreases.\<close>

definition timer_inv :: "watch \<Rightarrow> bool" where
  "timer_inv w \<longleftrightarrow>
     (w_pc w \<in> {Closed, Joining, Done} \<longrightarrow> \<not> w_running w) \<and>
     (\<not> w_running w \<longrightarrow> w_pc w \<in> {Closed, Joining, Done, Aborted}) \<and>
     (w_timed_out w \<longrightarrow> w_timer w = Fired \<and> w_child w \<noteq> Alive) \<and>
     (w_timer w = Fired \<longrightarrow> w_timed_out w \<or> \<not> w_running w) \<and>
     (w_timer w = Cancelled \<longrightarrow> w_pc w \<in> {Joining, Done, Aborted}) \<and>
     (w_pc w = Joining \<longrightarrow> w_timer w \<noteq> Armed) \<and>
     (w_pc w = Done \<longrightarrow> w_timer w \<in> {Fired, Cancelled})"

definition reap_inv :: "watch \<Rightarrow> bool" where
  "reap_inv w \<longleftrightarrow>
     (w_pc w = Waiting \<longrightarrow> (\<forall>s. w_child w \<noteq> Reaped s)) \<and>
     (w_pc w = Returned \<longrightarrow> (\<exists>s. w_child w = Reaped s)) \<and>
     (w_pc w = Rewaiting \<longrightarrow> w_child w \<noteq> Alive) \<and>
     (w_pc w \<in> {Waiting, Returned} \<longrightarrow> w_interrupts w = 0) \<and>
     (w_pc w \<in> {Handling, Rewaiting} \<longrightarrow> w_interrupts w = 1) \<and>
     (w_pc w \<in> {Leaving, Closed, Joining, Done} \<and> w_interrupts w \<le> 1 \<longrightarrow> (\<exists>s. w_child w = Reaped s))"

definition report_inv :: "watch \<Rightarrow> bool" where
  "report_inv w \<longleftrightarrow>
     (w_interrupts w = 0 \<longrightarrow> (w_timed_out w \<longleftrightarrow> w_kills w \<noteq> [])) \<and>
     (w_pc w \<in> {Handling, Rewaiting} \<longrightarrow> w_interrupts w \<noteq> 0) \<and>
     (w_error w = None \<longleftrightarrow> w_interrupts w = 0) \<and>
     (w_child w \<in> {Zombie Killed, Reaped Killed} \<longrightarrow> Alive \<in> set (w_kills w))"

definition watch_inv :: "watch \<Rightarrow> bool" where
  "watch_inv w \<longleftrightarrow> timer_inv w \<and> reap_inv w \<and> report_inv w"

definition pc_rank :: "main_pc \<Rightarrow> nat" where
  "pc_rank pc = (case pc of Waiting \<Rightarrow> 7 | Returned \<Rightarrow> 6 | Handling \<Rightarrow> 5 | Rewaiting \<Rightarrow> 4
     | Leaving \<Rightarrow> 3 | Closed \<Rightarrow> 2 | Joining \<Rightarrow> 1 | _ \<Rightarrow> 0)"

definition timer_rank :: "timer \<Rightarrow> nat" where
  "timer_rank t = (case t of Armed \<Rightarrow> 2 | Firing \<Rightarrow> 1 | _ \<Rightarrow> 0)"

definition child_rank :: "child \<Rightarrow> nat" where
  "child_rank c = (case c of Alive \<Rightarrow> 2 | Zombie _ \<Rightarrow> 1 | _ \<Rightarrow> 0)"

definition watch_rank :: "watch \<Rightarrow> nat" where
  "watch_rank w = pc_rank (w_pc w) + timer_rank (w_timer w) + child_rank (w_child w)"

lemmas watch_step_defs = expire_def killpg_def interrupt_def interrupt_pc_def cancel_def child_process_error_def
lemmas watch_rank_defs = watch_rank_def pc_rank_def timer_rank_def child_rank_def

lemma kill_group_simps [simp]: "kill_group Alive = Zombie Killed" "kill_group (Zombie s) = Zombie s"
  "kill_group (Reaped s) = Reaped s"
  by (simp_all add: kill_group_def)

lemma kill_group_not_Alive [simp]: "kill_group c \<noteq> Alive" "(\<exists>s. kill_group c = Reaped s) \<longleftrightarrow> (\<exists>s. c = Reaped s)"
  by (cases c; simp)+

lemma kill_group_Killed:
  "kill_group c = Zombie Killed \<longleftrightarrow> c = Alive \<or> c = Zombie Killed" "kill_group c = Reaped s \<longleftrightarrow> c = Reaped s"
  by (cases c; simp)+

lemma watch_inv_init: "watch_inv watch_init"
  by (simp add: watch_inv_def timer_inv_def reap_inv_def report_inv_def watch_init_def)

lemma timer_inv_step:
  assumes "watch_step a w w'" "timer_inv w"
  shows "timer_inv w'"
  using assms
proof (induction rule: watch_step.induct)
  case (timer_fires w)
  then show ?case by (cases "w_running w") (auto simp: timer_inv_def watch_step_defs)
next
  case (handler_kills w)
  then show ?case by (auto simp: timer_inv_def killpg_def)
next
  case (interrupted w)
  then show ?case by (cases "w_pc w") (auto simp: timer_inv_def interrupt_def interrupt_pc_def)
next
  case (main_cancels w)
  then show ?case by (cases "w_timer w") (auto simp: timer_inv_def cancel_def)
qed (auto simp: timer_inv_def)

lemma reap_inv_step:
  assumes "watch_step a w w'" "reap_inv w"
  shows "reap_inv w'"
  using assms
proof (induction rule: watch_step.induct)
  case (timer_fires w)
  then show ?case by (cases "w_child w"; cases "w_running w") (simp_all add: reap_inv_def watch_step_defs)
next
  case (handler_kills w)
  then show ?case by (cases "w_child w") (simp_all add: reap_inv_def killpg_def)
next
  case (interrupted w)
  then show ?case by (cases "w_pc w") (simp_all add: reap_inv_def interrupt_def interrupt_pc_def)
next
  case (child_exits w code)
  then show ?case by (cases "w_pc w") (auto simp: reap_inv_def)
qed (auto simp: reap_inv_def)

lemma report_inv_step:
  assumes "watch_step a w w'" "report_inv w" "timer_inv w"
  shows "report_inv w'"
  using assms
proof (induction rule: watch_step.induct)
  case (timer_fires w)
  then show ?case by (cases "w_child w"; cases "w_running w") (simp_all add: report_inv_def watch_step_defs)
next
  case (handler_kills w)
  then show ?case by (cases "w_child w") (simp_all add: report_inv_def killpg_def)
qed (auto simp: report_inv_def timer_inv_def interrupt_def)

lemma watch_inv_step: "watch_step a w w' \<Longrightarrow> watch_inv w \<Longrightarrow> watch_inv w'"
  by (simp add: watch_inv_def timer_inv_step reap_inv_step report_inv_step)

lemma watch_run_inv: "watch_run as w \<Longrightarrow> watch_inv w"
  by (induction rule: watch_run.induct) (blast intro: watch_inv_init watch_inv_step)+

lemma watch_step_rank: "watch_step a w w' \<Longrightarrow> watch_rank w' < watch_rank w"
proof (induction rule: watch_step.induct)
  case (timer_fires w)
  then show ?case by (cases "w_child w") (auto simp: watch_rank_defs watch_step_defs)
next
  case (handler_kills w)
  then show ?case by (cases "w_child w") (auto simp: watch_rank_defs watch_step_defs)
next
  case (interrupted w)
  then show ?case by (cases "w_pc w") (auto simp: watch_rank_defs watch_step_defs)
next
  case (main_cancels w)
  then show ?case by (cases "w_timer w") (auto simp: watch_rank_defs watch_step_defs)
qed (auto simp: watch_rank_defs)

lemma watch_run_bound: "watch_run as w \<Longrightarrow> length as + watch_rank w \<le> 11"
proof (induction rule: watch_run.induct)
  case watch_start
  show ?case by (simp add: watch_init_def watch_rank_defs)
next
  case (watch_next as w a w')
  with watch_step_rank [OF watch_next(2)] show ?case by simp
qed

text \<open>Whoever has to move next can: the main thread never waits for a living child that nobody
  is going to kill.\<close>

lemma watch_progress:
  assumes "watch_inv w" "w_pc w \<noteq> Done" "w_pc w \<noteq> Aborted"
  shows "\<exists>a w'. a \<in> {Main_Thread, Timer_Thread} \<and> watch_step a w w'"
proof (cases "w_timer w = Armed \<or> w_timer w = Firing")
  case True
  then show ?thesis by (auto intro: timer_due timer_fires)
next
  case False
  then have f: "w_timer w = Fired \<or> w_timer w = Cancelled" by (cases "w_timer w") auto
  show ?thesis
  proof (cases "w_pc w")
    case Waiting
    with assms(1) f obtain s where "w_child w = Zombie s"
      by (cases "w_child w") (auto simp: watch_inv_def timer_inv_def reap_inv_def)
    with Waiting show ?thesis by (auto intro: wait_returns)
  next
    case Rewaiting
    with assms(1) show ?thesis
      by (cases "w_child w") (auto simp: watch_inv_def reap_inv_def intro: rewait_reaps rewait_fails)
  qed (use assms f in \<open>auto intro: try_ends handler_kills main_closes main_cancels main_joins\<close>)
qed

lemma watch_over:
  assumes "watch_step a w w'" "\<not> w_running w"
  shows "\<not> w_running w' \<and> w_timed_out w' = w_timed_out w \<and>
    (w_pc w \<noteq> Handling \<longrightarrow> w_kills w' = w_kills w)"
  using assms by (induction rule: watch_step.induct) (auto simp: watch_step_defs)

subsection \<open>Properties\<close>

text \<open>C16: \<open>validate\<close> raises exactly on a malformed record.  For a JSON object it returns the ten
  named checks if and only if every field of the workload is a nonnegative integer (booleans
  and floats are not), whatever the values are.\<close>

theorem validate_total:
  "(\<exists>cs. validate w (JObj kvs) p = Inr cs \<and> length cs = 10) \<longleftrightarrow>
     (\<forall>f\<in>set (if w = ''pubsub'' then pubsub_fields else recovery_fields).
        \<exists>n. map_of kvs f = Some (JInt n) \<and> 0 \<le> n)"
proof -
  have g: "py_get (JObj kvs) f = Inr (case map_of kvs f of Some v \<Rightarrow> v | None \<Rightarrow> JNull)" for f
    by (simp add: py_get_def py_get_default_def)
  have i: "(\<exists>n. integer (JObj kvs) f = Inr n) \<longleftrightarrow> (\<exists>n. map_of kvs f = Some (JInt n) \<and> 0 \<le> n)" for f
    by (auto simp: integer_Inr g split: option.splits)
  have m: "(\<exists>v. read_fields (JObj kvs) fs = Inr v) \<longleftrightarrow> (\<forall>f\<in>set fs. \<exists>n. map_of kvs f = Some (JInt n) \<and> 0 \<le> n)" for fs
  proof -
    have "(\<exists>vs. mapE (integer (JObj kvs)) fs = Inr vs) \<longleftrightarrow> (\<forall>f\<in>set fs. \<exists>n. integer (JObj kvs) f = Inr n)"
      by (induction fs) (auto simp: zbind_eq_Inr)
    then show ?thesis by (simp add: read_fields_def zbind_eq_Inr i)
  qed
  have z: "(\<exists>cs. zbind X (\<lambda>v. Inr (f v)) = Inr cs \<and> length cs = 10) \<longleftrightarrow> (\<exists>v. X = Inr v)"
    if "\<And>v. length (f v) = 10" for X :: "py_error + (string \<Rightarrow> int)" and f :: "(string \<Rightarrow> int) \<Rightarrow> (string \<times> bool) list"
    using that by (cases X) simp_all
  have len: "length (pubsub_checks v c p) = 10" "length (recovery_checks v c) = 10" for v c
    by (simp_all add: pubsub_checks_def recovery_checks_def)
  show ?thesis
    by (cases "w = ''pubsub''") (simp_all add: validate_def is_dict_def g z len m)
qed

text \<open>C15: A pubsub record that passes every check is consistent as a whole: the healthy peers got
  all of their \<open>2 * publications\<close> messages, the paused one none; every match was either
  queued or backpressured and nothing was dropped, so between one and \<open>publications\<close>
  messages were held back; and the queues stayed within three peers' budget of 12 messages
  and 48 KiB.\<close>

theorem pubsub_accounting:
  assumes "validate ''pubsub'' r p = Inr cs" "all_pass cs"
  shows "\<exists>v. read_fields r pubsub_fields = Inr v \<and> v ''healthy_delivered'' = 2 * p \<and>
    v ''slow_delivered'' = 0 \<and> v ''queued'' + v ''backpressured'' = 3 * p \<and>
    1 \<le> v ''backpressured'' \<and> v ''backpressured'' \<le> p \<and>
    v ''peak_pending_messages'' \<le> 12 \<and> v ''peak_pending_bytes'' \<le> 49152"
proof -
  obtain v c where v: "read_fields r pubsub_fields = Inr v" "cs = pubsub_checks v c p"
    using assms(1) by (auto simp: validate_def zbind_eq_Inr split: if_split_asm)
  from assms(2) show ?thesis unfolding v(2) pubsub_checks_def all_pass_def
    by (intro exI [of _ v]) (simp add: v(1))
qed

definition sample_pubsub :: json where
  "sample_pubsub = JObj [(''attempted'', JInt 24), (''matched'', JInt 72), (''queued'', JInt 52),
     (''backpressured'', JInt 20), (''dropped'', JInt 0), (''healthy_delivered'', JInt 48),
     (''slow_delivered'', JInt 0), (''peak_pending_messages'', JInt 6), (''peak_pending_bytes'', JInt 900),
     (''configured_queue_messages_per_peer'', JInt 4), (''configured_queue_bytes_per_peer'', JInt 16384),
     (''cold_handshake_us'', JInt 900), (''warm_elapsed_us'', JInt 800), (''reconnected'', JBool True)]"

definition sample_pubsub_checks :: "(string \<times> bool) list" where
  "sample_pubsub_checks = [(''application_completed'', True), (''attempted'', True),
     (''source_filter_and_fanout'', True), (''healthy_delivery'', True), (''paused_peer_isolation'', True),
     (''admission_accounting'', True), (''default_block_policy'', True), (''queue_configuration'', True),
     (''bounded_queue'', True), (''application_timing'', True)]"

lemma sample_pubsub_validates: "validate ''pubsub'' sample_pubsub 24 = Inr sample_pubsub_checks"
  by code_simp

theorem validate_total_witness:
  "\<exists>cs. validate ''pubsub'' sample_pubsub 24 = Inr cs \<and> length cs = 10"
  unfolding sample_pubsub_def validate_total by (simp add: pubsub_fields_def)

theorem pubsub_accounting_witness:
  "\<exists>v. read_fields sample_pubsub pubsub_fields = Inr v \<and> v ''healthy_delivered'' = 48 \<and> v ''backpressured'' \<le> 24"
  using pubsub_accounting [OF sample_pubsub_validates] by (force simp: all_pass_def sample_pubsub_checks_def)

text \<open>C5: The watchdog is sound under every interleaving of the waiting thread, the timer, the child
  and any interrupts.  No run is longer than eleven steps, and until the function is left the
  main thread or the timer can move, so it never waits for a living child that nobody is going
  to kill.  Once \<open>running\<close> is cleared nothing is signalled and \<open>timed_out\<close> keeps its value.  When
  the \<open>finally\<close> block is done the timer is over, and after at most one interrupt the child has
  been reaped.  Without an interrupt no exception leaves, \<open>timed_out\<close> is reported exactly when
  the timer signalled the group, and otherwise the exit status is the child's own.\<close>

theorem watchdog_sound:
  assumes "watch_run as w"
  shows "length as \<le> 11 \<and>
    (w_pc w \<noteq> Done \<and> w_pc w \<noteq> Aborted \<longrightarrow>
       (\<exists>a w'. a \<in> {Main_Thread, Timer_Thread} \<and> watch_step a w w')) \<and>
    (\<not> w_running w \<longrightarrow> (\<forall>a w'. watch_step a w w' \<longrightarrow>
       \<not> w_running w' \<and> w_timed_out w' = w_timed_out w \<and> w_kills w' = w_kills w)) \<and>
    (w_pc w = Done \<longrightarrow> w_timer w \<in> {Fired, Cancelled} \<and>
       (w_interrupts w \<le> 1 \<longrightarrow> (\<exists>s. w_child w = Reaped s)) \<and>
       (w_interrupts w = 0 \<longrightarrow> w_error w = None \<and> (w_timed_out w \<longleftrightarrow> w_kills w \<noteq> []) \<and>
          (\<not> w_timed_out w \<longrightarrow> (\<exists>code. w_child w = Reaped (Own code)))))"
proof (intro conjI impI)
  have i: "watch_inv w" by (rule watch_run_inv [OF assms])
  then have t: "timer_inv w" and r: "reap_inv w" and p: "report_inv w" by (simp_all add: watch_inv_def)
  show "length as \<le> 11" using watch_run_bound [OF assms] by simp
  show "\<exists>a w'. a \<in> {Main_Thread, Timer_Thread} \<and> watch_step a w w'"
    if "w_pc w \<noteq> Done \<and> w_pc w \<noteq> Aborted" using that by (intro watch_progress [OF i]) simp_all
  show "\<forall>a w'. watch_step a w w' \<longrightarrow>
       \<not> w_running w' \<and> w_timed_out w' = w_timed_out w \<and> w_kills w' = w_kills w" if "\<not> w_running w"
  proof -
    have "w_pc w \<noteq> Handling" using t that by (auto simp: timer_inv_def)
    with that show ?thesis by (blast dest: watch_over)
  qed
  assume d: "w_pc w = Done"
  show "w_timer w \<in> {Fired, Cancelled}" using t d by (simp add: timer_inv_def)
  show reaped: "\<exists>s. w_child w = Reaped s" if "w_interrupts w \<le> 1" using r d that by (simp add: reap_inv_def)
  assume n: "w_interrupts w = 0"
  show "w_error w = None" "w_timed_out w \<longleftrightarrow> w_kills w \<noteq> []" using p n by (simp_all add: report_inv_def)
  show "\<exists>code. w_child w = Reaped (Own code)" if "\<not> w_timed_out w"
  proof -
    obtain s where s: "w_child w = Reaped s" using reaped n by auto
    with p n that show ?thesis by (cases s) (auto simp: report_inv_def)
  qed
qed

text \<open>A child that ended by itself, was reaped, and then met a late timer.\<close>

definition late_timer_run :: watch where
  "late_timer_run = \<lparr>w_pc = Done, w_timer = Fired, w_child = Reaped (Own 0), w_running = False,
     w_timed_out = True, w_kills = [Reaped (Own 0)], w_interrupts = 0, w_error = None\<rparr>"

definition late_timer_actors :: "actor list" where
  "late_timer_actors = [Main_Thread, Main_Thread, Main_Thread, Timer_Thread, Main_Thread,
     Timer_Thread, Main_Thread, Child_Process]"

lemma late_timer_reachable: "watch_run late_timer_actors late_timer_run"
proof -
  let ?a = "watch_init\<lparr>w_child := Zombie (Own 0)\<rparr>"
  let ?b = "?a\<lparr>w_pc := Returned, w_child := Reaped (Own 0)\<rparr>"
  let ?c = "?b\<lparr>w_timer := Firing\<rparr>"
  let ?d = "?c\<lparr>w_pc := Leaving\<rparr>"
  let ?e = "expire ?d"
  let ?f = "?e\<lparr>w_pc := Closed, w_running := False\<rparr>"
  let ?g = "?f\<lparr>w_pc := Joining, w_timer := cancel (w_timer ?f)\<rparr>"
  let ?h = "?g\<lparr>w_pc := Done\<rparr>"
  have s1: "watch_step Child_Process watch_init ?a" by (rule child_exits) (simp add: watch_init_def)
  have s2: "watch_step Main_Thread ?a ?b" by (rule wait_returns) (simp_all add: watch_init_def)
  have s3: "watch_step Timer_Thread ?b ?c" by (rule timer_due) (simp add: watch_init_def)
  have s4: "watch_step Main_Thread ?c ?d" by (rule try_ends) simp
  have s5: "watch_step Timer_Thread ?d ?e" by (rule timer_fires) simp
  have s6: "watch_step Main_Thread ?e ?f" by (rule main_closes) (simp add: watch_init_def watch_step_defs)
  have s7: "watch_step Main_Thread ?f ?g" by (rule main_cancels) simp
  have s8: "watch_step Main_Thread ?g ?h" by (rule main_joins) (simp_all add: watch_init_def watch_step_defs)
  have h: "?h = late_timer_run" by (simp add: late_timer_run_def watch_init_def watch_step_defs)
  note upto4 = watch_next [OF watch_next [OF watch_next [OF watch_next [OF watch_start s1] s2] s3] s4]
  show ?thesis unfolding late_timer_actors_def h [symmetric]
    by (rule watch_next [OF watch_next [OF watch_next [OF watch_next [OF upto4 s5] s6] s7] s8])
qed

theorem watchdog_sound_witness:
  "length late_timer_actors \<le> 11 \<and> w_pc late_timer_run = Done \<and> w_timer late_timer_run \<in> {Fired, Cancelled} \<and>
   (\<exists>s. w_child late_timer_run = Reaped s) \<and> w_kills late_timer_run \<noteq> []"
  using watchdog_sound [OF late_timer_reachable] by (simp add: late_timer_run_def)

text \<open>The timeout flag can be set for a child that finished by itself with exit code 0, and the
  group of a pid that is no longer the child's can be signalled: the timer may fire after
  \<open>wait4\<close> has reaped the child and before \<open>running\<close> is cleared.\<close>

lemma watchdog_late_timeout:
  "\<exists>as w. watch_run as w \<and> w_pc w = Done \<and> w_interrupts w = 0 \<and> w_timed_out w \<and>
     w_child w = Reaped (Own 0) \<and> w_kills w = [Reaped (Own 0)]"
  using late_timer_reachable by (auto simp: late_timer_run_def intro!: exI)

end
