(* ===== verification/Composition_Inputs.thy ===== *)
theory Composition_Inputs
  imports Py_Files
begin

text \<open>
  The inputs of \<open>src/tools/profile-composition.py\<close>: identities of source trees, of the consumer
  workspace and of the compiler, the regular expressions that read \<open>build.zig.zon\<close>, and the
  checks made before anything is built.
\<close>

subsection \<open>Identities\<close>

text \<open>The dictionary an identity is; without git there is no commit and no status.\<close>

record tree_identity =
  id_path :: string
  id_files :: "(string \<times> string) list"
  id_count :: nat
  id_sha :: string
  id_git :: "(string \<times> string) option"

definition identity_excluded :: "string list" where
  "identity_excluded = [''.git'', ''.zig-cache'', ''.zig-global-cache'', ''zig-pkg'', ''zig-out'',
     ''__pycache__'']"

definition identity_names :: "source \<Rightarrow> string list" where
  "identity_names s =
     (case src_git s of
        Some out \<Rightarrow> git_names out
      | None \<Rightarrow> sort (filter (\<lambda>name. \<not> list_ex (\<lambda>part. part \<in> set identity_excluded) (path_parts name))
                  (map fst (src_files s))))"

definition identity :: "(byte list \<Rightarrow> string) \<Rightarrow> source \<Rightarrow> tree_identity" where
  "identity sha s =
     (let entries = digest_entries sha (src_files s) (identity_names s) in
      \<lparr>id_path = src_path s, id_files = entries, id_count = length entries,
       id_sha = files_digest sha entries,
       id_git = (if src_git s = None then None else Some (src_commit s, src_status s))\<rparr>)"

text \<open>\<open>compact\<close> drops the file map.\<close>

record compact_identity =
  co_path :: string
  co_count :: nat
  co_sha :: string
  co_git :: "(string \<times> string) option"

definition compact :: "tree_identity \<Rightarrow> compact_identity" where
  "compact i = \<lparr>co_path = id_path i, co_count = id_count i, co_sha = id_sha i, co_git = id_git i\<rparr>"

text \<open>The workspace directory and its parent, each as the files below it.\<close>

record workspace_tree =
  ws_path :: string
  ws_files :: file_map
  ws_parent :: file_map

definition workspace_names :: "workspace_tree \<Rightarrow> string list" where
  "workspace_names w =
     [''build.zig'', ''build.zig.zon''] @
     map ((@) ''../'') [''composition_test.zig'', ''sprint2_composition_test.zig'', ''sprint3_composition_test.zig''] @
     map ((@) ''../'') (filter (\<lambda>n. startswith n ''data/'') (map fst (ws_parent w)))"

text \<open>Python compares the entries as dictionaries, whatever order \<open>rglob\<close> listed them in; here they
  are kept in name order.\<close>

definition workspace_identity :: "(byte list \<Rightarrow> string) \<Rightarrow> workspace_tree \<Rightarrow> tree_identity" where
  "workspace_identity sha w =
     (let files = ws_files w @ map (\<lambda>(n, c). (''../'' @ n, c)) (ws_parent w);
          entries = sort_key fst (digest_entries sha files (workspace_names w)) in
      \<lparr>id_path = ws_path w, id_files = entries, id_count = length entries,
       id_sha = files_digest sha entries, id_git = None\<rparr>)"

text \<open>The compiler binary at \<open>path\<close> and what \<open>zig version\<close> answers.\<close>

record zig_world =
  zw_path :: string
  zw_binary :: "string option"
  zw_version :: "py_error + string"

record compiler =
  zc_path :: string
  zc_sha :: string
  zc_version :: string

definition compiler_identity :: "(byte list \<Rightarrow> string) \<Rightarrow> zig_world \<Rightarrow> py_error + compiler" where
  "compiler_identity sha z =
     (case zw_binary z of
        None \<Rightarrow> Inl (OSError (zw_path z))
      | Some c \<Rightarrow> zbind (zw_version z) (\<lambda>v.
          Inr \<lparr>zc_path = zw_path z, zc_sha = sha (bytes_of c), zc_version = v\<rparr>))"

text \<open>The file system at one moment, by resolved path, whether the git commands of \<open>identity\<close>
  succeed in a directory, and the paths of a run.\<close>

record capture_world =
  cw_tree :: "string \<Rightarrow> source"
  cw_workspace :: "string \<Rightarrow> workspace_tree"
  cw_zig :: "string \<Rightarrow> zig_world"
  cw_git :: "string \<Rightarrow> py_error + unit"

record run_paths =
  pa_workspace :: string
  pa_qmsg :: string
  pa_qmesh :: string
  pa_quic :: string
  pa_zig :: string

definition tree_at :: "capture_world \<Rightarrow> string \<Rightarrow> source" where
  "tree_at w p = (cw_tree w p)\<lparr>src_path := p\<rparr>"

definition workspace_at :: "capture_world \<Rightarrow> string \<Rightarrow> workspace_tree" where
  "workspace_at w p = (cw_workspace w p)\<lparr>ws_path := p\<rparr>"

definition zig_at :: "capture_world \<Rightarrow> string \<Rightarrow> zig_world" where
  "zig_at w p = (cw_zig w p)\<lparr>zw_path := p\<rparr>"

record captured =
  cp_qmsg :: tree_identity
  cp_qmesh :: tree_identity
  cp_quic :: tree_identity
  cp_workspace :: tree_identity
  cp_compiler :: compiler

definition identity_at :: "(byte list \<Rightarrow> string) \<Rightarrow> capture_world \<Rightarrow> string \<Rightarrow> py_error + tree_identity" where
  "identity_at sha w p =
     (if src_git (tree_at w p) = None then Inr (identity sha (tree_at w p))
      else zbind (cw_git w p) (\<lambda>_. Inr (identity sha (tree_at w p))))"

definition capture_state :: "(byte list \<Rightarrow> string) \<Rightarrow> run_paths \<Rightarrow> capture_world \<Rightarrow> py_error + captured" where
  "capture_state sha p w =
     zbind (identity_at sha w (pa_qmsg p)) (\<lambda>qmsg.
     zbind (identity_at sha w (pa_qmesh p)) (\<lambda>qmesh.
     zbind (identity_at sha w (pa_quic p)) (\<lambda>quic.
     zbind (compiler_identity sha (zig_at w (pa_zig p))) (\<lambda>z.
     Inr \<lparr>cp_qmsg = qmsg, cp_qmesh = qmesh, cp_quic = quic,
          cp_workspace = workspace_identity sha (workspace_at w (pa_workspace p)), cp_compiler = z\<rparr>))))"

definition compact_state :: "captured \<Rightarrow> (string \<times> compact_identity) list \<times> compiler" where
  "compact_state s =
     ([(''qmsg'', compact (cp_qmsg s)), (''qmesh'', compact (cp_qmesh s)), (''quic'', compact (cp_quic s)),
       (''workspace'', compact (cp_workspace s))], cp_compiler s)"

subsection \<open>Reading the manifests\<close>

text \<open>\<open>\.NAME\s*=\s*\.\{\s*\<close>, the start of a dependency entry\<close>

definition dependency_toks :: "tok list \<Rightarrow> tok list" where
  "dependency_toks name = name @ [Spaces, Lit ''='', Spaces, Lit ''.{'', Spaces]"

text \<open>\<open>\.KEY\s*=\s*"([^"]+)"\<close>\<close>

definition field_toks :: "string \<Rightarrow> tok list" where
  "field_toks key = [Lit (CHR ''.'' # key), Spaces, Lit ''='', Spaces, Lit [quote], NoQuotes, Lit [quote]]"

definition local_toks :: "string \<Rightarrow> tok list" where
  "local_toks name = dependency_toks [Lit (CHR ''.'' # name)] @ field_toks ''path'' @ [Spaces, AnyOf '',}'']"

definition pin_toks :: "tok list \<Rightarrow> tok list" where
  "pin_toks name = dependency_toks name @ field_toks ''url'' @ [Spaces, Lit '','', Spaces] @ field_toks ''hash''"

text \<open>\<open>resolve p\<close> is \<open>(workspace / p).resolve(strict=True)\<close>.\<close>

definition local_dependency :: "string \<Rightarrow> string \<Rightarrow> (string \<Rightarrow> py_error + string) \<Rightarrow> py_error + string" where
  "local_dependency manifest name resolve =
     (case re_search (local_toks name) manifest of
        Some (p # _) \<Rightarrow> resolve p
      | _ \<Rightarrow> Inl (ValueError (''workspace dependency '' @ name @ '' must select an explicit frozen local path'')))"

type_synonym package_pin = "string \<times> string"    \<comment> \<open>url and hash\<close>

definition read_file :: "file_map \<Rightarrow> string \<Rightarrow> py_error + string" where
  "read_file files name = (case map_of files name of Some c \<Rightarrow> Inr c | None \<Rightarrow> Inl (OSError name))"

definition pin :: "source \<Rightarrow> string \<Rightarrow> py_error + package_pin" where
  "pin s name =
     zbind (read_file (src_files s) ''build.zig.zon'') (\<lambda>doc.
     case re_search (pin_toks [Lit (CHR ''.'' # name)]) doc of
       Some [url, hash] \<Rightarrow> Inr (url, hash)
     | _ \<Rightarrow> Inl (ValueError (src_path s @ '' must retain its released '' @ name @ '' URL/hash pin'')))"

subsection \<open>Arguments\<close>

record composition_args =
  ca_absolute :: bool          \<comment> \<open>\<open>args.workspace.is_absolute()\<close>\<close>
  ca_system :: string          \<comment> \<open>\<open>platform.system()\<close>\<close>
  ca_wait4 :: bool             \<comment> \<open>\<open>hasattr(os, "wait4")\<close>\<close>
  ca_jobs :: int
  ca_watchdog :: int
  ca_publications :: int
  ca_payload :: int

definition composition_usage :: "composition_args \<Rightarrow> string option" where
  "composition_usage a =
     (if \<not> ca_absolute a then Some ''--workspace must be an absolute path''
      else if ca_system a \<notin> {''Darwin'', ''Linux''} \<or> \<not> ca_wait4 a
      then Some ''native Darwin/Linux with wait4 is required''
      else if \<not> (1 \<le> ca_jobs a \<and> ca_jobs a \<le> 2) \<or> \<not> (1 \<le> ca_watchdog a \<and> ca_watchdog a \<le> 120)
      then Some ''jobs must be 1..2 and watchdog-seconds must be 1..120''
      else if \<not> (16 \<le> ca_publications a \<and> ca_publications a \<le> 100000) \<or>
              \<not> (1 \<le> ca_payload a \<and> ca_payload a \<le> 2048)
      then Some ''pubsub-publications must be 16..100000 and pubsub-payload-bytes must be 1..2048''
      else None)"

subsection \<open>The checks before the builds\<close>

text \<open>How the arguments and the paths in the manifest resolve (a missing one raises), where the
  compiler is found, and the file system at this moment.\<close>

record input_world =
  iw_workspace :: "py_error + string"
  iw_qmsg :: "py_error + string"
  iw_qmesh :: "py_error + string"
  iw_quic :: "(py_error + string) option"
  iw_resolve :: "string \<Rightarrow> py_error + string"
  iw_which :: "string option"
  iw_zig :: "string \<Rightarrow> py_error + string"
  iw_now :: capture_world

text \<open>Before the report exists an error is \<open>parser.error\<close> or an uncaught exception.\<close>

datatype refusal = Usage string | Uncaught_Error py_error

definition uncaught :: "py_error + 'a \<Rightarrow> refusal + 'a" where
  "uncaught r = (case r of Inl err \<Rightarrow> Inl (Uncaught_Error err) | Inr v \<Rightarrow> Inr v)"

definition package_path :: "capture_world \<Rightarrow> string \<Rightarrow> py_error + string \<Rightarrow> refusal + string" where
  "package_path w name arg =
     zbind (uncaught arg) (\<lambda>p.
     if map_of (src_files (tree_at w p)) ''build.zig.zon'' = None
     then Inl (Usage (name @ '' must identify an explicit source package'')) else Inr p)"

text \<open>The resolved workspace, qmsg and qmesh directories.\<close>

definition argument_paths :: "input_world \<Rightarrow> refusal + (string \<times> string \<times> string)" where
  "argument_paths w =
     zbind (uncaught (iw_workspace w)) (\<lambda>ws.
     zbind (package_path (iw_now w) ''qmsg-path'' (iw_qmsg w)) (\<lambda>qmsg.
     zbind (package_path (iw_now w) ''qmesh-path'' (iw_qmesh w)) (\<lambda>qmesh.
     if list_all (\<lambda>n. map_of (ws_files (workspace_at (iw_now w) ws)) n \<noteq> None) [''build.zig'', ''build.zig.zon'']
     then Inr (ws, qmsg, qmesh) else Inl (Usage ''workspace must contain build.zig and build.zig.zon''))))"

definition same_path :: "string \<Rightarrow> string \<Rightarrow> string \<Rightarrow> py_error + unit" where
  "same_path name resolved arg =
     py_raise (resolved \<noteq> arg) (''workspace '' @ name @ '' path '' @ resolved @ '' differs from explicit input'')"

definition find_zig :: "input_world \<Rightarrow> py_error + string" where
  "find_zig w =
     zbind (py_raise (iw_which w = None \<or> iw_which w = Some [])
              ''zig must be available in PATH (use the pinned mise toolchain)'') (\<lambda>_.
     iw_zig w (the (iw_which w)))"

text \<open>The start of the \<open>try\<close> block: the paths of the run and the pin of the native lane.\<close>

definition select_inputs :: "input_world \<Rightarrow> string \<times> string \<times> string \<Rightarrow> py_error + (run_paths \<times> package_pin)" where
  "select_inputs w args =
     (case args of (ws, qmsg, qmesh) \<Rightarrow>
     zbind (read_file (ws_files (workspace_at (iw_now w) ws)) ''build.zig.zon'') (\<lambda>manifest.
     zbind (local_dependency manifest ''qmsg'' (iw_resolve w)) (\<lambda>p.
     zbind (same_path ''qmsg'' p qmsg) (\<lambda>_.
     zbind (local_dependency manifest ''qmesh'' (iw_resolve w)) (\<lambda>p.
     zbind (same_path ''qmesh'' p qmesh) (\<lambda>_.
     zbind (local_dependency manifest ''quic'' (iw_resolve w)) (\<lambda>quic.
     zbind (case iw_quic w of None \<Rightarrow> Inr () | Some arg \<Rightarrow> zbind arg (\<lambda>q.
              py_raise (q \<noteq> quic) ''--quic-path differs from the selected workspace dependency'')) (\<lambda>_.
     zbind (py_raise (map_of (src_files (tree_at (iw_now w) quic)) ''build.zig.zon'' = None)
              ''selected QUIC must be a source package'') (\<lambda>_.
     zbind (pin (tree_at (iw_now w) qmsg) ''quic'') (\<lambda>a.
     zbind (pin (tree_at (iw_now w) qmesh) ''quic'') (\<lambda>b.
     zbind (py_raise (a \<noteq> b \<or> \<not> endswith (fst a) ''/v0.37.2.tar.gz'')
              ''native lane requires both consumers' unchanged matching v0.37.2 URL/hash pins'') (\<lambda>_.
     zbind (find_zig w) (\<lambda>zig.
     Inr (\<lparr>pa_workspace = ws, pa_qmsg = qmsg, pa_qmesh = qmesh, pa_quic = quic, pa_zig = zig\<rparr>, a))))))))))))))"

definition check_version :: "captured \<Rightarrow> py_error + unit" where
  "check_version s = py_raise (zc_version (cp_compiler s) \<noteq> ''0.17.0'') ''stock Zig 0.17.0 is required''"

end
