(* ===== verification/Py_Stats.thy ===== *)
theory Py_Stats
  imports Py_Files
begin

text \<open>
  What the profiling tools share: decimal text of integers, result lines in a log, loops that
  append a row to the report in each iteration and may stop in the middle, and
  \<open>statistics.median\<close>.
\<close>

subsection \<open>\<open>str\<close> of an integer\<close>

fun nat_str :: "nat \<Rightarrow> string" where
  "nat_str n = (if n < 10 then [''0123456789'' ! n] else nat_str (n div 10) @ [''0123456789'' ! (n mod 10)])"

declare nat_str.simps [simp del]

definition py_str_int :: "int \<Rightarrow> string" where
  "py_str_int n = (if n < 0 then ''-'' @ nat_str (nat (- n)) else nat_str (nat n))"

text \<open>\<open>str(b).lower()\<close>\<close>

definition lower_bool :: "bool \<Rightarrow> string" where
  "lower_bool b = (if b then ''true'' else ''false'')"

subsection \<open>Result lines and report rows\<close>

text \<open>The lines of a log that start with the marker, without it.\<close>

definition marked_lines :: "string \<Rightarrow> string \<Rightarrow> string list" where
  "marked_lines marker doc = map (drop (length marker)) (filter (\<lambda>line. startswith line marker) (splitlines doc))"

text \<open>Each iteration may append a row and may stop the loop; a row appended before that stays.\<close>

fun collect_rows ::
  "('k \<Rightarrow> 'r option \<times> ('e + unit)) \<Rightarrow> 'k list \<Rightarrow> 'r list \<times> ('e + unit)" where
  "collect_rows step [] = ([], Inr ())"
| "collect_rows step (k # ks) =
     (case step k of
        (row, Inl err) \<Rightarrow> (case row of None \<Rightarrow> [] | Some r \<Rightarrow> [r], Inl err)
      | (row, Inr _) \<Rightarrow> (case collect_rows step ks of (rows, outcome) \<Rightarrow>
          ((case row of None \<Rightarrow> rows | Some r \<Rightarrow> r # rows), outcome)))"

subsection \<open>The median\<close>

text \<open>Numbers and strings can be sorted, a mixture cannot; a single element is never compared.
  Sorting lists, which Python would compare element by element, is left out.\<close>

definition json_text :: "json \<Rightarrow> string option" where
  "json_text v = (case v of JStr s \<Rightarrow> Some s | _ \<Rightarrow> None)"

definition py_sorted :: "json list \<Rightarrow> py_error + json list" where
  "py_sorted xs =
     (if length xs \<le> 1 then Inr xs
      else if list_all (\<lambda>v. py_num v \<noteq> None) xs then Inr (sort_key (\<lambda>v. the (py_num v)) xs)
      else if list_all (\<lambda>v. json_text v \<noteq> None) xs then Inr (sort_key (\<lambda>v. the (json_text v)) xs)
      else Inl TypeError)"

text \<open>The average of the two middle elements is exact here.\<close>

definition py_median :: "json list \<Rightarrow> py_error + json" where
  "py_median xs =
     zbind (py_sorted xs) (\<lambda>ys.
     let n = length ys in
     if n = 0 then Inl (ValueError ''no median for empty data'')
     else if odd n then Inr (ys ! (n div 2))
     else case (py_num (ys ! (n div 2 - 1)), py_num (ys ! (n div 2))) of
            (Some a, Some b) \<Rightarrow> Inr (JFloat ((a + b) / 2))
          | _ \<Rightarrow> Inl TypeError)"

text \<open>A number among the given ones with more than half of them at or below it, and more than half
  at or above it.\<close>

definition middle :: "json list \<Rightarrow> json \<Rightarrow> bool" where
  "middle vs m \<longleftrightarrow> m \<in> set vs \<and>
     length vs < 2 * length (filter (\<lambda>v. the (py_num v) \<le> the (py_num m)) vs) \<and>
     length vs < 2 * length (filter (\<lambda>v. the (py_num m) \<le> the (py_num v)) vs)"

text \<open>\<open>{field: statistics.median(row[field] for row in rows) for field in names}\<close>\<close>

definition medians ::
  "('r \<Rightarrow> string \<Rightarrow> py_error + json) \<Rightarrow> 'r list \<Rightarrow> string list \<Rightarrow> py_error + (string \<times> json) list" where
  "medians get rows names =
     mapE (\<lambda>f. zbind (mapE (\<lambda>row. get row f) rows) (\<lambda>vs. zbind (py_median vs) (\<lambda>m. Inr (f, m)))) names"

subsection \<open>Lemmas\<close>

lemma collect_rows_Inr:
  "snd (collect_rows step ks) = Inr () \<longleftrightarrow> (\<forall>k\<in>set ks. snd (step k) = Inr ())"
  "snd (collect_rows step ks) = Inr () \<Longrightarrow> fst (collect_rows step ks) = List.map_filter (fst \<circ> step) ks"
  by (induction ks) (auto simp: map_filter_simps split: prod.splits sum.splits option.splits)


lemma length_filter_ge:
  assumes "A \<subseteq> {i. i < length xs}" "\<And>i. i \<in> A \<Longrightarrow> P (xs ! i)"
  shows "card A \<le> length (filter P xs)"
  unfolding length_filter_conv_card using assms by (intro card_mono) auto

lemma length_filter_sort_key: "length (filter P (sort_key f xs)) = length (filter P xs)"
proof -
  have "length (filter P (insort_key f x ys)) = length (filter P (x # ys))" for x ys
    by (induction ys) auto
  then show ?thesis by (induction xs) (simp_all add: sort_key_simps)
qed

text \<open>The median of an odd number of numbers is one of them, with as many at or below it as at or
  above it.\<close>

lemma py_median_odd:
  assumes "odd (length xs)" "list_all (\<lambda>v. py_num v \<noteq> None) xs"
  shows "\<exists>m. py_median xs = Inr m \<and> middle xs m"
proof -
  let ?f = "\<lambda>v. the (py_num v)"
  define ys where "ys = (if length xs \<le> 1 then xs else sort_key ?f xs)"
  define k where "k = length xs div 2"
  have len: "length ys = length xs" and set: "set ys = set xs"
    by (simp_all add: ys_def)
  have cnt: "length (filter P ys) = length (filter P xs)" for P
    by (simp add: ys_def length_filter_sort_key)
  have sorted: "sorted (map ?f ys)"
  proof (cases "length xs \<le> 1")
    case True
    then show ?thesis by (cases xs) (auto simp: ys_def)
  qed (simp add: ys_def)
  have k: "k < length ys" "length xs = 2 * k + 1" using assms(1) len by (auto simp: k_def elim: oddE)
  have s: "py_sorted xs = Inr ys" using assms(2) by (simp add: py_sorted_def ys_def)
  have m: "py_median xs = Inr (ys ! k)"
  proof -
    have "odd (length ys)" "length ys \<noteq> 0" "length ys div 2 = k" using assms(1) len by (auto simp: k_def)
    then show ?thesis unfolding py_median_def s zbind_Inr Let_def by simp
  qed
  have mono: "?f (ys ! i) \<le> ?f (ys ! j)" if "i \<le> j" "j < length ys" for i j
    using sorted_nth_mono [OF sorted, of i j] that by simp
  have "card {0..k} \<le> length (filter (\<lambda>v. ?f v \<le> ?f (ys ! k)) ys)"
    by (rule length_filter_ge) (use k mono in auto)
  moreover have "card {k..<length ys} \<le> length (filter (\<lambda>v. ?f (ys ! k) \<le> ?f v) ys)"
    by (rule length_filter_ge) (use mono in auto)
  ultimately show ?thesis
    unfolding cnt middle_def using m k len nth_mem [OF k(1)] set by (intro exI [of _ "ys ! k"]) simp_all
qed

lemma medians_ok:
  assumes "\<forall>f\<in>set names. \<forall>r\<in>set rows. \<exists>v. get r f = Inr v \<and> py_num v \<noteq> None" "odd (length rows)"
  shows "\<exists>ms. medians get rows names = Inr ms \<and>
    (\<forall>f\<in>set names. \<exists>vs m. mapE (\<lambda>row. get row f) rows = Inr vs \<and> map_of ms f = Some m \<and> middle vs m)"
  using assms(1)
proof (induction names)
  case (Cons f names)
  then have "\<forall>r\<in>set rows. \<exists>v. get r f = Inr v \<and> py_num v \<noteq> None" by simp
  then obtain v where v: "\<And>r. r \<in> set rows \<Longrightarrow> get r f = Inr (v r) \<and> py_num (v r) \<noteq> None" by metis
  then have vs: "mapE (\<lambda>row. get row f) rows = Inr (map v rows)" by (intro mapE_total) blast
  have "list_all (\<lambda>v. py_num v \<noteq> None) (map v rows)" using v by (auto simp: list_all_iff)
  then obtain m where m: "py_median (map v rows) = Inr m" "middle (map v rows) m"
    using py_median_odd [of "map v rows"] assms(2) by auto
  obtain ms where "medians get rows names = Inr ms"
    "\<forall>f\<in>set names. \<exists>vs m. mapE (\<lambda>row. get row f) rows = Inr vs \<and> map_of ms f = Some m \<and> middle vs m"
    using Cons by auto
  with vs m show ?case by (intro exI [of _ "(f, m) # ms"]) (auto simp: medians_def)
qed (simp add: medians_def)

end
