(* ===== verification/Composition_Run.thy ===== *)
theory Composition_Run
  imports Composition Composition_Inputs Py_Stats
begin

text \<open>
  The run of \<open>src/tools/profile-composition.py\<close>: the two builds, the twelve samples in
  alternating order, the medians, and \<open>main\<close> with its final capture, verdict and exit code.
  What the processes and the file system do is given by records of answers.
\<close>

subsection \<open>Answers of the outside world\<close>

text \<open>A child that \<open>run_child\<close> waited for.\<close>

record child_world =
  ch_watch :: watch
  ch_usage :: rusage
  ch_wall :: rat

record build_world =
  bw_child :: child_world
  bw_binary :: "string \<Rightarrow> string option"    \<comment> \<open>path to content\<close>
  bw_after :: capture_world

record sample_world =
  sw_before :: "string option"               \<comment> \<open>the binary before and after the run\<close>
  sw_child :: child_world
  sw_after :: "string option"
  sw_log :: string

type_synonym sample_key = "nat \<times> string \<times> string"    \<comment> \<open>sample, workload and lane\<close>

record composition_env =
  ce_inputs :: input_world
  ce_fresh :: bool                           \<comment> \<open>the output directory did not exist\<close>
  ce_output :: string
  ce_first :: capture_world
  ce_build :: "string \<Rightarrow> build_world"
  ce_ps_before :: "py_error + unit"
  ce_sample :: "sample_key \<Rightarrow> sample_world"
  ce_ps_after :: "py_error + unit"
  ce_last :: capture_world
  ce_loads :: "string \<Rightarrow> py_error + json"     \<comment> \<open>\<open>json.loads\<close>\<close>

subsection \<open>Builds\<close>

definition lanes :: "string list" where
  "lanes = [''native'', ''selected'']"

text \<open>Workload, file name of its binary and marker of its result line.\<close>

definition workloads :: "(string \<times> string \<times> string) list" where
  "workloads = [(''pubsub'', ''qmsg-pubsub-workload'', ''PUBSUB_WORKLOAD ''),
     (''recovery'', ''qmesh-snapshot-recovery'', ''RECOVERY_WORKLOAD '')]"

definition marker_of :: "string \<Rightarrow> string" where
  "marker_of w = (case map_of workloads w of Some (_, m) \<Rightarrow> m | None \<Rightarrow> [])"

record binary_info =
  bi_path :: string
  bi_sha :: string
  bi_bytes :: nat

record build_row =
  bu_lane :: string
  bu_command :: "string list"
  bu_log :: string
  bu_returncode :: "int option"
  bu_timed_out :: "bool option"
  bu_binaries :: "(string \<times> binary_info) list"
  bu_after :: "((string \<times> compact_identity) list \<times> compiler) option"
  bu_unchanged :: "bool option"

definition install_prefix :: "string \<Rightarrow> string \<Rightarrow> string" where
  "install_prefix output lane = output @ ''/install-'' @ lane"

definition build_command :: "string \<Rightarrow> int \<Rightarrow> string \<Rightarrow> string \<Rightarrow> string list" where
  "build_command zig jobs output lane =
     [zig, ''build'', ''install-workloads'', ''-Doptimize=ReleaseSafe'',
      ''-Dlocal-quic='' @ lower_bool (lane = ''selected''), ''-j'' @ py_str_int jobs,
      ''--prefix'', install_prefix output lane, ''--summary'', ''all'']"

fun collect_binaries ::
  "(byte list \<Rightarrow> string) \<Rightarrow> string \<Rightarrow> (string \<Rightarrow> string option) \<Rightarrow> (string \<times> string \<times> string) list \<Rightarrow>
   (string \<times> binary_info) list \<times> (py_error + unit)" where
  "collect_binaries sha prefix read [] = ([], Inr ())"
| "collect_binaries sha prefix read ((w, filename, _) # ws) =
     (let path = prefix @ ''/bin/'' @ filename in
      case read path of None \<Rightarrow> ([], Inl (OSError path))
      | Some c \<Rightarrow> (case collect_binaries sha prefix read ws of (bs, outcome) \<Rightarrow>
          ((w, \<lparr>bi_path = path, bi_sha = sha (bytes_of c), bi_bytes = length c\<rparr>) # bs, outcome)))"

text \<open>One iteration of the build loop: the row as far as it was filled in, and the outcome.\<close>

definition build_lane ::
  "(byte list \<Rightarrow> string) \<Rightarrow> composition_args \<Rightarrow> composition_env \<Rightarrow> run_paths \<Rightarrow> captured \<Rightarrow> string \<Rightarrow>
   build_row \<times> (py_error + unit)" where
  "build_lane sha a e p before lane =
     (let b = ce_build e lane; child = bw_child b;
          row = \<lparr>bu_lane = lane, bu_command = build_command (pa_zig p) (ca_jobs a) (ce_output e) lane,
                 bu_log = lane @ ''-build.log'', bu_returncode = None, bu_timed_out = None,
                 bu_binaries = [], bu_after = None, bu_unchanged = None\<rparr>
      in case run_child (ca_system a = ''Darwin'') 900 (ch_watch child) (ch_usage child) (ch_wall child) of
        Inl err \<Rightarrow> (row, Inl err)
      | Inr built \<Rightarrow>
        let row = row\<lparr>bu_returncode := Some (cr_returncode built), bu_timed_out := Some (cr_timed_out built)\<rparr> in
        if cr_timed_out built
        then (row, Inl (RuntimeError (lane @ '' build exceeded its external 900-second setup limit'')))
        else if cr_returncode built \<noteq> 0
        then (row, Inl (RuntimeError (lane @ '' build failed; see '' @ bu_log row)))
        else case collect_binaries sha (install_prefix (ce_output e) lane) (bw_binary b) workloads of
          (bs, Inl err) \<Rightarrow> (row\<lparr>bu_binaries := bs\<rparr>, Inl err)
        | (bs, Inr _) \<Rightarrow> (case capture_state sha p (bw_after b) of
            Inl err \<Rightarrow> (row\<lparr>bu_binaries := bs\<rparr>, Inl err)
          | Inr state \<Rightarrow>
              (row\<lparr>bu_binaries := bs, bu_after := Some (compact_state state), bu_unchanged := Some (state = before)\<rparr>,
               if state \<noteq> before
               then Inl (RuntimeError ''source/compiler/workspace inputs changed during build; timed runs refused'')
               else Inr ())))"

fun run_builds :: "(string \<Rightarrow> build_row \<times> (py_error + unit)) \<Rightarrow> string list \<Rightarrow> build_row list \<times> (py_error + unit)" where
  "run_builds build [] = ([], Inr ())"
| "run_builds build (lane # ls) =
     (case build lane of
        (row, Inl err) \<Rightarrow> ([row], Inl err)
      | (row, Inr _) \<Rightarrow> (case run_builds build ls of (rows, outcome) \<Rightarrow> (row # rows, outcome)))"

subsection \<open>Samples\<close>

text \<open>Odd samples run the lanes in order, even ones reversed.\<close>

definition lane_order :: "nat \<Rightarrow> string list" where
  "lane_order sample = (if sample mod 2 \<noteq> 0 then lanes else rev lanes)"

definition schedule :: "sample_key list" where
  "schedule = concat (map (\<lambda>s. concat (map (\<lambda>(w, _). map (\<lambda>l. (s, w, l)) (lane_order s)) workloads)) [1..<4])"

record sample_row =
  sm_key :: sample_key
  sm_command :: "string list"
  sm_overrides :: "(string \<times> string) list"
  sm_log :: string
  sm_sha :: string
  sm_child :: "child_result option"
  sm_unchanged :: "bool option"
  sm_records :: "nat option"
  sm_json :: "json option"
  sm_checks :: "(string \<times> bool) list option"
  sm_error :: "py_error option"              \<comment> \<open>\<open>validation_error\<close>\<close>
  sm_passed :: bool

definition built_binary :: "build_row list \<Rightarrow> string \<Rightarrow> string \<Rightarrow> py_error + binary_info" where
  "built_binary builds lane w =
     (case filter (\<lambda>row. bu_lane row = lane) builds of [] \<Rightarrow> Inl StopIteration
      | row # _ \<Rightarrow> (case map_of (bu_binaries row) w of None \<Rightarrow> Inl (KeyError w) | Some b \<Rightarrow> Inr b))"

definition sample_command :: "composition_args \<Rightarrow> string \<Rightarrow> string \<Rightarrow> string list" where
  "sample_command a w path =
     [path] @ (if w = ''pubsub'' then [''--publications'', py_str_int (ca_publications a),
       ''--payload-bytes'', py_str_int (ca_payload a), ''--timeout-ms'', ''10000''] else [])"

definition sample_name :: "string \<Rightarrow> sample_key \<Rightarrow> string" where
  "sample_name sep k = (case k of (s, w, l) \<Rightarrow> w @ sep @ l @ sep @ nat_str s)"

text \<open>\<open>except (ValueError, TypeError)\<close>\<close>

definition caught :: "py_error \<Rightarrow> bool" where
  "caught err = (case err of ValueError _ \<Rightarrow> True | TypeError \<Rightarrow> True | _ \<Rightarrow> False)"

definition read_record ::
  "(string \<Rightarrow> py_error + json) \<Rightarrow> string \<Rightarrow> int \<Rightarrow> string list \<Rightarrow> sample_row \<Rightarrow> sample_row \<times> (py_error + unit)" where
  "read_record loads w publications lines row =
     (case lines of
        [line] \<Rightarrow> (case loads line of
            Inl err \<Rightarrow> if caught err then (row\<lparr>sm_error := Some err\<rparr>, Inr ()) else (row, Inl err)
          | Inr j \<Rightarrow> let row = row\<lparr>sm_json := Some j\<rparr> in
              (case validate w j publications of
                 Inl err \<Rightarrow> if caught err then (row\<lparr>sm_error := Some err\<rparr>, Inr ()) else (row, Inl err)
               | Inr cs \<Rightarrow> (row\<lparr>sm_checks := Some cs\<rparr>, Inr ())))
      | _ \<Rightarrow> (row, Inr ()))"

definition row_passes :: "sample_row \<Rightarrow> bool" where
  "row_passes row \<longleftrightarrow>
     (case sm_child row of None \<Rightarrow> False | Some r \<Rightarrow> cr_returncode r = 0 \<and> \<not> cr_timed_out r) \<and>
     sm_unchanged row = Some True \<and> sm_records row = Some 1 \<and>
     (case sm_checks row of None \<Rightarrow> False | Some cs \<Rightarrow> cs \<noteq> [] \<and> all_pass cs)"

text \<open>One iteration of the sample loop: the row it appended, if it got that far, and the outcome.\<close>

definition run_sample ::
  "(byte list \<Rightarrow> string) \<Rightarrow> composition_args \<Rightarrow> composition_env \<Rightarrow> build_row list \<Rightarrow> sample_key \<Rightarrow>
   sample_row option \<times> (py_error + unit)" where
  "run_sample sha a e builds k =
     (let (s, w, l) = k; sw = ce_sample e k; child = sw_child sw in
      case built_binary builds l w of
        Inl err \<Rightarrow> (None, Inl err)
      | Inr info \<Rightarrow> (case sw_before sw of
          None \<Rightarrow> (None, Inl (OSError (bi_path info)))
        | Some c \<Rightarrow>
          if sha (bytes_of c) \<noteq> bi_sha info
          then (None, Inl (RuntimeError ''installed binary changed before measurement''))
          else let row = \<lparr>sm_key = k, sm_command = sample_command a w (bi_path info),
                  sm_overrides = (if w = ''pubsub'' then [(''QMSG_RUN_LIVE_UDP'', ''1'')] else []),
                  sm_log = sample_name ''-'' k @ ''.log'', sm_sha = bi_sha info, sm_child = None,
                  sm_unchanged = None, sm_records = None, sm_json = None, sm_checks = None,
                  sm_error = None, sm_passed = False\<rparr>
          in case run_child (ca_system a = ''Darwin'') (ca_watchdog a) (ch_watch child) (ch_usage child) (ch_wall child) of
            Inl err \<Rightarrow> (Some row, Inl err)
          | Inr result \<Rightarrow> let row = row\<lparr>sm_child := Some result\<rparr> in
            (case sw_after sw of
               None \<Rightarrow> (Some row, Inl (OSError (bi_path info)))
             | Some c' \<Rightarrow>
               let lines = marked_lines (marker_of w) (sw_log sw);
                   row = row\<lparr>sm_unchanged := Some (sha (bytes_of c') = bi_sha info), sm_records := Some (length lines)\<rparr>
               in case read_record (ce_loads e) w (ca_publications a) lines row of
                 (row, Inl err) \<Rightarrow> (Some row, Inl err)
               | (row, Inr _) \<Rightarrow>
                   (Some (row\<lparr>sm_passed := row_passes row\<rparr>),
                    if row_passes row then Inr ()
                    else Inl (RuntimeError (sample_name ''/'' k @ '' failed correctness/watchdog; see '' @ sm_log row))))))"

subsection \<open>Medians\<close>

definition process_fields :: "string list" where
  "process_fields = [''process_wall_seconds'', ''process_user_seconds'', ''process_system_seconds'',
     ''process_cpu_seconds'', ''process_peak_rss_bytes'']"

definition app_fields :: "string \<Rightarrow> string list" where
  "app_fields w = (if w = ''pubsub'' then [''cold_handshake_us'', ''warm_elapsed_us''] else [''elapsed_us''])"

text \<open>\<open>row[field]\<close>, where \<open>row.update(run_child(...))\<close> put the fields, and
  \<open>row["workload"][field]\<close>\<close>

definition process_field :: "sample_row \<Rightarrow> string \<Rightarrow> py_error + json" where
  "process_field row field =
     (case sm_child row of None \<Rightarrow> Inl (KeyError field)
      | Some r \<Rightarrow> (case map_of (zip process_fields
            [JFloat (cr_wall r), JFloat (cr_user r), JFloat (cr_system r), JFloat (cr_cpu r), JInt (cr_rss_bytes r)]) field of
          None \<Rightarrow> Inl (KeyError field) | Some v \<Rightarrow> Inr v))"

definition workload_field :: "sample_row \<Rightarrow> string \<Rightarrow> py_error + json" where
  "workload_field row field =
     (case sm_json row of None \<Rightarrow> Inl (KeyError ''workload'') | Some j \<Rightarrow> py_index j field)"

record lane_summary =
  ls_samples :: nat
  ls_process :: "(string \<times> json) list"
  ls_application :: "(string \<times> json) list"

definition rows_of :: "sample_row list \<Rightarrow> string \<Rightarrow> string \<Rightarrow> sample_row list" where
  "rows_of rows w l = filter (\<lambda>row. fst (snd (sm_key row)) = w \<and> snd (snd (sm_key row)) = l) rows"

definition summarise_lane :: "sample_row list \<Rightarrow> string \<Rightarrow> string \<Rightarrow> py_error + lane_summary" where
  "summarise_lane rows w l =
     (let rs = rows_of rows w l in
      zbind (medians process_field rs process_fields) (\<lambda>p.
      zbind (medians workload_field rs (app_fields w)) (\<lambda>ap.
      Inr \<lparr>ls_samples = length rs, ls_process = p, ls_application = ap\<rparr>)))"

definition summarise :: "sample_row list \<Rightarrow> py_error + ((string \<times> string) \<times> lane_summary) list" where
  "summarise rows =
     mapE (\<lambda>(w, l). zbind (summarise_lane rows w l) (\<lambda>s. Inr ((w, l), s)))
       (List.product (map fst workloads) lanes)"

subsection \<open>The main function\<close>

record composition_report =
  rp_before :: "((string \<times> compact_identity) list \<times> compiler) option"
  rp_pin :: "package_pin option"             \<comment> \<open>of both consumers\<close>
  rp_quic :: "string option"
  rp_builds :: "build_row list"
  rp_after_builds :: bool
  rp_samples :: "sample_row list"
  rp_summary :: "((string \<times> string) \<times> lane_summary) list option"
  rp_measured :: bool
  rp_error :: "py_error option"
  rp_after :: "((string \<times> compact_identity) list \<times> compiler) option"
  rp_same_at_finish :: "bool option"
  rp_unchanged :: bool
  rp_final_error :: "py_error option"
  rp_passed :: bool

definition first_report :: composition_report where
  "first_report = \<lparr>rp_before = None, rp_pin = None, rp_quic = None, rp_builds = [], rp_after_builds = False,
     rp_samples = [], rp_summary = None, rp_measured = False, rp_error = None, rp_after = None,
     rp_same_at_finish = None, rp_unchanged = False, rp_final_error = None, rp_passed = False\<rparr>"

text \<open>The \<open>try\<close> block after the inputs are accepted.  A summary that fails half way is not kept
  here.\<close>

definition measure_lanes ::
  "(byte list \<Rightarrow> string) \<Rightarrow> composition_args \<Rightarrow> composition_env \<Rightarrow> run_paths \<Rightarrow> captured \<Rightarrow> composition_report \<Rightarrow>
   composition_report \<times> (py_error + unit)" where
  "measure_lanes sha a e p before r =
     (case run_builds (build_lane sha a e p before) lanes of (builds, built) \<Rightarrow>
      let r = r\<lparr>rp_builds := builds\<rparr> in
      case built of Inl err \<Rightarrow> (r, Inl err)
      | Inr _ \<Rightarrow> let r = r\<lparr>rp_after_builds := True\<rparr> in
      case ce_ps_before e of Inl err \<Rightarrow> (r, Inl err)
      | Inr _ \<Rightarrow> (case collect_rows (run_sample sha a e builds) schedule of (rows, sampled) \<Rightarrow>
      let r = r\<lparr>rp_samples := rows\<rparr> in
      case sampled of Inl err \<Rightarrow> (r, Inl err)
      | Inr _ \<Rightarrow>
      case ce_ps_after e of Inl err \<Rightarrow> (r, Inl err)
      | Inr _ \<Rightarrow>
      case summarise rows of Inl err \<Rightarrow> (r, Inl err)
      | Inr s \<Rightarrow> (r\<lparr>rp_summary := Some s, rp_measured := True\<rparr>, Inr ())))"

text \<open>The whole \<open>try\<close> block; \<open>before\<close> is set once the first capture succeeded.\<close>

definition composition_try ::
  "(byte list \<Rightarrow> string) \<Rightarrow> composition_args \<Rightarrow> composition_env \<Rightarrow> string \<times> string \<times> string \<Rightarrow>
   (run_paths \<times> captured) option \<times> composition_report \<times> (py_error + unit)" where
  "composition_try sha a e args =
     (case select_inputs (ce_inputs e) args of Inl err \<Rightarrow> (None, first_report, Inl err)
      | Inr (p, native) \<Rightarrow> (case capture_state sha p (ce_first e) of Inl err \<Rightarrow> (None, first_report, Inl err)
      | Inr before \<Rightarrow> (Some (p, before),
          case check_version before of Inl err \<Rightarrow> (first_report, Inl err)
          | Inr _ \<Rightarrow> measure_lanes sha a e p before
              (first_report\<lparr>rp_before := Some (compact_state before), rp_pin := Some native,
                rp_quic := Some (pa_quic p)\<rparr>))))"

text \<open>The \<open>except BaseException\<close> and \<open>finally\<close> clauses.\<close>

definition composition_finish ::
  "(byte list \<Rightarrow> string) \<Rightarrow> composition_env \<Rightarrow>
   (run_paths \<times> captured) option \<times> composition_report \<times> (py_error + unit) \<Rightarrow> composition_report" where
  "composition_finish sha e t =
     (case t of (start, r, outcome) \<Rightarrow>
      let r = (case outcome of Inl err \<Rightarrow> r\<lparr>rp_error := Some err\<rparr> | Inr _ \<Rightarrow> r);
          r = (case start of None \<Rightarrow> r
               | Some (p, before) \<Rightarrow> (case capture_state sha p (ce_last e) of
                   Inl err \<Rightarrow> r\<lparr>rp_final_error := Some err, rp_unchanged := False\<rparr>
                 | Inr after \<Rightarrow> r\<lparr>rp_after := Some (compact_state after), rp_same_at_finish := Some (after = before),
                     rp_unchanged := (after = before \<and> list_all (\<lambda>row. bu_unchanged row \<noteq> Some False) (rp_builds r))\<rparr>))
      in r\<lparr>rp_passed := (rp_measured r \<and> rp_unchanged r \<and> rp_error r = None)\<rparr>)"

datatype composition_end = Not_Started refusal | Finished int composition_report

definition composition_main ::
  "(byte list \<Rightarrow> string) \<Rightarrow> composition_args \<Rightarrow> composition_env \<Rightarrow> composition_end" where
  "composition_main sha a e =
     (case composition_usage a of Some msg \<Rightarrow> Not_Started (Usage msg)
      | None \<Rightarrow> (case argument_paths (ce_inputs e) of Inl refused \<Rightarrow> Not_Started refused
      | Inr args \<Rightarrow>
        if \<not> ce_fresh e then Not_Started (Uncaught_Error (OSError (ce_output e)))
        else let r = composition_finish sha e (composition_try sha a e args) in
             Finished (if rp_passed r then 0 else 1) r))"

subsection \<open>Good evidence\<close>

definition child_ok :: "child_world \<Rightarrow> bool" where
  "child_ok c \<longleftrightarrow> w_error (ch_watch c) = None \<and> \<not> w_timed_out (ch_watch c) \<and>
     exit_code (child_status (w_child (ch_watch c))) = 0"

definition binary_path :: "string \<Rightarrow> string \<Rightarrow> string \<Rightarrow> string" where
  "binary_path output lane w = install_prefix output lane @ ''/bin/'' @ fst (the (map_of workloads w))"

definition good_build :: "(byte list \<Rightarrow> string) \<Rightarrow> composition_env \<Rightarrow> run_paths \<Rightarrow> captured \<Rightarrow> string \<Rightarrow> bool" where
  "good_build sha e p before lane \<longleftrightarrow>
     child_ok (bw_child (ce_build e lane)) \<and>
     list_all (\<lambda>w. bw_binary (ce_build e lane) (binary_path (ce_output e) lane w) \<noteq> None) (map fst workloads) \<and>
     capture_state sha p (bw_after (ce_build e lane)) = Inr before"

definition good_sample :: "(byte list \<Rightarrow> string) \<Rightarrow> composition_args \<Rightarrow> composition_env \<Rightarrow> sample_key \<Rightarrow> bool" where
  "good_sample sha a e k \<longleftrightarrow>
     (case k of (s, w, l) \<Rightarrow>
       let built = map_option (\<lambda>c. sha (bytes_of c)) (bw_binary (ce_build e l) (binary_path (ce_output e) l w));
           sw = ce_sample e k
       in built \<noteq> None \<and> map_option (\<lambda>c. sha (bytes_of c)) (sw_before sw) = built \<and> child_ok (sw_child sw) \<and>
          map_option (\<lambda>c. sha (bytes_of c)) (sw_after sw) = built \<and>
          (\<exists>line j cs. marked_lines (marker_of w) (sw_log sw) = [line] \<and> ce_loads e line = Inr j \<and>
             validate w j (ca_publications a) = Inr cs \<and> all_pass cs))"

subsection \<open>Lemmas\<close>

lemma run_builds_Inr:
  "snd (run_builds build ls) = Inr () \<longleftrightarrow> (\<forall>l\<in>set ls. snd (build l) = Inr ())"
  "snd (run_builds build ls) = Inr () \<Longrightarrow> fst (run_builds build ls) = map (fst \<circ> build) ls"
  by (induction ls) (auto split: prod.splits sum.splits)

lemma build_lane_good:
  "snd (build_lane sha a e p before lane) = Inr () \<longleftrightarrow> good_build sha e p before lane"
  by (auto simp: build_lane_def Let_def run_child_def good_build_def child_ok_def workloads_def binary_path_def
      split: sum.splits prod.splits if_splits option.splits)

lemma build_lane_row:
  assumes "good_build sha e p before lane"
  shows "bu_lane (fst (build_lane sha a e p before lane)) = lane"
    "bu_unchanged (fst (build_lane sha a e p before lane)) = Some True"
    "w \<in> set (map fst workloads) \<Longrightarrow> \<exists>info c. map_of (bu_binaries (fst (build_lane sha a e p before lane))) w = Some info \<and>
       bw_binary (ce_build e lane) (binary_path (ce_output e) lane w) = Some c \<and> bi_sha info = sha (bytes_of c)"
  using assms
  by (auto simp: build_lane_def Let_def run_child_def good_build_def child_ok_def workloads_def binary_path_def
      split: sum.splits prod.splits if_splits option.splits)

lemma built_binary_good:
  assumes "\<forall>l\<in>set lanes. good_build sha e p before l" "l \<in> set lanes" "w \<in> set (map fst workloads)"
  shows "\<exists>info c. built_binary (map (fst \<circ> build_lane sha a e p before) lanes) l w = Inr info \<and>
    bw_binary (ce_build e l) (binary_path (ce_output e) l w) = Some c \<and> bi_sha info = sha (bytes_of c)"
proof -
  let ?row = "\<lambda>x. fst (build_lane sha a e p before x)"
  have "filter (\<lambda>row. bu_lane row = l) (map ?row lanes) = map ?row (filter (\<lambda>x. bu_lane (?row x) = l) lanes)"
    by (simp add: filter_map comp_def)
  also have "filter (\<lambda>x. bu_lane (?row x) = l) lanes = filter (\<lambda>x. x = l) lanes"
    by (rule filter_cong) (use build_lane_row(1) assms(1) in auto)
  also have "\<dots> = [l]" using assms(2) by (auto simp: lanes_def)
  finally have f: "filter (\<lambda>row. bu_lane row = l) (map (fst \<circ> build_lane sha a e p before) lanes) = [?row l]"
    by (simp add: comp_def)
  obtain info c where "map_of (bu_binaries (?row l)) w = Some info"
    "bw_binary (ce_build e l) (binary_path (ce_output e) l w) = Some c" "bi_sha info = sha (bytes_of c)"
    using build_lane_row(3) [OF _ assms(3)] assms(1,2) by blast
  then show ?thesis by (simp add: built_binary_def f)
qed

lemma validate_nonempty: "validate w j p = Inr cs \<Longrightarrow> cs \<noteq> []"
proof -
  have z: "(\<And>x. k x = Inr y \<Longrightarrow> P y) \<Longrightarrow> zbind r k = Inr y \<Longrightarrow> P y" for r k and y :: 'b and P
    by (auto simp: zbind_eq_Inr)
  have n: "pubsub_checks v c p \<noteq> []" "recovery_checks v c \<noteq> []" for v c
    by (simp_all add: pubsub_checks_def recovery_checks_def)
  assume v: "validate w j p = Inr cs"
  then have "is_dict j" by (simp add: validate_def split: if_split_asm)
  with v show ?thesis
    by (cases "w = ''pubsub''") (auto simp only: validate_def zbind_eq_Inr simp_thms if_True if_False sum.inject n)
qed

text \<open>A good row, as \<open>run_sample\<close> leaves it.\<close>

definition good_row :: "int \<Rightarrow> sample_key \<Rightarrow> sample_row \<Rightarrow> bool" where
  "good_row publications k row \<longleftrightarrow>
     sm_key row = k \<and> sm_passed row \<and> row_passes row \<and>
     (\<exists>r j cs. sm_child row = Some r \<and> sm_json row = Some j \<and> sm_checks row = Some cs \<and>
        validate (fst (snd k)) j publications = Inr cs)"

lemma run_sample_row:
  assumes "built_binary builds l w = Inr info"
    and "bw_binary (ce_build e l) (binary_path (ce_output e) l w) = Some c" "bi_sha info = sha (bytes_of c)"
  shows "snd (run_sample sha a e builds (s, w, l)) = Inr () \<longleftrightarrow> good_sample sha a e (s, w, l)"
    "snd (run_sample sha a e builds (s, w, l)) = Inr () \<Longrightarrow>
       \<exists>row. fst (run_sample sha a e builds (s, w, l)) = Some row \<and> good_row (ca_publications a) (s, w, l) row"
proof -
  let ?sw = "ce_sample e (s, w, l)"
  let ?child = "run_child (ca_system a = ''Darwin'') (ca_watchdog a) (ch_watch (sw_child ?sw)) (ch_usage (sw_child ?sw))
      (ch_wall (sw_child ?sw))"
  have child: "child_ok (sw_child ?sw) \<longleftrightarrow> (\<exists>r. ?child = Inr r \<and> cr_returncode r = 0 \<and> \<not> cr_timed_out r)"
    by (auto simp: child_ok_def run_child_def Let_def split: option.splits)
  consider (bad) "map_option (\<lambda>c. sha (bytes_of c)) (sw_before ?sw) \<noteq> Some (bi_sha info)"
    | (raised) err where "?child = Inl err"
    | (gone) "sw_after ?sw = None"
    | (ran) b r c' where "sw_before ?sw = Some b" "sha (bytes_of b) = bi_sha info" "?child = Inr r" "sw_after ?sw = Some c'"
    by (cases "sw_before ?sw"; cases ?child; cases "sw_after ?sw") auto
  then have "(snd (run_sample sha a e builds (s, w, l)) = Inr () \<longleftrightarrow> good_sample sha a e (s, w, l)) \<and>
    (snd (run_sample sha a e builds (s, w, l)) = Inr () \<longrightarrow>
       (\<exists>row. fst (run_sample sha a e builds (s, w, l)) = Some row \<and> good_row (ca_publications a) (s, w, l) row))"
  proof cases
    case bad
    then show ?thesis using assms
      by (cases "sw_before ?sw") (simp_all add: run_sample_def good_sample_def)
  next
    case raised
    then have "\<not> child_ok (sw_child ?sw)" by (simp add: child)
    with raised assms show ?thesis
      by (cases "sw_before ?sw") (simp_all add: run_sample_def good_sample_def Let_def)
  next
    case gone
    with assms show ?thesis
      by (cases "sw_before ?sw"; cases ?child) (simp_all add: run_sample_def good_sample_def Let_def)
  next
    case ran
    let ?lines = "marked_lines (marker_of w) (sw_log ?sw)"
    show ?thesis
    proof (cases "\<exists>line j cs. ?lines = [line] \<and> ce_loads e line = Inr j \<and> validate w j (ca_publications a) = Inr cs")
      case True
      then obtain line j cs where lj: "?lines = [line]" "ce_loads e line = Inr j" "validate w j (ca_publications a) = Inr cs"
        by blast
      with ran assms validate_nonempty [OF lj(3)] show ?thesis
        by (auto simp: run_sample_def good_sample_def Let_def read_record_def child row_passes_def good_row_def)
    next
      case False
      have "\<not> good_sample sha a e (s, w, l)" using False by (auto simp: good_sample_def Let_def)
      moreover have "snd (run_sample sha a e builds (s, w, l)) \<noteq> Inr ()"
        using False ran assms
        by (auto simp: run_sample_def Let_def read_record_def row_passes_def split: list.split sum.split)
      ultimately show ?thesis by blast
    qed
  qed
  then show "snd (run_sample sha a e builds (s, w, l)) = Inr () \<longleftrightarrow> good_sample sha a e (s, w, l)"
    "snd (run_sample sha a e builds (s, w, l)) = Inr () \<Longrightarrow>
       \<exists>row. fst (run_sample sha a e builds (s, w, l)) = Some row \<and> good_row (ca_publications a) (s, w, l) row"
    by blast+
qed

lemma schedule_mem: "(s, w, l) \<in> set schedule \<Longrightarrow> w \<in> set (map fst workloads) \<and> l \<in> set lanes"
  by (force simp: schedule_def lane_order_def split: if_splits)

lemma samples_done:
  fixes a :: composition_args
  assumes "\<forall>l\<in>set lanes. good_build sha e p before l"
  defines "result \<equiv> collect_rows (run_sample sha a e (map (fst \<circ> build_lane sha a e p before) lanes)) schedule"
  shows "snd result = Inr () \<longleftrightarrow> (\<forall>k\<in>set schedule. good_sample sha a e k)"
    "snd result = Inr () \<Longrightarrow> list_all2 (good_row (ca_publications a)) schedule (fst result)"
proof -
  let ?run = "run_sample sha a e (map (fst \<circ> build_lane sha a e p before) lanes)"
  have one: "(snd (?run k) = Inr () \<longleftrightarrow> good_sample sha a e k) \<and>
      (snd (?run k) = Inr () \<longrightarrow> (\<exists>row. fst (?run k) = Some row \<and> good_row (ca_publications a) k row))"
    if mem: "k \<in> set schedule" for k
  proof -
    obtain s w l where k: "k = (s, w, l)" by (cases k) auto
    with mem schedule_mem have "w \<in> set (map fst workloads)" "l \<in> set lanes" by blast+
    then obtain info c where "built_binary (map (fst \<circ> build_lane sha a e p before) lanes) l w = Inr info"
      "bw_binary (ce_build e l) (binary_path (ce_output e) l w) = Some c" "bi_sha info = sha (bytes_of c)"
      using built_binary_good [OF assms(1)] by blast
    from run_sample_row [where sha = sha and a = a and s = s, OF this] k show ?thesis by blast
  qed
  then show r: "snd result = Inr () \<longleftrightarrow> (\<forall>k\<in>set schedule. good_sample sha a e k)"
    unfolding result_def collect_rows_Inr(1) by blast
  have rows: "\<forall>k\<in>set ks. \<exists>row. fst (?run k) = Some row \<and> good_row (ca_publications a) k row \<Longrightarrow>
      list_all2 (good_row (ca_publications a)) ks (List.map_filter (fst \<circ> ?run) ks)" for ks
    by (induction ks) (auto simp: map_filter_simps)
  show "snd result = Inr () \<Longrightarrow> list_all2 (good_row (ca_publications a)) schedule (fst result)"
  proof -
    assume fin: "snd result = Inr ()"
    then have "\<forall>k\<in>set schedule. \<exists>row. fst (?run k) = Some row \<and> good_row (ca_publications a) k row"
      using one r collect_rows_Inr(1) unfolding result_def by blast
    with rows fin show ?thesis unfolding result_def by (simp add: collect_rows_Inr(2))
  qed
qed

lemma good_row_fields:
  assumes "good_row p k row"
  shows "f \<in> set process_fields \<Longrightarrow> \<exists>v. process_field row f = Inr v \<and> py_num v \<noteq> None"
    "f \<in> set (app_fields (fst (snd k))) \<Longrightarrow> \<exists>v. workload_field row f = Inr v \<and> py_num v \<noteq> None"
proof -
  obtain r j cs where row: "sm_child row = Some r" "sm_json row = Some j" "validate (fst (snd k)) j p = Inr cs"
    using assms by (auto simp: good_row_def)
  show "f \<in> set process_fields \<Longrightarrow> \<exists>v. process_field row f = Inr v \<and> py_num v \<noteq> None"
    by (auto simp: process_field_def row process_fields_def)
  assume f: "f \<in> set (app_fields (fst (snd k)))"
  have "\<exists>v. read_fields j (if fst (snd k) = ''pubsub'' then pubsub_fields else recovery_fields) = Inr v"
    using row(3) by (auto simp: validate_def zbind_eq_Inr split: if_split_asm)
  moreover have "f \<in> set (if fst (snd k) = ''pubsub'' then pubsub_fields else recovery_fields)"
    using f by (auto simp: app_fields_def pubsub_fields_def recovery_fields_def split: if_splits)
  ultimately obtain n where "py_get j f = Inr (JInt n)" using read_fields_Inr by blast
  then have "py_index j f = Inr (JInt n)" by (rule py_get_index) simp
  then show "\<exists>v. workload_field row f = Inr v \<and> py_num v \<noteq> None" by (simp add: workload_field_def row)
qed

lemma good_rows_keys: "list_all2 (good_row p) ks rows \<Longrightarrow> map sm_key rows = ks"
  by (induction ks rows rule: list_all2_induct) (auto simp: good_row_def)

lemma good_rows_mem: "list_all2 (good_row p) ks rows \<Longrightarrow> row \<in> set rows \<Longrightarrow> good_row p (sm_key row) row"
  by (induction ks rows rule: list_all2_induct) (auto simp: good_row_def)

lemma length_rows_of:
  "length (rows_of rows w l) = length (filter (\<lambda>k. fst (snd k) = w \<and> snd (snd k) = l) (map sm_key rows))"
  by (simp add: rows_of_def filter_map comp_def)

lemma schedule_balanced:
  "list_all (\<lambda>(w, l). length (filter (\<lambda>k. fst (snd k) = w \<and> snd (snd k) = l) schedule) = 3)
     (List.product (map fst workloads) lanes)"
  by code_simp

text \<open>What the summary of one workload and lane must say.\<close>

definition summary_good :: "sample_row list \<Rightarrow> string \<Rightarrow> string \<Rightarrow> lane_summary \<Rightarrow> bool" where
  "summary_good rows w l t \<longleftrightarrow> ls_samples t = 3 \<and>
     (\<forall>f\<in>set process_fields. \<exists>vs m. mapE (\<lambda>row. process_field row f) (rows_of rows w l) = Inr vs \<and>
        map_of (ls_process t) f = Some m \<and> middle vs m) \<and>
     (\<forall>f\<in>set (app_fields w). \<exists>vs m. mapE (\<lambda>row. workload_field row f) (rows_of rows w l) = Inr vs \<and>
        map_of (ls_application t) f = Some m \<and> middle vs m)"

lemma summarise_lane_good:
  assumes "list_all2 (good_row p) schedule rows" "(w, l) \<in> set (List.product (map fst workloads) lanes)"
  shows "\<exists>t. summarise_lane rows w l = Inr t \<and> summary_good rows w l t"
proof -
  have len: "length (rows_of rows w l) = 3"
    using schedule_balanced assms(2) unfolding length_rows_of good_rows_keys [OF assms(1)] list_all_iff by blast
  have row: "good_row p (sm_key row) row \<and> fst (snd (sm_key row)) = w" if "row \<in> set (rows_of rows w l)" for row
    using that good_rows_mem [OF assms(1)] by (auto simp: rows_of_def)
  have "\<forall>f\<in>set process_fields. \<forall>r\<in>set (rows_of rows w l). \<exists>v. process_field r f = Inr v \<and> py_num v \<noteq> None"
    using row good_row_fields(1) by blast
  from medians_ok [OF this] obtain ps where ps: "medians process_field (rows_of rows w l) process_fields = Inr ps"
    "\<forall>f\<in>set process_fields. \<exists>vs m. mapE (\<lambda>row. process_field row f) (rows_of rows w l) = Inr vs \<and>
       map_of ps f = Some m \<and> middle vs m" using len by auto
  have "\<forall>f\<in>set (app_fields w). \<forall>r\<in>set (rows_of rows w l). \<exists>v. workload_field r f = Inr v \<and> py_num v \<noteq> None"
    using row good_row_fields(2) by metis
  from medians_ok [OF this] obtain as where as: "medians workload_field (rows_of rows w l) (app_fields w) = Inr as"
    "\<forall>f\<in>set (app_fields w). \<exists>vs m. mapE (\<lambda>row. workload_field row f) (rows_of rows w l) = Inr vs \<and>
       map_of as f = Some m \<and> middle vs m" using len by auto
  from ps as len show ?thesis by (simp add: summarise_lane_def summary_good_def)
qed

lemma mapE_keys:
  assumes "\<forall>x\<in>set xs. \<exists>t. f x = Inr t \<and> P x t"
  shows "\<exists>ys. mapE (\<lambda>x. zbind (f x) (\<lambda>t. Inr (x, t))) xs = Inr ys \<and> (\<forall>x\<in>set xs. \<exists>t. map_of ys x = Some t \<and> P x t)"
  using assms
proof (induction xs)
  case (Cons x xs)
  then obtain t ys where "f x = Inr t" "P x t" "mapE (\<lambda>x. zbind (f x) (\<lambda>t. Inr (x, t))) xs = Inr ys"
    "\<forall>x\<in>set xs. \<exists>t. map_of ys x = Some t \<and> P x t" by auto
  then show ?case by (intro exI [of _ "(x, t) # ys"]) auto
qed simp

lemma summarise_good:
  assumes "list_all2 (good_row p) schedule rows"
  shows "\<exists>s. summarise rows = Inr s \<and> (\<forall>w\<in>set (map fst workloads). \<forall>l\<in>set lanes.
    \<exists>t. map_of s (w, l) = Some t \<and> summary_good rows w l t)"
proof -
  have "\<forall>x\<in>set (List.product (map fst workloads) lanes). \<exists>t. summarise_lane rows (fst x) (snd x) = Inr t \<and>
      summary_good rows (fst x) (snd x) t"
    using summarise_lane_good [OF assms] by auto
  from mapE_keys [of _ "\<lambda>x. summarise_lane rows (fst x) (snd x)", OF this]
  obtain s where s: "mapE (\<lambda>x. zbind (summarise_lane rows (fst x) (snd x)) (\<lambda>t. Inr (x, t)))
      (List.product (map fst workloads) lanes) = Inr s"
    "\<forall>x\<in>set (List.product (map fst workloads) lanes). \<exists>t. map_of s x = Some t \<and> summary_good rows (fst x) (snd x) t"
    by blast
  have "(\<lambda>(w, l). zbind (summarise_lane rows w l) (\<lambda>s. Inr ((w, l), s))) =
      (\<lambda>x. zbind (summarise_lane rows (fst x) (snd x)) (\<lambda>t. Inr (x, t)))"
    by (auto simp: fun_eq_iff)
  with s(1) have "summarise rows = Inr s" by (simp only: summarise_def)
  with s(2) show ?thesis by auto
qed

lemma measure_lanes_Inr:
  fixes sha a e p before r
  defines "m \<equiv> measure_lanes sha a e p before r"
  shows "snd m = Inr () \<longleftrightarrow> (\<forall>l\<in>set lanes. good_build sha e p before l) \<and> ce_ps_before e = Inr () \<and>
      (\<forall>k\<in>set schedule. good_sample sha a e k) \<and> ce_ps_after e = Inr ()"
    "snd m = Inr () \<Longrightarrow> \<exists>rows s. fst m = r\<lparr>rp_builds := map (fst \<circ> build_lane sha a e p before) lanes,
       rp_after_builds := True, rp_samples := rows, rp_summary := Some s, rp_measured := True\<rparr> \<and>
       list_all2 (good_row (ca_publications a)) schedule rows \<and> summarise rows = Inr s"
    "snd m \<noteq> Inr () \<Longrightarrow> \<not> rp_measured r \<Longrightarrow> \<not> rp_measured (fst m)"
proof -
  let ?B = "run_builds (build_lane sha a e p before) lanes"
  let ?S = "collect_rows (run_sample sha a e (map (fst \<circ> build_lane sha a e p before) lanes)) schedule"
  have B: "snd ?B = Inr () \<longleftrightarrow> (\<forall>l\<in>set lanes. good_build sha e p before l)"
    by (simp only: run_builds_Inr(1) build_lane_good)
  consider (b) err where "snd ?B = Inl err" | (ok) "snd ?B = Inr ()" by (cases "snd ?B") auto
  then have "(snd m = Inr () \<longleftrightarrow> (\<forall>l\<in>set lanes. good_build sha e p before l) \<and> ce_ps_before e = Inr () \<and>
      (\<forall>k\<in>set schedule. good_sample sha a e k) \<and> ce_ps_after e = Inr ()) \<and>
    (snd m = Inr () \<longrightarrow> (\<exists>rows s. fst m = r\<lparr>rp_builds := map (fst \<circ> build_lane sha a e p before) lanes,
       rp_after_builds := True, rp_samples := rows, rp_summary := Some s, rp_measured := True\<rparr> \<and>
       list_all2 (good_row (ca_publications a)) schedule rows \<and> summarise rows = Inr s)) \<and>
    (snd m \<noteq> Inr () \<longrightarrow> \<not> rp_measured r \<longrightarrow> \<not> rp_measured (fst m))"
  proof cases
    case b
    with B show ?thesis by (auto simp: m_def measure_lanes_def Let_def split: prod.split)
  next
    case ok
    then have g: "\<forall>l\<in>set lanes. good_build sha e p before l" by (simp add: B)
    have bs: "?B = (map (fst \<circ> build_lane sha a e p before) lanes, Inr ())"
      using ok run_builds_Inr(2) [OF ok] by (metis prod.collapse)
    obtain rows sampled where S: "?S = (rows, sampled)" by force
    note fin = samples_done [OF g, of a, unfolded S fst_conv snd_conv]
    have m: "m = (case ce_ps_before e of Inl err \<Rightarrow> (r\<lparr>rp_builds := map (fst \<circ> build_lane sha a e p before) lanes,
        rp_after_builds := True\<rparr>, Inl err)
      | Inr _ \<Rightarrow> (let r = r\<lparr>rp_builds := map (fst \<circ> build_lane sha a e p before) lanes,
            rp_after_builds := True, rp_samples := rows\<rparr> in
        case sampled of Inl err \<Rightarrow> (r, Inl err) | Inr _ \<Rightarrow>
        case ce_ps_after e of Inl err \<Rightarrow> (r, Inl err) | Inr _ \<Rightarrow>
        case summarise rows of Inl err \<Rightarrow> (r, Inl err)
        | Inr s \<Rightarrow> (r\<lparr>rp_summary := Some s, rp_measured := True\<rparr>, Inr ())))"
      unfolding m_def measure_lanes_def bs prod.case sum.case Let_def S by simp
    show ?thesis
    proof (cases sampled)
      case (Inl err)
      then have "\<not> (\<forall>k\<in>set schedule. good_sample sha a e k)" unfolding fin(1) [symmetric] by simp
      moreover have "snd m \<noteq> Inr ()" "\<not> rp_measured r \<Longrightarrow> \<not> rp_measured (fst m)"
        using Inl by (cases "ce_ps_before e"; simp add: m Let_def)+
      ultimately show ?thesis by blast
    next
      case (Inr u)
      then have "sampled = Inr ()" by simp
      with fin have r: "list_all2 (good_row (ca_publications a)) schedule rows" "\<forall>k\<in>set schedule. good_sample sha a e k"
        by blast+
      obtain s where s: "summarise rows = Inr s" using summarise_good [OF r(1)] by blast
      consider (ps) "ce_ps_before e \<noteq> Inr () \<or> ce_ps_after e \<noteq> Inr ()"
        | (fine) "ce_ps_before e = Inr ()" "ce_ps_after e = Inr ()" by blast
      then show ?thesis
      proof cases
        case ps
        then have "snd m \<noteq> Inr ()" "\<not> rp_measured r \<Longrightarrow> \<not> rp_measured (fst m)"
          using Inr s by (cases "ce_ps_before e"; cases "ce_ps_after e"; simp add: m Let_def)+
        with ps show ?thesis by blast
      next
        case fine
        have "m = (r\<lparr>rp_builds := map (fst \<circ> build_lane sha a e p before) lanes,
            rp_after_builds := True, rp_samples := rows, rp_summary := Some s, rp_measured := True\<rparr>, Inr ())"
          unfolding m fine Inr s by (simp add: Let_def)
        with fine r g s show ?thesis by (metis fst_conv snd_conv)
      qed
    qed
  qed
  then show "snd m = Inr () \<longleftrightarrow> (\<forall>l\<in>set lanes. good_build sha e p before l) \<and> ce_ps_before e = Inr () \<and>
      (\<forall>k\<in>set schedule. good_sample sha a e k) \<and> ce_ps_after e = Inr ()"
    "snd m = Inr () \<Longrightarrow> \<exists>rows s. fst m = r\<lparr>rp_builds := map (fst \<circ> build_lane sha a e p before) lanes,
       rp_after_builds := True, rp_samples := rows, rp_summary := Some s, rp_measured := True\<rparr> \<and>
       list_all2 (good_row (ca_publications a)) schedule rows \<and> summarise rows = Inr s"
    "snd m \<noteq> Inr () \<Longrightarrow> \<not> rp_measured r \<Longrightarrow> \<not> rp_measured (fst m)"
    by blast+
qed

text \<open>A report that passes, and what a passing report holds.\<close>

definition good_run :: "(byte list \<Rightarrow> string) \<Rightarrow> composition_args \<Rightarrow> composition_env \<Rightarrow> run_paths \<Rightarrow> captured \<Rightarrow> bool" where
  "good_run sha a e p before \<longleftrightarrow>
     capture_state sha p (ce_first e) = Inr before \<and> zc_version (cp_compiler before) = ''0.17.0'' \<and>
     (\<forall>l\<in>set lanes. good_build sha e p before l) \<and> ce_ps_before e = Inr () \<and>
     (\<forall>k\<in>set schedule. good_sample sha a e k) \<and> ce_ps_after e = Inr () \<and>
     capture_state sha p (ce_last e) = Inr before"

lemma finish_passed:
  "rp_passed (composition_finish sha e (Some (p, before), r, outcome)) \<longleftrightarrow>
     rp_measured r \<and> rp_error r = None \<and> outcome = Inr () \<and> capture_state sha p (ce_last e) = Inr before \<and>
     list_all (\<lambda>row. bu_unchanged row \<noteq> Some False) (rp_builds r)"
  by (auto simp: composition_finish_def Let_def split: sum.split)

lemma finish_keeps:
  "rp_samples (composition_finish sha e (start, r, outcome)) = rp_samples r"
  "rp_summary (composition_finish sha e (start, r, outcome)) = rp_summary r"
  by (auto simp: composition_finish_def Let_def split: sum.split option.split)

lemma composition_passed:
  fixes sha a e args
  defines "r \<equiv> composition_finish sha e (composition_try sha a e args)"
  shows "(rp_passed r \<longleftrightarrow>
      (\<exists>p native before. select_inputs (ce_inputs e) args = Inr (p, native) \<and> good_run sha a e p before)) \<and>
    (rp_passed r \<longrightarrow> (\<exists>s. rp_summary r = Some s \<and>
       list_all2 (good_row (ca_publications a)) schedule (rp_samples r) \<and> summarise (rp_samples r) = Inr s))"
proof (cases "select_inputs (ce_inputs e) args")
  case (Inl err)
  then show ?thesis
    by (simp add: r_def composition_try_def composition_finish_def first_report_def)
next
  case sel: (Inr x)
  obtain p native where x: "x = (p, native)" by (cases x)
  show ?thesis
  proof (cases "capture_state sha p (ce_first e)")
    case (Inl err)
    with sel x show ?thesis
      by (simp add: r_def composition_try_def composition_finish_def first_report_def good_run_def)
  next
    case cap: (Inr before)
    show ?thesis
    proof (cases "zc_version (cp_compiler before) = ''0.17.0''")
      case False
      with sel x cap have "r = composition_finish sha e (Some (p, before), first_report,
          Inl (ValueError ''stock Zig 0.17.0 is required''))"
        by (simp add: r_def composition_try_def check_version_def)
      then have "\<not> rp_passed r" by (simp add: finish_passed)
      with False sel x cap show ?thesis by (auto simp: good_run_def)
    next
      case True
      define r0 where "r0 = first_report\<lparr>rp_before := Some (compact_state before), rp_pin := Some native,
        rp_quic := Some (pa_quic p)\<rparr>"
      obtain r1 outcome where m: "measure_lanes sha a e p before r0 = (r1, outcome)" by force
      have r: "r = composition_finish sha e (Some (p, before), r1, outcome)"
        using sel x cap True m by (simp add: r_def composition_try_def check_version_def r0_def)
      note M = measure_lanes_Inr [of sha a e p before r0, unfolded m, simplified]
      show ?thesis
      proof (cases outcome)
        case (Inl err)
        then have "\<not> rp_passed r" by (simp add: r finish_passed)
        with Inl M(1) True sel x cap show ?thesis by (auto simp: good_run_def)
      next
        case (Inr u)
        then obtain rows s where r1: "r1 = r0\<lparr>rp_builds := map (fst \<circ> build_lane sha a e p before) lanes,
            rp_after_builds := True, rp_samples := rows, rp_summary := Some s, rp_measured := True\<rparr>"
          "list_all2 (good_row (ca_publications a)) schedule rows" "summarise rows = Inr s"
          using M(2) by auto
        from Inr M(1) have g: "\<forall>l\<in>set lanes. good_build sha e p before l" "ce_ps_before e = Inr ()"
          "\<forall>k\<in>set schedule. good_sample sha a e k" "ce_ps_after e = Inr ()" by auto
        have "list_all (\<lambda>row. bu_unchanged row \<noteq> Some False) (rp_builds r1)"
          using build_lane_row(2) g(1) by (force simp: r1(1) list_all_iff)
        then have "rp_passed r \<longleftrightarrow> capture_state sha p (ce_last e) = Inr before"
          using Inr by (simp add: r finish_passed r1(1) r0_def first_report_def)
        moreover have "rp_samples r = rows" "rp_summary r = Some s" by (simp_all add: r finish_keeps r1(1))
        ultimately show ?thesis using sel x cap True g r1(2,3) by (auto simp: good_run_def)
      qed
    qed
  qed
qed

lemma composition_exit:
  "(\<exists>r. composition_main sha a e = Finished 0 r) \<longleftrightarrow>
     composition_usage a = None \<and> ce_fresh e \<and>
     (\<exists>args p native before. argument_paths (ce_inputs e) = Inr args \<and>
        select_inputs (ce_inputs e) args = Inr (p, native) \<and> good_run sha a e p before)"
proof (cases "composition_usage a = None \<and> ce_fresh e")
  case True
  show ?thesis
  proof (cases "argument_paths (ce_inputs e)")
    case (Inl x)
    with True show ?thesis by (simp add: composition_main_def)
  next
    case (Inr args)
    define r where "r = composition_finish sha e (composition_try sha a e args)"
    have "composition_main sha a e = Finished (if rp_passed r then 0 else 1) r"
      using True Inr by (simp add: composition_main_def r_def Let_def)
    then have "(\<exists>r. composition_main sha a e = Finished 0 r) \<longleftrightarrow> rp_passed r" by simp
    also have "\<dots> \<longleftrightarrow> (\<exists>p native before. select_inputs (ce_inputs e) args = Inr (p, native) \<and>
        good_run sha a e p before)"
      using composition_passed [of sha e a args] by (simp only: r_def)
    finally show ?thesis using True Inr by simp
  qed
next
  case False
  then show ?thesis
    by (auto simp: composition_main_def split: option.splits sum.splits)
qed

subsection \<open>Properties\<close>

text \<open>C2: The composition profile exits with 0 exactly when all of its evidence is good.  The
  arguments were in range and the output directory new; the workspace selects the given qmsg
  and qmesh, a QUIC source package, and both consumers keep the same released pin; the stock
  compiler was found; both builds ended with code 0 in time and produced both binaries; each
  of the twelve scheduled samples ran the built binary, which was the same afterwards, to
  exit code 0 in time with one result line that passes every check; and every capture, after
  each build and at the end, equals the first.\<close>

theorem composition_exit_zero:
  "(\<exists>r. composition_main sha a e = Finished 0 r) \<longleftrightarrow>
     composition_usage a = None \<and> ce_fresh e \<and>
     (\<exists>args p native before. argument_paths (ce_inputs e) = Inr args \<and>
        select_inputs (ce_inputs e) args = Inr (p, native) \<and>
        capture_state sha p (ce_first e) = Inr before \<and> zc_version (cp_compiler before) = ''0.17.0'' \<and>
        (\<forall>l\<in>set lanes. good_build sha e p before l) \<and> ce_ps_before e = Inr () \<and>
        (\<forall>k\<in>set schedule. good_sample sha a e k) \<and> ce_ps_after e = Inr () \<and>
        capture_state sha p (ce_last e) = Inr before)"
  by (simp only: composition_exit good_run_def)

text \<open>C3: A report of a run that exited with 0 is complete.  It holds one row per scheduled sample,
  in the order of the schedule, every one passed; and for both workloads and both lanes a
  summary over three samples in which each reported median is the value of one of the three
  rows, with at least two at or below it and at least two at or above it.\<close>

theorem composition_report_complete:
  assumes "composition_main sha a e = Finished 0 r"
  shows "map sm_key (rp_samples r) = schedule \<and> list_all sm_passed (rp_samples r) \<and>
    (\<exists>s. rp_summary r = Some s \<and>
       (\<forall>w\<in>set (map fst workloads). \<forall>l\<in>set lanes. \<exists>t. map_of s (w, l) = Some t \<and>
          length (rows_of (rp_samples r) w l) = 3 \<and> ls_samples t = 3 \<and>
          (\<forall>f\<in>set process_fields. \<exists>vs m. mapE (\<lambda>row. process_field row f) (rows_of (rp_samples r) w l) = Inr vs \<and>
             map_of (ls_process t) f = Some m \<and> middle vs m) \<and>
          (\<forall>f\<in>set (app_fields w). \<exists>vs m. mapE (\<lambda>row. workload_field row f) (rows_of (rp_samples r) w l) = Inr vs \<and>
             map_of (ls_application t) f = Some m \<and> middle vs m)))"
proof -
  obtain args where "argument_paths (ce_inputs e) = Inr args"
    "r = composition_finish sha e (composition_try sha a e args)" "rp_passed r"
    using assms by (auto simp: composition_main_def Let_def split: option.splits sum.splits if_splits)
  with composition_passed [of sha e a args] obtain s where s: "rp_summary r = Some s"
    "list_all2 (good_row (ca_publications a)) schedule (rp_samples r)" "summarise (rp_samples r) = Inr s" by blast
  have "list_all sm_passed (rp_samples r)"
    using good_rows_mem [OF s(2)] by (auto simp: list_all_iff good_row_def)
  moreover have "length (rows_of (rp_samples r) w l) = 3" if "w \<in> set (map fst workloads)" "l \<in> set lanes" for w l
    using schedule_balanced that unfolding length_rows_of good_rows_keys [OF s(2)] list_all_iff by auto
  moreover have "\<forall>w\<in>set (map fst workloads). \<forall>l\<in>set lanes. \<exists>t. map_of s (w, l) = Some t \<and>
      summary_good (rp_samples r) w l t"
    using summarise_good [OF s(2)] s(3) by auto
  ultimately show ?thesis using s(1) good_rows_keys [OF s(2)] unfolding summary_good_def by blast
qed

subsection \<open>A complete run\<close>

definition sample_recovery :: json where
  "sample_recovery = JObj [(''authority_revision'', JInt 40), (''replica_revision'', JInt 40),
     (''gossip_only_revision'', JInt 0), (''hints_published'', JInt 40), (''noise_published'', JInt 40),
     (''hints_evicted'', JInt 40), (''hints_delivered_after_heal'', JInt 0), (''snapshot_attempts'', JInt 5),
     (''snapshot_timeouts'', JInt 4), (''snapshots_applied'', JInt 1), (''snapshot_bytes'', JInt 81),
     (''peak_pending_requests'', JInt 1), (''peak_pool_entries'', JInt 1), (''elapsed_us'', JInt 900000),
     (''converged'', JBool True)]"

definition sample_manifest :: string where
  "sample_manifest = ''.qmsg = .{ .path = \"qmsg\" }, .qmesh = .{.path=\"qmesh\"}, .quic = .{ .path = \"quic\", }''"

definition sample_package :: string where
  "sample_package = ''.quic = .{ .url = \"https://host/v0.37.2.tar.gz\", .hash = \"quic-0.37.2\" },''"

definition sample_files :: capture_world where
  "sample_files =
     \<lparr>cw_tree = (\<lambda>p. \<lparr>src_path = p, src_git = None, src_commit = [], src_status = [],
        src_files = [(''build.zig.zon'', sample_package)]\<rparr>),
      cw_workspace = (\<lambda>p. \<lparr>ws_path = p, ws_files = [(''build.zig'', []), (''build.zig.zon'', sample_manifest)],
        ws_parent = [(''data/hosts'', ''h'')]\<rparr>),
      cw_zig = (\<lambda>p. \<lparr>zw_path = p, zw_binary = Some ''zig'', zw_version = Inr ''0.17.0''\<rparr>),
      cw_git = (\<lambda>_. Inr ())\<rparr>"

definition sample_inputs :: input_world where
  "sample_inputs =
     \<lparr>iw_workspace = Inr ''/ws'', iw_qmsg = Inr ''/qmsg'', iw_qmesh = Inr ''/qmesh'', iw_quic = None,
      iw_resolve = (\<lambda>p. Inr (slash # p)), iw_which = Some ''zig'', iw_zig = (\<lambda>z. Inr (''/bin/'' @ z)),
      iw_now = sample_files\<rparr>"

definition sample_child :: child_world where
  "sample_child = \<lparr>ch_watch = \<lparr>w_pc = Done, w_timer = Cancelled, w_child = Reaped (Own 0), w_running = False,
       w_timed_out = False, w_kills = [], w_interrupts = 0, w_error = None\<rparr>,
     ch_usage = \<lparr>ru_utime = 1, ru_stime = 1 / 2, ru_maxrss = 2048\<rparr>, ch_wall = 2\<rparr>"

definition sample_run_env :: composition_env where
  "sample_run_env =
     \<lparr>ce_inputs = sample_inputs, ce_fresh = True, ce_output = ''/out'', ce_first = sample_files,
      ce_build = (\<lambda>lane. \<lparr>bw_child = sample_child, bw_binary = (\<lambda>p. Some lane), bw_after = sample_files\<rparr>),
      ce_ps_before = Inr (),
      ce_sample = (\<lambda>(s, w, l). \<lparr>sw_before = Some l, sw_child = sample_child, sw_after = Some l,
         sw_log = ''starting'' @ [newline] @ marker_of w @ w @ [newline]\<rparr>),
      ce_ps_after = Inr (), ce_last = sample_files,
      ce_loads = (\<lambda>line. Inr (if line = ''pubsub'' then sample_pubsub else sample_recovery))\<rparr>"

definition sample_args :: composition_args where
  "sample_args = \<lparr>ca_absolute = True, ca_system = ''Linux'', ca_wait4 = True, ca_jobs = 2, ca_watchdog = 30,
     ca_publications = 24, ca_payload = 128\<rparr>"

definition sample_paths :: run_paths where
  "sample_paths = \<lparr>pa_workspace = ''/ws'', pa_qmsg = ''/qmsg'', pa_qmesh = ''/qmesh'', pa_quic = ''/quic'',
     pa_zig = ''/bin/zig''\<rparr>"

lemma sample_selected:
  "argument_paths sample_inputs = Inr (''/ws'', ''/qmsg'', ''/qmesh'')"
  "select_inputs sample_inputs (''/ws'', ''/qmsg'', ''/qmesh'') =
     Inr (sample_paths, (''https://host/v0.37.2.tar.gz'', ''quic-0.37.2''))"
  by code_simp+

lemma sample_validates:
  "validate ''pubsub'' sample_pubsub 24 = Inr sample_pubsub_checks"
  "\<exists>cs. validate ''recovery'' sample_recovery 24 = Inr cs \<and> all_pass cs"
proof -
  show "validate ''pubsub'' sample_pubsub 24 = Inr sample_pubsub_checks" by code_simp
  have "(case validate ''recovery'' sample_recovery 24 of Inr cs \<Rightarrow> all_pass cs | Inl _ \<Rightarrow> False)" by code_simp
  then show "\<exists>cs. validate ''recovery'' sample_recovery 24 = Inr cs \<and> all_pass cs"
    by (auto split: sum.splits)
qed

lemma sample_lines:
  "marked_lines (marker_of ''pubsub'') (''starting'' @ [newline] @ marker_of ''pubsub'' @ ''pubsub'' @ [newline]) = [''pubsub'']"
  "marked_lines (marker_of ''recovery'') (''starting'' @ [newline] @ marker_of ''recovery'' @ ''recovery'' @ [newline]) = [''recovery'']"
  by code_simp+

lemma sample_child_ok: "child_ok sample_child"
  by (simp add: child_ok_def sample_child_def exit_code_def child_status_def)

lemma sample_good:
  assumes "k \<in> set schedule"
  shows "good_sample sha sample_args sample_run_env k"
proof -
  obtain s w l where k: "k = (s, w, l)" by (cases k)
  with assms schedule_mem have w: "w = ''pubsub'' \<or> w = ''recovery''" by (fastforce simp: workloads_def)
  then have "\<exists>line j cs. marked_lines (marker_of w) (''starting'' @ [newline] @ marker_of w @ w @ [newline]) = [line] \<and>
      ce_loads sample_run_env line = Inr j \<and> validate w j 24 = Inr cs \<and> all_pass cs"
  proof
    assume "w = ''pubsub''"
    moreover have "all_pass sample_pubsub_checks" by (simp add: sample_pubsub_checks_def all_pass_def)
    ultimately show ?thesis using sample_lines(1) sample_validates(1) by (force simp: sample_run_env_def)
  next
    assume "w = ''recovery''"
    then show ?thesis using sample_lines(2) sample_validates(2) by (force simp: sample_run_env_def)
  qed
  then show ?thesis
    using sample_child_ok by (simp add: good_sample_def k sample_run_env_def sample_args_def)
qed

lemma sample_captured:
  "\<exists>before. capture_state sha sample_paths sample_files = Inr before \<and> zc_version (cp_compiler before) = ''0.17.0''"
  by (simp add: capture_state_def identity_at_def compiler_identity_def zig_at_def sample_files_def)

lemma sample_good_run: "\<exists>before. good_run sha sample_args sample_run_env sample_paths before"
proof -
  obtain before where before: "capture_state sha sample_paths sample_files = Inr before"
    "zc_version (cp_compiler before) = ''0.17.0''" using sample_captured by blast
  have env: "ce_first sample_run_env = sample_files" "ce_last sample_run_env = sample_files"
    "ce_ps_before sample_run_env = Inr ()" "ce_ps_after sample_run_env = Inr ()"
    by (simp_all add: sample_run_env_def)
  have "good_build sha sample_run_env sample_paths before l" for l
    using before sample_child_ok by (simp add: good_build_def sample_run_env_def list_all_iff)
  with before sample_good show ?thesis unfolding good_run_def env by blast
qed

lemma sample_started:
  "composition_usage sample_args = None" "ce_fresh sample_run_env" "ce_inputs sample_run_env = sample_inputs"
  by (code_simp, simp_all add: sample_run_env_def)

lemma sample_finished: "\<exists>r. composition_main sample_sha sample_args sample_run_env = Finished 0 r"
  unfolding composition_exit sample_started(3) using sample_started sample_selected sample_good_run by blast

theorem composition_exit_zero_witness:
  "\<exists>before. capture_state sample_sha sample_paths (ce_last sample_run_env) = Inr before \<and>
     (\<exists>r. composition_main sample_sha sample_args sample_run_env = Finished 0 r)"
proof -
  obtain before where g: "good_run sample_sha sample_args sample_run_env sample_paths before"
    using sample_good_run by blast
  then have "\<exists>r. composition_main sample_sha sample_args sample_run_env = Finished 0 r"
    unfolding composition_exit_zero sample_started(3) good_run_def
    using sample_started sample_selected by blast
  with g show ?thesis by (auto simp: good_run_def)
qed

theorem composition_report_complete_witness:
  "\<exists>r. composition_main sample_sha sample_args sample_run_env = Finished 0 r \<and>
     map sm_key (rp_samples r) = schedule \<and> length (rp_samples r) = 12"
proof -
  obtain r where r: "composition_main sample_sha sample_args sample_run_env = Finished 0 r"
    using sample_finished by blast
  from composition_report_complete [OF r] have k: "map sm_key (rp_samples r) = schedule" by blast
  moreover have "length schedule = 12" by code_simp
  ultimately have "length (rp_samples r) = 12" by (metis length_map)
  with r k show ?thesis by blast
qed

end
