(* ===== verification/Applications.thy ===== *)
theory Applications
  imports Composition_Run "HOL-Library.AList"
begin

text \<open>
  Model of \<open>src/tools/profile-applications.py\<close>: identities with the pins a manifest names, the
  verified source snapshots, the generated consumer package, the builds, the alternating
  samples and \<open>main\<close> with its exit code.
\<close>

subsection \<open>Identities\<close>

definition app_files :: "source \<Rightarrow> string list" where
  "app_files s =
     (case src_git s of
        Some out \<Rightarrow> sorted_names (filter (\<lambda>name. name \<noteq> [] \<and> map_of (src_files s) name \<noteq> None) out)
      | None \<Rightarrow> sort (map fst (src_files s)))"

text \<open>\<open>{name: ... for name, url, package_hash in re.findall(...)}\<close>: a later entry replaces an
  earlier one of the same name.\<close>

definition dependency_pins :: "string \<Rightarrow> (string \<times> package_pin) list" where
  "dependency_pins doc =
     foldl (\<lambda>pins groups. case groups of [name, url, hash] \<Rightarrow> AList.update name (url, hash) pins | _ \<Rightarrow> pins) []
       (re_findall (pin_toks [Lit ''.'', OneOf [''quic'', ''boringssl'', ''paseto'']]) doc)"

record app_identity =
  ai_path :: string
  ai_files :: "(string \<times> string) list"
  ai_sha :: string
  ai_git :: "(string \<times> string) option"
  ai_pins :: "(string \<times> package_pin) list option"

definition app_identity :: "(byte list \<Rightarrow> string) \<Rightarrow> source \<Rightarrow> app_identity" where
  "app_identity sha s =
     (let entries = digest_entries sha (src_files s) (app_files s) in
      \<lparr>ai_path = src_path s, ai_files = entries, ai_sha = files_digest sha entries,
       ai_git = (if src_git s = None then None else Some (src_commit s, src_status s)),
       ai_pins = map_option dependency_pins (map_of (src_files s) ''build.zig.zon'')\<rparr>)"

subsection \<open>Snapshots\<close>

text \<open>A new directory that holds just these files.\<close>

definition copied_tree :: "string \<Rightarrow> file_map \<Rightarrow> source" where
  "copied_tree path files =
     \<lparr>src_path = path, src_git = None, src_commit = [], src_status = [], src_files = files\<rparr>"

text \<open>\<open>src\<close> is the tree at the first identity, \<open>read\<close> what \<open>copyfile\<close> read of each file and \<open>src'\<close> the
  tree at the second identity.  Returns the original and the copy's identity.\<close>

definition app_snapshot ::
  "(byte list \<Rightarrow> string) \<Rightarrow> source \<Rightarrow> (string \<Rightarrow> string option) \<Rightarrow> source \<Rightarrow> string \<Rightarrow>
   py_error + (app_identity \<times> app_identity)" where
  "app_snapshot sha src read src' destination =
     (let before = app_identity sha src in
      zbind (mapE (\<lambda>(name, _). case read name of Some c \<Rightarrow> Inr (name, c) | None \<Rightarrow> Inl (OSError name))
               (ai_files before)) (\<lambda>files.
      let after = app_identity sha src';
          copied = app_identity sha (copied_tree destination files) in
      if before \<noteq> after \<or> ai_files copied \<noteq> ai_files before
      then Inl (RuntimeError (''source changed while snapshotting: '' @ src_path src))
      else Inr (before, copied)))"

subsection \<open>The consumer package\<close>

definition build_script :: string where
  "build_script = join_with [newline] [
     ''const std = @import(\"std\");'',
     ''pub fn build(b: *std.Build) void {'',
     ''    const target = b.standardTargetOptions(.{});'',
     ''    const optimize = b.standardOptimizeOption(.{});'',
     ''    const qmsg = b.dependency(\"qmsg\", .{ .target = target, .optimize = optimize });'',
     ''    if (b.option(bool, \"selected\", \"Inject selected QUIC into qmsg\") orelse false) {'',
     ''        const quic = b.dependency(\"quic\", .{ .target = target, .release = optimize != .debug, .@\"sanitize-c\" = @as([]const u8, \"trap\") });'',
     ''        qmsg.module(\"qmsg\").addImport(\"quic\", quic.module(\"quic\"));'',
     ''    }'',
     ''    const mod = b.createModule(.{ .root_source_file = b.path(\"main.zig\"), .target = target, .optimize = optimize });'',
     ''    mod.addImport(\"qmsg\", qmsg.module(\"qmsg\"));'',
     ''    mod.addImport(\"quic\", qmsg.module(\"qmsg\").import_table.get(\"quic\").?);'',
     ''    const exe = b.addExecutable(.{ .name = \"application-profile\", .root_module = mod });'',
     ''    b.installArtifact(exe);'',
     ''}'',
     '''']"

definition consumer_dependencies :: string where
  "consumer_dependencies = join_with [newline] [
     ''    .dependencies = .{'',
     ''        .qmsg = .{ .path = \"../sources/qmsg\" },'',
     ''        .quic = .{ .path = \"../sources/quic\" },'',
     ''    },'',
     ''    .paths = .{ \"build.zig\", \"build.zig.zon\", \"main.zig\", \"counting_allocator.zig\", \"cert.pem\", \"key.pem\" },'',
     ''}'',
     '''']"

definition consumer_manifest :: "string \<Rightarrow> py_error + string" where
  "consumer_manifest manifest =
     zbind (py_str_index manifest ''    .dependencies ='') (\<lambda>start.
     Inr (take start manifest @ consumer_dependencies))"

text \<open>The files of the consumer directory; \<open>repo\<close> are the files below the repository.\<close>

definition consumer_stage :: "file_map \<Rightarrow> py_error + file_map" where
  "consumer_stage repo =
     zbind (read_file repo ''tools/consumer-smoke/build.zig.zon'') (\<lambda>doc.
     zbind (consumer_manifest doc) (\<lambda>manifest.
     zbind (mapE (\<lambda>(from, target). zbind (read_file repo from) (\<lambda>c. Inr (target, c)))
              [(''tools/application-profile.zig'', ''main.zig''),
               (''bench/e2e/counting_allocator.zig'', ''counting_allocator.zig''),
               (''examples/support/test_cert.pem'', ''cert.pem''),
               (''examples/support/test_key.pem'', ''key.pem'')]) (\<lambda>copies.
     Inr ([(''build.zig'', build_script), (''build.zig.zon'', manifest)] @ copies))))"

subsection \<open>Arguments\<close>

text \<open>The options that are handed on to the workload, with their defaults.\<close>

definition option_defaults :: "(string \<times> int) list" where
  "option_defaults = [(''requests'', 5000), (''payload-bytes'', 1024), (''concurrency'', 8), (''stream-window'', 8),
     (''warmup'', 128), (''idle-ms'', 200), (''timeout-seconds'', 30)]"

record app_args =
  aa_samples :: int
  aa_jobs :: int
  aa_mode :: string
  aa_optimize :: string
  aa_options :: "(string \<times> int) list"     \<comment> \<open>those given on the command line\<close>

definition app_usage :: "app_args \<Rightarrow> string option" where
  "app_usage a =
     (if aa_mode a \<notin> {''native'', ''selected'', ''both''} then Some ''argument --mode: invalid choice''
      else if aa_optimize a \<notin> {''Debug'', ''ReleaseSafe''} then Some ''argument --optimize: invalid choice''
      else if \<not> (1 \<le> aa_samples a \<and> aa_samples a \<le> 9) \<or> \<not> (1 \<le> aa_jobs a \<and> aa_jobs a \<le> 2)
      then Some ''samples must be 1..9; jobs must be 1..2'' else None)"

definition app_modes :: "app_args \<Rightarrow> string list" where
  "app_modes a = (if aa_mode a = ''both'' then [''native'', ''selected''] else [aa_mode a])"

definition app_arguments :: "app_args \<Rightarrow> string list" where
  "app_arguments a =
     concat (map (\<lambda>(name, d). [''--'' @ name,
       py_str_int (case map_of (aa_options a) name of Some v \<Rightarrow> v | None \<Rightarrow> d)]) option_defaults)"

subsection \<open>Builds\<close>

text \<open>Where a step of \<open>main\<close> leaves it: with an exit code or an exception.\<close>

datatype app_stop = Exit_With int | Raise_Error py_error

definition raising :: "py_error + 'a \<Rightarrow> app_stop + 'a" where
  "raising r = (case r of Inl err \<Rightarrow> Inl (Raise_Error err) | Inr v \<Rightarrow> Inr v)"

record app_build_world =
  aw_returncode :: int
  aw_binary :: "string option"

record app_sample_world =
  as_ps_before :: "py_error + unit"
  as_returncode :: int
  as_usage :: rusage
  as_wall :: rat
  as_ps_after :: "py_error + unit"
  as_log :: string

text \<open>A tree that is copied: as it is first seen, what is read from it, as it is seen again.\<close>

record copy_world =
  cy_first :: source
  cy_read :: "string \<Rightarrow> string option"
  cy_again :: source

record app_env =
  ae_qmsg :: copy_world
  ae_quic :: copy_world
  ae_output :: string
  ae_fresh :: bool
  ae_zig :: zig_world
  ae_root :: file_map
  ae_build :: "string \<Rightarrow> app_build_world"
  ae_cached :: "string \<Rightarrow> source option"      \<comment> \<open>\<open>zig-pkg/HASH\<close>, if it is a directory\<close>
  ae_sample :: "nat \<times> string \<Rightarrow> app_sample_world"
  ae_darwin :: bool
  ae_loads :: "string \<Rightarrow> py_error + json"

record app_build_row =
  ab_mode :: string
  ab_command :: "string list"
  ab_returncode :: int
  ab_log :: string
  ab_binary :: "(string \<times> string) option"    \<comment> \<open>path and digest\<close>

definition app_binary :: "string \<Rightarrow> string \<Rightarrow> string" where
  "app_binary output mode = install_prefix output mode @ ''/bin/application-profile''"

definition app_build_command :: "app_args \<Rightarrow> app_env \<Rightarrow> string \<Rightarrow> string list" where
  "app_build_command a e mode =
     [zw_path (ae_zig e), ''build'', ''-j'' @ py_str_int (aa_jobs a), ''-Doptimize='' @ aa_optimize a,
      ''-Dselected='' @ lower_bool (mode = ''selected''), ''--prefix'', install_prefix (ae_output e) mode,
      ''--summary'', ''all'']"

definition app_build ::
  "(byte list \<Rightarrow> string) \<Rightarrow> app_args \<Rightarrow> app_env \<Rightarrow> string \<Rightarrow> app_build_row option \<times> (app_stop + unit)" where
  "app_build sha a e mode =
     (let built = ae_build e mode;
          row = \<lparr>ab_mode = mode, ab_command = app_build_command a e mode, ab_returncode = aw_returncode built,
                 ab_log = mode @ ''-build.log'', ab_binary = None\<rparr>
      in if aw_returncode built \<noteq> 0 then (Some row, Inl (Exit_With (aw_returncode built)))
         else case aw_binary built of
           None \<Rightarrow> (Some row, Inl (Raise_Error (OSError (app_binary (ae_output e) mode))))
         | Some c \<Rightarrow> (Some (row\<lparr>ab_binary := Some (app_binary (ae_output e) mode, sha (bytes_of c))\<rparr>), Inr ()))"

text \<open>The package pins of both snapshots, quic's last, and the cached packages they resolve to.\<close>

definition merged_pins :: "app_identity \<Rightarrow> app_identity \<Rightarrow> (string \<times> package_pin) list" where
  "merged_pins qmsg quic =
     foldl (\<lambda>pins (name, p). AList.update name p pins)
       (case ai_pins qmsg of Some pins \<Rightarrow> pins | None \<Rightarrow> [])
       (case ai_pins quic of Some pins \<Rightarrow> pins | None \<Rightarrow> [])"

definition resolved_dependencies ::
  "(byte list \<Rightarrow> string) \<Rightarrow> app_env \<Rightarrow> (string \<times> package_pin) list \<Rightarrow>
   (string \<times> app_identity \<times> package_pin) list" where
  "resolved_dependencies sha e pins =
     List.map_filter (\<lambda>(name, p). map_option (\<lambda>s. (name, app_identity sha s, p)) (ae_cached e (snd p))) pins"

subsection \<open>Samples\<close>

record app_row =
  ar_mode :: string
  ar_sample :: nat
  ar_command :: "string list"
  ar_log :: string
  ar_returncode :: int
  ar_wall :: rat
  ar_user :: rat
  ar_system :: rat
  ar_rss_bytes :: int
  ar_snapshots :: "string list"
  ar_workload :: "json option"

definition app_schedule :: "string list \<Rightarrow> nat \<Rightarrow> (nat \<times> string) list" where
  "app_schedule modes samples =
     concat (map (\<lambda>s. map (\<lambda>m. (s, m)) (if s mod 2 = 0 then modes else rev modes)) [0..<samples])"

definition app_sample ::
  "app_args \<Rightarrow> app_env \<Rightarrow> nat \<times> string \<Rightarrow> app_row option \<times> (app_stop + unit)" where
  "app_sample a e k =
     (let (sample, mode) = k; w = ae_sample e k; name = mode @ ''-'' @ nat_str (sample + 1) in
      case zbind (as_ps_before w) (\<lambda>_. zbind (as_ps_after w) (\<lambda>_.
             mapE (ae_loads e) (marked_lines ''APPLICATION_PROFILE '' (as_log w)))) of
        Inl err \<Rightarrow> (None, Inl (Raise_Error err))
      | Inr records \<Rightarrow>
        let row = \<lparr>ar_mode = mode, ar_sample = sample + 1,
              ar_command = app_binary (ae_output e) mode # app_arguments a, ar_log = name @ ''.log'',
              ar_returncode = as_returncode w, ar_wall = as_wall w, ar_user = ru_utime (as_usage w),
              ar_system = ru_stime (as_usage w),
              ar_rss_bytes = (if ae_darwin e then ru_maxrss (as_usage w) else ru_maxrss (as_usage w) * 1024),
              ar_snapshots = [name @ ''-processes-before.txt'', name @ ''-processes-after.txt''],
              ar_workload = (case records of [j] \<Rightarrow> Some j | _ \<Rightarrow> None)\<rparr>
        in if as_returncode w \<noteq> 0 then (Some row, Inl (Exit_With (as_returncode w)))
           else case records of
             [j] \<Rightarrow> (Some row, raising (zbind (py_index j ''warm'') (\<lambda>warm.
                       zbind (mapE (py_index warm) [''replies'', ''elapsed_us'', ''cpu_us'']) (\<lambda>_. Inr ()))))
           | _ \<Rightarrow> (Some row, Inl (Exit_With 1)))"

definition summary_fields :: "string list" where
  "summary_fields = [''elapsed_us'', ''cpu_us'', ''latency_p50_us'', ''latency_p99_us'']"

text \<open>\<open>row["workload"]["warm"][field]\<close>\<close>

definition warm_field :: "app_row \<Rightarrow> string \<Rightarrow> py_error + json" where
  "warm_field row field =
     (case ar_workload row of None \<Rightarrow> Inl TypeError
      | Some j \<Rightarrow> zbind (py_index j ''warm'') (\<lambda>warm. py_index warm field))"

definition app_summary :: "string list \<Rightarrow> app_row list \<Rightarrow> py_error + (string \<times> (string \<times> json) list) list" where
  "app_summary modes rows =
     mapE (\<lambda>mode. zbind (medians warm_field (filter (\<lambda>row. ar_mode row = mode) rows) summary_fields)
             (\<lambda>ms. Inr (mode, ms))) modes"

subsection \<open>The main function\<close>

record app_report =
  ap_compiler :: compiler
  ap_sources :: "((app_identity \<times> app_identity) \<times> (app_identity \<times> app_identity)) option"  \<comment> \<open>qmsg, quic\<close>
  ap_harness :: "app_identity option"
  ap_builds :: "app_build_row list"
  ap_resolved :: "(string \<times> app_identity \<times> package_pin) list"
  ap_rows :: "app_row list"
  ap_summary :: "(string \<times> (string \<times> json) list) list option"
  ap_passed :: bool

text \<open>An uncaught exception leaves the report as it was filled in so far.\<close>

datatype app_end =
    App_Usage string
  | App_Raised py_error "app_report option"
  | App_Exit int app_report

definition app_stopped :: "app_report \<Rightarrow> app_stop \<Rightarrow> app_end" where
  "app_stopped r stop = (case stop of Exit_With code \<Rightarrow> App_Exit code r | Raise_Error err \<Rightarrow> App_Raised err (Some r))"

text \<open>From the build loop to the end.\<close>

definition app_measure ::
  "(byte list \<Rightarrow> string) \<Rightarrow> app_args \<Rightarrow> app_env \<Rightarrow> app_identity \<Rightarrow> app_identity \<Rightarrow> app_report \<Rightarrow> app_end" where
  "app_measure sha a e qmsg quic r =
     (case collect_rows (app_build sha a e) (app_modes a) of (builds, built) \<Rightarrow>
      let r = r\<lparr>ap_builds := builds\<rparr> in
      case built of Inl stop \<Rightarrow> app_stopped r stop
      | Inr _ \<Rightarrow>
        let r = r\<lparr>ap_resolved := resolved_dependencies sha e (merged_pins qmsg quic)\<rparr> in
        (case collect_rows (app_sample a e) (app_schedule (app_modes a) (nat (aa_samples a))) of (rows, sampled) \<Rightarrow>
         let r = r\<lparr>ap_rows := rows\<rparr> in
         case sampled of Inl stop \<Rightarrow> app_stopped r stop
         | Inr _ \<Rightarrow> (case app_summary (app_modes a) rows of
             Inl err \<Rightarrow> App_Raised err (Some r)
           | Inr s \<Rightarrow> App_Exit 0 (r\<lparr>ap_summary := Some s, ap_passed := True\<rparr>))))"

definition package_given :: "string \<Rightarrow> source \<Rightarrow> string option" where
  "package_given name s =
     (if map_of (src_files s) ''build.zig.zon'' = None then Some (name @ '' must be an explicit source package'')
      else None)"

definition app_snapshots ::
  "(byte list \<Rightarrow> string) \<Rightarrow> app_env \<Rightarrow>
   py_error + (app_identity \<times> app_identity) \<times> (app_identity \<times> app_identity)" where
  "app_snapshots sha e =
     zbind (app_snapshot sha (cy_first (ae_qmsg e)) (cy_read (ae_qmsg e)) (cy_again (ae_qmsg e))
              (ae_output e @ ''/sources/qmsg'')) (\<lambda>qmsg.
     zbind (app_snapshot sha (cy_first (ae_quic e)) (cy_read (ae_quic e)) (cy_again (ae_quic e))
              (ae_output e @ ''/sources/quic'')) (\<lambda>quic.
     Inr (qmsg, quic)))"

definition app_main :: "(byte list \<Rightarrow> string) \<Rightarrow> app_args \<Rightarrow> app_env \<Rightarrow> app_end" where
  "app_main sha a e =
     (case app_usage a of Some msg \<Rightarrow> App_Usage msg
      | None \<Rightarrow> (case package_given ''qmsg_path'' (cy_first (ae_qmsg e)) of Some msg \<Rightarrow> App_Usage msg
      | None \<Rightarrow> (case package_given ''quic_path'' (cy_first (ae_quic e)) of Some msg \<Rightarrow> App_Usage msg
      | None \<Rightarrow>
        if \<not> ae_fresh e then App_Raised (OSError (ae_output e)) None
        else case compiler_identity sha (ae_zig e) of Inl err \<Rightarrow> App_Raised err None
        | Inr z \<Rightarrow>
          let r = \<lparr>ap_compiler = z, ap_sources = None, ap_harness = None, ap_builds = [], ap_resolved = [],
                ap_rows = [], ap_summary = None, ap_passed = False\<rparr> in
          (case app_snapshots sha e of Inl err \<Rightarrow> App_Raised err (Some r)
           | Inr (qmsg, quic) \<Rightarrow>
             let r = r\<lparr>ap_sources := Some (qmsg, quic)\<rparr> in
             (case consumer_stage (ae_root e) of Inl err \<Rightarrow> App_Raised err (Some r)
              | Inr files \<Rightarrow> app_measure sha a e (snd qmsg) (snd quic)
                  (r\<lparr>ap_harness := Some (app_identity sha (copied_tree (ae_output e @ ''/consumer'') files))\<rparr>))))))"

subsection \<open>Lemmas\<close>

lemma digest_entries_distinct: "distinct ns \<Longrightarrow> distinct (map fst (digest_entries sha files ns))"
  by (simp add: digest_entries_names)

lemma digest_entries_sorted: "sorted ns \<Longrightarrow> sorted (map fst (digest_entries sha files ns))"
  by (simp add: digest_entries_names sorted_filter [where f = id, simplified])

lemma identity_names_props:
  assumes "distinct (map fst (src_files s))"
  shows "sorted (identity_names s)" "distinct (identity_names s)" "sorted (app_files s)" "distinct (app_files s)"
  using assms by (auto simp: identity_names_def git_names_def app_files_def split: option.split)

lemma digest_entries_exists:
  "digest_entries sha files (filter (\<lambda>n. map_of files n \<noteq> None) ns) = digest_entries sha files ns"
  by (induction ns) (auto simp: digest_entries_def map_filter_simps)

lemma git_entries_agree:
  assumes "src_git s \<noteq> None"
  shows "id_files (identity sha s) = ai_files (app_identity sha s)"
proof -
  obtain out where out: "src_git s = Some out" using assms by blast
  let ?e = "\<lambda>n. map_of (src_files s) n \<noteq> None"
  have "app_files s = filter ?e (git_names out)"
    by (simp add: app_files_def out git_names_def sorted_names_def filter_sort remdups_filter [symmetric] conj_commute)
  then show ?thesis
    using digest_entries_exists [of sha "src_files s" "git_names out"]
    by (simp add: identity_def app_identity_def Let_def identity_names_def out)
qed

text \<open>With distinct names the canonical text identifies the entries, in any order.\<close>

lemma entries_digest_iff:
  assumes "inj_on sha {bytes_of (canonical_json es), bytes_of (canonical_json es')}"
    and "sorted (map fst es)" "distinct (map fst es)" "sorted (map fst es')" "distinct (map fst es')"
  shows "files_digest sha es = files_digest sha es' \<longleftrightarrow> set es = set es'"
proof
  assume "files_digest sha es = files_digest sha es'"
  then have "bytes_of (canonical_json es) = bytes_of (canonical_json es')"
    unfolding files_digest_def by (rule inj_onD [OF assms(1)]) simp_all
  then show "set es = set es'" by (intro canonical_json_same_map) (simp add: bytes_of_inj)
next
  assume s: "set es = set es'"
  have "inj_on fst (set es \<union> set es')" using assms(3) s by (simp add: distinct_map)
  then have "es = es'" using assms s by (intro map_sorted_distinct_set_unique)
  then show "files_digest sha es = files_digest sha es'" by simp
qed

text \<open>The names and contents an identity covers.\<close>

definition covered :: "source \<Rightarrow> string list \<Rightarrow> (string \<times> string) set" where
  "covered s names = {(n, c). n \<in> set names \<and> map_of (src_files s) n = Some c}"

lemma entries_covered:
  "set (digest_entries sha (src_files s) ns) = map_prod id (sha \<circ> bytes_of) ` covered s ns"
  by (force simp: set_digest_entries covered_def)

subsection \<open>Properties\<close>

text \<open>C17: The two profiling tools use the same digest scheme.  If neither the contents the two
  identities cover nor their two canonical texts collide under the hash, the digest that
  \<open>profile-composition.py\<close> records of one tree equals the one that
  \<open>profile-applications.py\<close> records of another exactly when both cover the same names with
  the same contents; and of a git checkout, where both cover what git lists, they record the
  same files and the same digest, whatever the hash.\<close>

theorem identity_scheme_agrees:
  assumes "distinct (map fst (src_files s))" "distinct (map fst (src_files t))"
  shows "(inj_on sha ((bytes_of \<circ> snd) ` (covered s (identity_names s) \<union> covered t (app_files t))) \<and>
      inj_on sha {bytes_of (canonical_json (id_files (identity sha s))),
        bytes_of (canonical_json (ai_files (app_identity sha t)))} \<longrightarrow>
      (id_sha (identity sha s) = ai_sha (app_identity sha t) \<longleftrightarrow>
        covered s (identity_names s) = covered t (app_files t))) \<and>
    (src_git s \<noteq> None \<longrightarrow> id_files (identity sha s) = ai_files (app_identity sha s) \<and>
       id_sha (identity sha s) = ai_sha (app_identity sha s))"
proof -
  let ?E = "digest_entries sha (src_files s) (identity_names s)"
  let ?F = "digest_entries sha (src_files t) (app_files t)"
  let ?A = "covered s (identity_names s)" and ?B = "covered t (app_files t)"
  have files: "id_files (identity sha s) = ?E" "ai_files (app_identity sha t) = ?F"
    "id_sha (identity sha s) = files_digest sha ?E" "ai_sha (app_identity sha t) = files_digest sha ?F"
    by (simp_all add: identity_def app_identity_def Let_def)
  have "files_digest sha ?E = files_digest sha ?F \<longleftrightarrow> ?A = ?B"
    if c: "inj_on sha ((bytes_of \<circ> snd) ` (?A \<union> ?B))"
      "inj_on sha {bytes_of (canonical_json ?E), bytes_of (canonical_json ?F)}"
  proof -
    have "files_digest sha ?E = files_digest sha ?F \<longleftrightarrow> set ?E = set ?F"
      using c(2) assms identity_names_props by (intro entries_digest_iff digest_entries_sorted digest_entries_distinct)
    also have "\<dots> \<longleftrightarrow> ?A = ?B"
    proof -
      have "inj_on (map_prod id (sha \<circ> bytes_of)) (?A \<union> ?B)"
      proof (rule inj_onI)
        fix x y assume x: "x \<in> ?A \<union> ?B" and y: "y \<in> ?A \<union> ?B"
          and e: "map_prod id (sha \<circ> bytes_of) x = map_prod id (sha \<circ> bytes_of) y"
        have "(bytes_of \<circ> snd) x = (bytes_of \<circ> snd) y"
          using e by (intro inj_onD [OF c(1)] imageI x y) (simp add: map_prod_def split_beta)
        with e show "x = y" by (auto simp: map_prod_def split_beta bytes_of_inj intro: prod_eqI)
      qed
      then show ?thesis unfolding entries_covered by (rule inj_on_image_eq_iff) simp_all
    qed
    finally show ?thesis .
  qed
  note agree = this [folded files]
  have git: "id_files (identity sha s) = ai_files (app_identity sha s) \<and>
      id_sha (identity sha s) = ai_sha (app_identity sha s)" if "src_git s \<noteq> None"
  proof -
    note f = git_entries_agree [OF that, of sha]
    have "id_sha (identity sha s) = files_digest sha (id_files (identity sha s))"
      "ai_sha (app_identity sha s) = files_digest sha (ai_files (app_identity sha s))"
      by (simp_all add: identity_def app_identity_def Let_def)
    with f show ?thesis by simp
  qed
  show ?thesis using agree git by blast
qed

definition checkout_of :: "file_map \<Rightarrow> source" where
  "checkout_of fs = \<lparr>src_path = ''/repo'', src_git = Some (''gone'' # map fst fs), src_commit = ''c0'', src_status = [],
     src_files = fs\<rparr>"

lemma sample_sha_inj: "inj sample_sha"
proof -
  have "word_of_nat (of_char ((char_of \<circ> unat) b)) = b" for b :: byte
    using unat_lt_256 [of b] by simp
  then have "inj (char_of \<circ> unat :: byte \<Rightarrow> char)" by (rule inj_on_inverseI)
  then have "inj (map (char_of \<circ> unat :: byte \<Rightarrow> char))" by (rule inj_mapI)
  moreover have "sample_sha = map (char_of \<circ> unat)" by (simp add: fun_eq_iff sample_sha_def)
  ultimately show ?thesis by simp
qed

theorem identity_scheme_agrees_witness:
  "id_sha (identity sample_sha (checkout_of [(''b'', ''2''), (''a'', ''1'')])) =
     ai_sha (app_identity sample_sha (checkout_of [(''b'', ''2''), (''a'', ''1'')])) \<and>
   id_sha (identity sample_sha (checkout_of [(''b'', ''2''), (''a'', ''1'')])) \<noteq>
     ai_sha (app_identity sample_sha (checkout_of [(''b'', ''2''), (''a'', ''3'')]))"
proof -
  have inj: "inj_on sample_sha A" for A by (rule inj_on_subset [OF sample_sha_inj subset_UNIV])
  let ?s = "checkout_of [(''b'', ''2''), (''a'', ''1'')]" and ?t = "checkout_of [(''b'', ''2''), (''a'', ''3'')]"
  have "(''a'', ''1'') \<in> covered ?s (identity_names ?s)" "(''a'', ''1'') \<notin> covered ?t (app_files ?t)"
    by (simp_all add: covered_def checkout_of_def identity_names_def app_files_def)
  then have "covered ?s (identity_names ?s) \<noteq> covered ?t (app_files ?t)" by metis
  moreover have d: "distinct (map fst (src_files ?s))" "distinct (map fst (src_files ?t))" "src_git ?s \<noteq> None"
    by (simp_all add: checkout_of_def)
  ultimately show ?thesis using identity_scheme_agrees [OF d(1,2)] inj by metis
qed

interpretation app_copy: verified_copy sha "\<lambda>s. ai_files (app_identity sha s)" "copied_tree path" for sha path
  by unfold_locales (auto simp: app_identity_def digest_entries_iff copied_tree_def Let_def)

text \<open>C8: A source snapshot that is accepted is faithful.  If no two contents involved collide
  under the hash, the copy holds exactly the files of the first identity, each with the
  content it had then, and its digest is the recorded one; the second identity of the
  source, with its commit, status and pins, was the same.\<close>

theorem app_snapshot_faithful:
  assumes "app_snapshot sha src read src' destination = Inr (original, copied)"
    and "\<forall>n c c'. map_of (src_files src) n = Some c \<and> read n = Some c' \<and>
      sha (bytes_of c) = sha (bytes_of c') \<longrightarrow> c = c'"
  shows "original = app_identity sha src \<and> app_identity sha src' = original \<and> ai_sha copied = ai_sha original \<and>
    (\<exists>fs. copied = app_identity sha (copied_tree destination fs) \<and> map fst fs = map fst (ai_files original) \<and>
       (\<forall>(n, c)\<in>set fs. map_of (src_files src) n = Some c))"
proof -
  let ?after = "app_identity sha src'" and ?copied = "\<lambda>fs. app_identity sha (copied_tree destination fs)"
  from assms(1) obtain fs where c: "mapE (\<lambda>(name, _). case read name of Some c \<Rightarrow> Inr (name, c) | None \<Rightarrow> Inl (OSError name))
      (ai_files (app_identity sha src)) = Inr fs"
    and r: "(if app_identity sha src \<noteq> ?after \<or> ai_files (?copied fs) \<noteq> ai_files (app_identity sha src)
      then Inl (RuntimeError (''source changed while snapshotting: '' @ src_path src))
      else Inr (app_identity sha src, ?copied fs)) = Inr (original, copied)"
    unfolding app_snapshot_def Let_def zbind_eq_Inr by blast
  have ok: "\<not> (app_identity sha src \<noteq> ?after \<or> ai_files (?copied fs) \<noteq> ai_files (app_identity sha src))"
    using r by (rule contrapos_pn) simp
  from r have o: "original = app_identity sha src" and k: "copied = ?copied fs"
    unfolding if_not_P [OF ok] by (simp_all only: sum.inject prod.inject)
  have same: "original = app_identity sha src" "?after = original" "copied = ?copied fs"
    "ai_files (?copied fs) = ai_files (app_identity sha src)"
    using ok unfolding o k de_Morgan_disj not_not by (metis)+
  have "ai_sha (app_identity sha s) = files_digest sha (ai_files (app_identity sha s))" for s
    by (simp add: app_identity_def Let_def)
  with same have digest: "ai_sha copied = ai_sha original" by metis
  have names: "map fst fs = map fst (ai_files original)"
    unfolding same(1) by (rule app_copy.copy_names [OF c])
  have "\<forall>(n, c)\<in>set fs. map_of (src_files src) n = Some c"
    using app_copy.copy_faithful [OF c same(4) assms(2)] by blast
  with same(1-3) digest names show ?thesis by blast
qed

definition sample_tree :: source where
  "sample_tree = copied_tree ''/repo'' [(''a'', ''1''), (''b'', ''2'')]"

theorem app_snapshot_faithful_witness:
  "\<exists>original copied. app_snapshot sample_sha sample_tree (map_of (src_files sample_tree)) sample_tree ''/out'' =
       Inr (original, copied) \<and> ai_sha copied = ai_sha original"
proof -
  obtain original copied where s: "app_snapshot sample_sha sample_tree (map_of (src_files sample_tree)) sample_tree ''/out'' =
       Inr (original, copied)"
    by (simp add: app_snapshot_def sample_tree_def app_identity_def app_files_def copied_tree_def digest_entries_def
        map_filter_def Let_def)
  have "\<forall>n c c'. map_of (src_files sample_tree) n = Some c \<and> map_of (src_files sample_tree) n = Some c' \<and>
      sample_sha (bytes_of c) = sample_sha (bytes_of c') \<longrightarrow> c = c'"
    by (metis option.inject)
  from app_snapshot_faithful [OF s this] s show ?thesis by blast
qed

lemma app_build_Inr:
  assumes "snd (app_build sha a e m) = Inr ()"
  shows "\<exists>row. fst (app_build sha a e m) = Some row \<and> ab_mode row = m \<and> ab_returncode row = 0 \<and> ab_binary row \<noteq> None"
  using assms by (auto simp: app_build_def Let_def split: option.splits if_splits)

lemma app_build_Exit:
  "snd (app_build sha a e m) = Inl (Exit_With c) \<Longrightarrow> \<exists>row. fst (app_build sha a e m) = Some row \<and> ab_returncode row = c \<and> c \<noteq> 0"
  by (auto simp: app_build_def Let_def split: option.splits if_splits)

lemma app_sample_Inr:
  assumes "snd (app_sample a e (s, m)) = Inr ()"
  shows "\<exists>row. fst (app_sample a e (s, m)) = Some row \<and> ar_sample row = s + 1 \<and> ar_mode row = m \<and>
    ar_returncode row = 0 \<and> ar_workload row \<noteq> None"
  using assms by (auto simp: app_sample_def Let_def split: sum.splits if_splits list.splits)

lemma app_sample_Exit:
  assumes "snd (app_sample a e k) = Inl (Exit_With c)"
  shows "\<exists>row. fst (app_sample a e k) = Some row \<and>
    (if ar_returncode row = 0 then c = 1 \<and> ar_workload row = None else c = ar_returncode row)"
  using assms
  by (cases k) (auto simp: app_sample_def Let_def raising_def split: sum.splits if_splits list.splits)

lemma collect_rows_last:
  "snd (collect_rows step ks) = Inl stop \<Longrightarrow> \<exists>k\<in>set ks. snd (step k) = Inl stop \<and>
     (\<forall>row. fst (step k) = Some row \<longrightarrow>
        fst (collect_rows step ks) \<noteq> [] \<and> last (fst (collect_rows step ks)) = row)"
  by (induction ks) (auto split: prod.splits sum.splits option.splits)

lemma map_filter_rows:
  "\<forall>k\<in>set ks. \<exists>row. fst (step k) = Some row \<and> P k row \<Longrightarrow> list_all2 P ks (List.map_filter (fst \<circ> step) ks)"
  by (induction ks) (auto simp: map_filter_simps)

lemma app_schedule_count:
  assumes "distinct modes" "m \<in> set modes"
  shows "length (filter (\<lambda>k. snd k = m) (app_schedule modes n)) = n"
proof -
  have one: "length (filter (\<lambda>x. x = m) xs) = 1" if "distinct xs" "m \<in> set xs" for xs
    using that by (induction xs) (auto simp: filter_empty_conv)
  have "length (filter ((\<lambda>k. snd k = m) \<circ> Pair s) modes) = 1"
    "length (filter ((\<lambda>k. snd k = m) \<circ> Pair s) (rev modes)) = 1" for s :: nat
    using one [of modes] one [of "rev modes"] assms by (simp_all add: comp_def)
  then show ?thesis
    unfolding app_schedule_def by (induction n) (simp_all add: filter_map)
qed

lemma app_build_stops:
  "snd (app_build sha a e m) = Inl stop \<Longrightarrow> fst (app_build sha a e m) \<noteq> None"
  by (auto simp: app_build_def Let_def split: option.splits if_splits)

text \<open>C4: The exit code of the application profile says what happened.  It is 0 exactly when the
  report says passed, and then both sources were copied unchanged, every mode was built, each
  mode was measured in every sample, in alternating order, always with exit code 0 and one
  result line, and the summary holds the medians over all samples of each mode.  Any other
  code is the one of the last build or of the last sample, or 1 for a sample that ended with
  0 but without exactly one result line.\<close>

theorem applications_exit:
  assumes "app_main sha a e = App_Exit code r"
  shows "(ap_passed r \<longleftrightarrow> code = 0) \<and> app_usage a = None \<and>
    (\<exists>qmsg quic. app_snapshots sha e = Inr (qmsg, quic) \<and> ap_sources r = Some (qmsg, quic)) \<and>
    (if code = 0
     then map ab_mode (ap_builds r) = app_modes a \<and>
       list_all (\<lambda>row. ab_returncode row = 0 \<and> ab_binary row \<noteq> None) (ap_builds r) \<and>
       map (\<lambda>row. (ar_sample row, ar_mode row)) (ap_rows r) =
         map (\<lambda>(s, m). (s + 1, m)) (app_schedule (app_modes a) (nat (aa_samples a))) \<and>
       list_all (\<lambda>row. ar_returncode row = 0 \<and> ar_workload row \<noteq> None) (ap_rows r) \<and>
       list_all (\<lambda>m. length (filter (\<lambda>row. ar_mode row = m) (ap_rows r)) = nat (aa_samples a)) (app_modes a) \<and>
       (\<exists>s. ap_summary r = Some s \<and> app_summary (app_modes a) (ap_rows r) = Inr s)
     else (ap_builds r \<noteq> [] \<and> ap_rows r = [] \<and> ab_returncode (last (ap_builds r)) = code) \<or>
       (ap_rows r \<noteq> [] \<and> (if ar_returncode (last (ap_rows r)) = 0
          then code = 1 \<and> ar_workload (last (ap_rows r)) = None else ar_returncode (last (ap_rows r)) = code)))"
proof -
  obtain z qmsg quic files where m: "app_usage a = None" "app_snapshots sha e = Inr (qmsg, quic)"
    "app_measure sha a e (snd qmsg) (snd quic) \<lparr>ap_compiler = z, ap_sources = Some (qmsg, quic),
       ap_harness = Some (app_identity sha (copied_tree (ae_output e @ ''/consumer'') files)), ap_builds = [],
       ap_resolved = [], ap_rows = [], ap_summary = None, ap_passed = False\<rparr> = App_Exit code r"
    using assms by (auto simp: app_main_def Let_def split: option.splits sum.splits if_splits)
  let ?B = "collect_rows (app_build sha a e) (app_modes a)"
  let ?S = "app_schedule (app_modes a) (nat (aa_samples a))"
  let ?R = "collect_rows (app_sample a e) ?S"
  note M = m(3) [unfolded app_measure_def case_prod_beta Let_def]
  show ?thesis
  proof (cases "snd ?B")
    case (Inl stop)
    with M have r: "stop = Exit_With code" "ap_builds r = fst ?B" "ap_rows r = []" "\<not> ap_passed r"
      "ap_sources r = Some (qmsg, quic)"
      by (auto simp: app_stopped_def split: app_stop.splits)
    obtain k where "k \<in> set (app_modes a)" "snd (app_build sha a e k) = Inl (Exit_With code)" 
      "\<forall>row. fst (app_build sha a e k) = Some row \<longrightarrow> fst ?B \<noteq> [] \<and> last (fst ?B) = row"
      using collect_rows_last [of "app_build sha a e" "app_modes a" stop] Inl unfolding r(1) by blast
    with app_build_Exit [OF this(2)] r m(1,2) show ?thesis by auto
  next
    case built: (Inr u)
    show ?thesis
    proof (cases "snd ?R")
      case (Inl stop)
      with M built have r: "stop = Exit_With code" "ap_rows r = fst ?R" "\<not> ap_passed r" "ap_sources r = Some (qmsg, quic)"
        by (auto simp: app_stopped_def split: app_stop.splits)
      obtain k where k: "snd (app_sample a e k) = Inl (Exit_With code)" 
        "\<forall>row. fst (app_sample a e k) = Some row \<longrightarrow> fst ?R \<noteq> [] \<and> last (fst ?R) = row"
        using collect_rows_last [of "app_sample a e" ?S stop] Inl unfolding r(1) by blast
      with app_sample_Exit [OF k(1)] r m(1,2) show ?thesis by (auto split: if_splits)
    next
      case (Inr v)
      obtain s where s: "app_summary (app_modes a) (fst ?R) = Inr s"
        using M built Inr by (auto split: sum.splits)
      with M built Inr have r: "code = 0" "ap_rows r = fst ?R" "ap_builds r = fst ?B" "ap_passed r"
        "ap_sources r = Some (qmsg, quic)" "ap_summary r = Some s" by auto
      have b: "list_all2 (\<lambda>m row. ab_mode row = m \<and> ab_returncode row = 0 \<and> ab_binary row \<noteq> None) (app_modes a) (fst ?B)"
        using collect_rows_Inr [of "app_build sha a e" "app_modes a"] built app_build_Inr
        by (auto intro!: map_filter_rows)
      have w: "list_all2 (\<lambda>(s, m) row. ar_sample row = s + 1 \<and> ar_mode row = m \<and> ar_returncode row = 0 \<and>
          ar_workload row \<noteq> None) ?S (fst ?R)"
        using collect_rows_Inr [of "app_sample a e" ?S] Inr app_sample_Inr
        by (auto intro!: map_filter_rows)
      have "map ab_mode (fst ?B) = app_modes a \<and> list_all (\<lambda>row. ab_returncode row = 0 \<and> ab_binary row \<noteq> None) (fst ?B)"
        using b by (induction rule: list_all2_induct) auto
      moreover have keys: "map (\<lambda>row. (ar_sample row, ar_mode row)) (fst ?R) = map (\<lambda>(s, m). (s + 1, m)) ?S"
        and "list_all (\<lambda>row. ar_returncode row = 0 \<and> ar_workload row \<noteq> None) (fst ?R)"
        using w by (induction rule: list_all2_induct) auto
      moreover have "list_all (\<lambda>m. length (filter (\<lambda>row. ar_mode row = m) (fst ?R)) = nat (aa_samples a)) (app_modes a)"
      proof -
        have "length (filter (\<lambda>row. ar_mode row = m) (fst ?R)) = length (filter (\<lambda>k. snd k = m) ?S)" for m
          using w by (induction rule: list_all2_induct) auto
        then show ?thesis
          using app_schedule_count [of "app_modes a"] by (auto simp: list_all_iff app_modes_def)
      qed
      ultimately show ?thesis using r s m(1,2) by simp
    qed
  qed
qed

definition sample_warm :: "int \<Rightarrow> json" where
  "sample_warm n = JObj [(''warm'', JObj [(''replies'', JInt 5000), (''elapsed_us'', JInt n), (''cpu_us'', JInt (n + 1)),
     (''latency_p50_us'', JInt 20), (''latency_p99_us'', JInt 90)])]"

definition sample_copy :: copy_world where
  "sample_copy = (let s = copied_tree ''/repo'' [(''build.zig.zon'', sample_package)] in
     \<lparr>cy_first = s, cy_read = map_of (src_files s), cy_again = s\<rparr>)"

definition sample_app_env :: app_env where
  "sample_app_env =
     \<lparr>ae_qmsg = sample_copy, ae_quic = sample_copy, ae_output = ''/out'', ae_fresh = True,
      ae_zig = \<lparr>zw_path = ''/bin/zig'', zw_binary = Some ''z'', zw_version = Inr ''0.17.0''\<rparr>,
      ae_root = [(''tools/consumer-smoke/build.zig.zon'', ''.{    .dependencies = .{}}''),
        (''tools/application-profile.zig'', ''p''), (''bench/e2e/counting_allocator.zig'', ''c''),
        (''examples/support/test_cert.pem'', ''e''), (''examples/support/test_key.pem'', ''k'')],
      ae_build = (\<lambda>mode. \<lparr>aw_returncode = 0, aw_binary = Some mode\<rparr>),
      ae_cached = (\<lambda>hash. None),
      ae_sample = (\<lambda>(s, mode). \<lparr>as_ps_before = Inr (), as_returncode = 0,
         as_usage = \<lparr>ru_utime = 1, ru_stime = 1, ru_maxrss = 4\<rparr>, as_wall = 1, as_ps_after = Inr (),
         as_log = ''APPLICATION_PROFILE '' @ mode @ [newline]\<rparr>),
      ae_darwin = False,
      ae_loads = (\<lambda>line. Inr (sample_warm (if line = ''native'' then 7 else 5)))\<rparr>"

definition sample_app_args :: app_args where
  "sample_app_args = \<lparr>aa_samples = 3, aa_jobs = 2, aa_mode = ''both'', aa_optimize = ''ReleaseSafe'', aa_options = []\<rparr>"

lemma app_sample_ok:
  assumes "as_ps_before (ae_sample e (s, m)) = Inr ()" "as_ps_after (ae_sample e (s, m)) = Inr ()"
    "as_returncode (ae_sample e (s, m)) = 0"
    "marked_lines ''APPLICATION_PROFILE '' (as_log (ae_sample e (s, m))) = [line]" "ae_loads e line = Inr j"
    "py_index j ''warm'' = Inr warm" "mapE (py_index warm) [''replies'', ''elapsed_us'', ''cpu_us''] = Inr vs"
  shows "snd (app_sample a e (s, m)) = Inr () \<and>
    (\<exists>row. fst (app_sample a e (s, m)) = Some row \<and> ar_mode row = m \<and> ar_workload row = Some j)"
proof -
  have "mapE (ae_loads e) [line] = Inr [j]" using assms(5) by simp
  then show ?thesis
    unfolding app_sample_def prod.case Let_def assms(1-4,6) zbind_Inr assms(7) raising_def by (simp add: assms(6,7) del: mapE.simps)
qed

lemma sample_app_exits:
  "\<exists>r. app_main (\<lambda>_. ''00'') sample_app_args sample_app_env = App_Exit 0 r"
proof -
  let ?sha = "\<lambda>_ :: byte list. ''00''" and ?a = sample_app_args and ?e = sample_app_env
  let ?S = "app_schedule (app_modes ?a) (nat (aa_samples ?a))"
  obtain copies where snap: "app_snapshots ?sha ?e = Inr copies"
    by (simp add: app_snapshots_def sample_app_env_def sample_copy_def app_snapshot_def app_identity_def
        app_files_def copied_tree_def digest_entries_def map_filter_def Let_def)
  have "py_str_index ''.{    .dependencies = .{}}'' ''    .dependencies ='' = Inr 2" by code_simp
  then obtain files where stage: "consumer_stage (ae_root ?e) = Inr files"
    by (simp add: consumer_stage_def sample_app_env_def read_file_def consumer_manifest_def)
  have built: "snd (collect_rows (app_build ?sha ?a ?e) (app_modes ?a)) = Inr ()"
    unfolding collect_rows_Inr by (simp add: app_build_def sample_app_env_def Let_def)
  have S: "\<forall>k\<in>set ?S. snd k = ''native'' \<or> snd k = ''selected''"
    by (auto simp: app_schedule_def app_modes_def sample_app_args_def split: if_splits)
  have one: "snd (app_sample ?a ?e k) = Inr () \<and> (\<exists>row. fst (app_sample ?a ?e k) = Some row \<and>
      ar_mode row = snd k \<and> (\<exists>n. ar_workload row = Some (sample_warm n)))" if mem: "k \<in> set ?S" for k
  proof -
    have "marked_lines ''APPLICATION_PROFILE '' (''APPLICATION_PROFILE '' @ ''native'' @ [newline]) = [''native'']"
      "marked_lines ''APPLICATION_PROFILE '' (''APPLICATION_PROFILE '' @ ''selected'' @ [newline]) = [''selected'']"
      by code_simp+
    then have lines: "marked_lines ''APPLICATION_PROFILE '' (as_log (ae_sample ?e k)) = [snd k]"
      using S mem by (cases k) (auto simp: sample_app_env_def)
    have w: "\<exists>warm. py_index (sample_warm n) ''warm'' = Inr warm \<and>
        (\<exists>vs. mapE (py_index warm) [''replies'', ''elapsed_us'', ''cpu_us''] = Inr vs)" for n
      by (simp add: sample_warm_def py_index_def)
    have e: "as_ps_before (ae_sample ?e k) = Inr ()" "as_ps_after (ae_sample ?e k) = Inr ()"
      "as_returncode (ae_sample ?e k) = 0"
      by (cases k; simp add: sample_app_env_def)+
    define n :: int where "n = (if snd k = ''native'' then 7 else 5)"
    have n: "ae_loads ?e (snd k) = Inr (sample_warm n)" by (simp add: sample_app_env_def n_def)
    obtain warm vs where "py_index (sample_warm n) ''warm'' = Inr warm"
      "mapE (py_index warm) [''replies'', ''elapsed_us'', ''cpu_us''] = Inr vs" using w by blast
    then show ?thesis
      using app_sample_ok [of ?e "fst k" "snd k" "snd k" "sample_warm n" warm vs ?a] lines e n by auto
  qed
  have rows: "snd (collect_rows (app_sample ?a ?e) ?S) = Inr ()"
    unfolding collect_rows_Inr(1) using one by blast
  let ?R = "fst (collect_rows (app_sample ?a ?e) ?S)"
  have R: "list_all2 (\<lambda>k row. ar_mode row = snd k \<and> (\<exists>n. ar_workload row = Some (sample_warm n))) ?S ?R"
    unfolding collect_rows_Inr(2) [OF rows] by (rule map_filter_rows) (use one in blast)
  have "\<exists>ms. medians warm_field (filter (\<lambda>row. ar_mode row = m) ?R) summary_fields = Inr ms" if "m \<in> set (app_modes ?a)" for m
  proof -
    have "length (filter (\<lambda>row. ar_mode row = m) ?R) = length (filter (\<lambda>k. snd k = m) ?S)"
      using R by (induction rule: list_all2_induct) auto
    also have "\<dots> = 3" using app_schedule_count [of "app_modes ?a" m] that by (simp add: app_modes_def sample_app_args_def)
    finally have odd: "odd (length (filter (\<lambda>row. ar_mode row = m) ?R))" by simp
    have "\<exists>n. ar_workload row = Some (sample_warm n)" if "row \<in> set ?R" for row
      using R that by (induction rule: list_all2_induct) auto
    then have "\<forall>f\<in>set summary_fields. \<forall>row\<in>set (filter (\<lambda>row. ar_mode row = m) ?R).
        \<exists>v. warm_field row f = Inr v \<and> py_num v \<noteq> None"
      by (fastforce simp: warm_field_def sample_warm_def py_index_def summary_fields_def)
    from medians_ok [OF this odd] show ?thesis by blast
  qed
  then obtain ms where "\<And>m. m \<in> set (app_modes ?a) \<Longrightarrow>
      medians warm_field (filter (\<lambda>row. ar_mode row = m) ?R) summary_fields = Inr (ms m)" by metis
  then have s: "app_summary (app_modes ?a) ?R = Inr (map (\<lambda>m. (m, ms m)) (app_modes ?a))"
    unfolding app_summary_def by (intro mapE_total) simp
  have measure: "\<exists>r'. app_measure ?sha ?a ?e q u r = App_Exit 0 r'" for q u r
    using built rows s by (simp add: app_measure_def case_prod_beta Let_def)
  have "app_usage ?a = None" by code_simp
  moreover have "package_given n (cy_first (ae_qmsg ?e)) = None" "package_given n (cy_first (ae_quic ?e)) = None"
    "ae_fresh ?e" "\<exists>z. compiler_identity ?sha (ae_zig ?e) = Inr z" for n
    by (simp_all add: package_given_def sample_app_env_def sample_copy_def copied_tree_def compiler_identity_def Let_def)
  ultimately show ?thesis
    using snap stage measure by (cases copies) (auto simp: app_main_def Let_def)
qed

theorem applications_exit_witness:
  "\<exists>r. app_main (\<lambda>_. ''00'') sample_app_args sample_app_env = App_Exit 0 r \<and> ap_passed r \<and>
     map ar_mode (ap_rows r) = [''native'', ''selected'', ''selected'', ''native'', ''native'', ''selected'']"
proof -
  obtain r where r: "app_main (\<lambda>_. ''00'') sample_app_args sample_app_env = App_Exit 0 r"
    using sample_app_exits by blast
  have "map (\<lambda>row. (ar_sample row, ar_mode row)) (ap_rows r) =
      map (\<lambda>(s, m). (s + 1, m)) (app_schedule (app_modes sample_app_args) (nat (aa_samples sample_app_args)))"
    using applications_exit [OF r] by simp
  then have "map snd (map (\<lambda>row. (ar_sample row, ar_mode row)) (ap_rows r)) =
      map snd (map (\<lambda>(s, m). (s + 1, m)) (app_schedule (app_modes sample_app_args) (nat (aa_samples sample_app_args))))"
    by simp
  also have "\<dots> = [''native'', ''selected'', ''selected'', ''native'', ''native'', ''selected'']" by code_simp
  finally have "map ar_mode (ap_rows r) =
      [''native'', ''selected'', ''selected'', ''native'', ''native'', ''selected'']"
    unfolding map_map comp_def snd_conv .
  moreover have "ap_passed r" using applications_exit [OF r, THEN conjunct1] by simp
  ultimately show ?thesis using r by (intro exI conjI)
qed

end
