(* ===== verification/Spec2Isabelle.thy ===== *)
theory Spec2Isabelle
  imports Ack_Tracker Packet_Number Frame_Payload Fairness_Run Applications
begin

text \<open>
  A verification library for quic-zig: the three Python tools under \<open>src/tools\<close> that qualify and
  profile the library, and the wire level of the library itself under \<open>src/src\<close> (Zig).

  \<^bold>\<open>The tools.\<close>  \<open>check-fairness.py\<close> copies the checkout, extends the benchmark's cell table, runs
  the benchmark on a frozen baseline and on the candidate, and compares the two reports.
  \<open>profile-composition.py\<close> builds two workloads in two lanes, runs twelve samples under a
  watchdog and judges their result lines.  \<open>profile-applications.py\<close> builds one consumer in
  one or two modes and profiles it.  All three identify source trees by digests before and
  after, and turn what they saw into a report and an exit code.

  \<^item> \<open>Py_Base\<close>, \<open>Py_Text\<close>, \<open>Py_Files\<close>, \<open>Py_Stats\<close>: the part of Python the tools use.  JSON values with
    \<open>==\<close>, \<open>get\<close> and indexing that may raise, \<open>find\<close>, \<open>split\<close>, the regular expressions as token
    lists, directories as lists of named contents, canonical JSON of a digest map, loops
    that append a row per iteration, \<open>statistics.median\<close>.  A call that may raise has a result
    of \<open>py_error + 'a\<close>.  The locale \<open>verified_copy\<close> in \<open>Py_Files\<close> is what both snapshot functions
    promise; \<open>Fairness_Sources\<close> and \<open>Applications\<close> interpret it.  \<open>py_float\<close> is \<open>float\<close> of a
    fraction, which raises \<open>OverflowError\<close> for a large one.
  \<^item> \<open>Fairness\<close>: \<open>rows\<close>, \<open>measure\<close> and \<open>compare\<close> of \<open>check-fairness.py\<close>, with every error in the order
    the code raises it, and the byte stream of \<open>runtime_digest\<close>.
  \<^item> \<open>Fairness_Sources\<close>: \<open>inventory\<close>, \<open>runtime_digest\<close>, \<open>snapshot\<close>, \<open>append_grid\<close>.
  \<^item> \<open>Fairness_Run\<close>: \<open>run_lane\<close> with its watchdog, lane preparation, \<open>main\<close>.  The three \<open>wait\<close> calls
    of a lane are functions of how the process behaves (\<open>lane_child\<close>: its own exit, its reaction
    to SIGTERM, the interrupts of the waiting thread) and of the signals sent so far; the
    last one has no deadline and may not return, which is \<open>None\<close> in \<open>lane_wait_of\<close>,
    \<open>Blocked_Forever\<close> in \<open>run_lane\<close> and \<open>Hangs\<close> in \<open>fairness_main\<close>; \<open>lane_watchdog\<close> shows that this
    never happens.
  \<^item> \<open>Composition\<close>: \<open>integer\<close>, \<open>validate\<close> and \<open>run_child\<close> of \<open>profile-composition.py\<close>; the latter as a
    step relation over the waiting thread, the timer thread, the child and the user's
    interrupts, from the \<open>try\<close> on.  The locked sections are single steps; the end of the
    timer's wait is a step of its own, before \<open>expire\<close> gets the lock.
  \<^item> \<open>Composition_Inputs\<close>: \<open>identity\<close>, \<open>compact\<close>, \<open>local_dependency\<close>, \<open>pin\<close>, \<open>workspace_identity\<close>,
    \<open>compiler_identity\<close>, \<open>capture_state\<close> and the checks of \<open>main\<close> before the builds.
  \<^item> \<open>Composition_Run\<close>: the build loop, the sample loop, the medians, and \<open>main\<close> with its
    \<open>except\<close> and \<open>finally\<close> clauses.
  \<^item> \<open>Applications\<close>: all of \<open>profile-applications.py\<close>.

  The theorems about the tools say that exit code 0 means complete evidence
  (\<open>fairness_exit_zero\<close>, \<open>composition_exit_zero\<close>, \<open>applications_exit\<close>), that reports list what was
  run (\<open>composition_report_complete\<close>), that the waiting for a child ends and leaves it reaped
  (\<open>watchdog_sound\<close>, \<open>lane_watchdog\<close>; interrupts inside the handlers are the stated exception), that accepted copies are faithful (\<open>snapshot_faithful\<close>,
  \<open>app_snapshot_faithful\<close>, \<open>lanes_share_harness\<close>), that digests identify trees
  (\<open>identity_scheme_agrees\<close>, \<open>runtime_digest_injective\<close>), and what validation guarantees
  (\<open>rows_sound\<close>, \<open>compare_total\<close>, \<open>validate_total\<close>, \<open>pubsub_accounting\<close>).  What git, the compiler,
  the child processes and the file system do is given by records of answers
  (\<open>fairness_env\<close>, \<open>composition_env\<close>, \<open>app_env\<close>), the hash and \<open>json.loads\<close> are parameters; the theorems
  hold for all answers.

  \<^bold>\<open>The wire level.\<close>
  \<^item> \<open>Quic_Prelude\<close>: error unions, \<open>try\<close> (\<open>zbind\<close>), saturating arithmetic on \<open>u64\<close>, the collections
    \<open>zig_arith\<close> and \<open>bind_simps\<close>.  \<open>Wire_Base\<close>: the error set and big-endian byte strings.
  \<^item> \<open>Varint\<close>, \<open>Packet_Number\<close>: \<open>wire/varint.zig\<close> and \<open>wire/packet_number.zig\<close>.
  \<^item> \<open>Frame_Types\<close>, \<open>Frame_Encode\<close>, \<open>Frame_Decode\<close>: \<open>frame/types.zig\<close>, \<open>encode.zig\<close>, \<open>decode.zig\<close>, all frame
    kinds.  \<open>Frame_Payload\<close>: the payload iterator of \<open>frame/root.zig\<close>.
  \<^item> \<open>Iteration\<close>: the consumers' loop over an iterator, and the locale under which it ends; the
    payload iterator and the ACK range iterator are its interpretations.
  \<^item> \<open>Range_List\<close>: \<open>conn/range_list.zig\<close> with the locale \<open>range_store\<close>; \<open>Ack_Range\<close> and \<open>Ack_Tracker\<close>:
    \<open>frame/ack_range.zig\<close> and \<open>conn/AckTracker.zig\<close>, and the direct writes to the tracker in
    \<open>Connection/keys.zig\<close> when the keys of a space are discarded (\<open>dropSpaceAck\<close>).

  Integers keep their width as words, buffers are byte lists of fixed length, an allocation
  is a Boolean argument that says whether it succeeds.  The theorems are round trips of
  every codec on every buffer, exactness of the reported lengths and errors, refinement of
  set union and difference by the range list, and the invariants of the ACK tracker up to
  \<open>ack_delivery\<close> below, which composes tracker, encoder, decoder and iterator.

  \<^bold>\<open>Fuel.\<close>  Only consumers' loops over iterators take fuel.  \<open>payload_iteration_ends\<close> shows that one
  turn per byte and one more is enough for any payload; the ACK theorems give the number of
  ranges plus two.  All other recursion terminates structurally or by a measure.

  \<^bold>\<open>Not modelled.\<close>  In the tools: environment variables, printed text, time stamps, copied
  provenance files and report fields that are recorded but never read again; symbolic links
  and names that are not UTF-8; code points above 255; rounding of floats (measures are exact
  rationals); in the watchdogs, the other members of a process group, and that a process
  takes time to end after SIGKILL.  In the library: packet headers and protection, streams,
  flow control, loss recovery, congestion control, paths, the TLS binding and all socket
  code, so nothing is claimed about a connection as a whole.
\<close>

subsection \<open>Properties across components\<close>

text \<open>C40: From the tracker to the peer.  The ACK frame built from a reachable tracker always
  passes the frame encoder (given room for it), what the encoder wrote decodes, whatever
  frames follow in the packet, to the same frame with the same length, and the peer that
  iterates over the decoded frame reads exactly the highest ranges of the tracker, in
  descending order.\<close>

theorem ack_delivery:
  assumes "at_reachable t" "at_largest t = Some m" "m < 2 ^ 62" "d \<le> max_value"
    and "list_all put_ok (encodeEcn ecn)"
  shows "\<exists>a k. toAckFrameLimitedRangesWithEcn t d buf maxb maxl ecn = Inr a \<and>
    (frame_encodedLen (Ack a) \<le> length dst \<longrightarrow>
      (\<exists>out n. frame_encode dst (Ack a) = Inr (out, n) \<and> n = frame_encodedLen (Ack a) \<and>
        frame_decode (take n out @ rest) = Inr (Ack a, n))) \<and>
    k < length (at_ranges t) \<and> unat (ak_range_count a) = k \<and>
    drain (k + 2) (ack_iter a) = Some (Inr (map to_interval (take (k + 1) (rev (at_ranges t)))))"
proof -
  have inv: "tracker_inv t" by (rule reachable_inv [OF assms(1)])
  then have i: "prs_inv (at_ranges t)" "length (at_ranges t) \<le> 255" "at_ranges t \<noteq> []"
    "pr_largest (last (at_ranges t)) < 2 ^ 62"
    using assms(2,3) by (auto simp: tracker_inv_def at_capacity_def max_ranges_def inline_ranges_def
        split: if_splits)
  from ack_frame_spec [OF i(1,3,4,2)] obtain a k where a:
    "toAckFrameLimitedRangesWithEcn t d buf maxb maxl ecn = Inr a"
    "k \<le> length (at_ranges t) - 1" "unat (ak_range_count a) = k"
    "ak_largest_acked a = word_of_nat (pr_largest (last (at_ranges t)))"
    "ak_ranges_bytes a = pairs_bytes (gap_pairs (last (at_ranges t)) (take k (rev (butlast (at_ranges t)))))"
    "ak_first_range a = word_of_nat (pr_largest (last (at_ranges t)) - pr_smallest (last (at_ranges t)))"
    "ak_ack_delay a = d" "ak_ecn_counts a = ecn"
    by (metis (no_types, lifting))
  note r = built_frame_reads [OF i(1,3,4,2) a(2,5,3,4,6)]
  have enc: "frame_encodable (Ack a)"
    using r(3-5) assms(4,5) a(7,8) by (simp add: frame_encodable_def encodeAck_def encodeAckBody_def)
  have k: "k < length (at_ranges t)" using a(2) i(3) by (cases "at_ranges t") simp_all
  have "\<exists>out n. frame_encode dst (Ack a) = Inr (out, n) \<and> n = frame_encodedLen (Ack a) \<and>
      frame_decode (take n out @ rest) = Inr (Ack a, n)" if "frame_encodedLen (Ack a) \<le> length dst"
    using frame_encode_eq [OF enc, of dst] frame_encodedLen_correct [of "Ack a"]
      frame_reads_back [OF enc, of rest] r(2) that by (simp add: reads_back_def)
  with a(1,3) r(1) k show ?thesis by blast
qed

theorem ack_delivery_witness:
  "\<exists>a k out n. toAckFrameLimitedRangesWithEcn sample_tracker 0 (replicate 20 0) 20 10 None = Inr a \<and>
     (frame_encodedLen (Ack a) \<le> 40 \<longrightarrow> frame_encode (replicate 40 0) (Ack a) = Inr (out, n) \<and>
       frame_decode (take n out @ [1]) = Inr (Ack a, n)) \<and>
     drain (k + 2) (ack_iter a) = Some (Inr (map to_interval (take (k + 1) (rev (at_ranges sample_tracker)))))"
  using ack_delivery [OF sample_tracker_reachable sample_tracker_largest, of 0 None "replicate 20 0" 20 10
      "replicate 40 0" "[1]"]
  by (simp add: encodeEcn_def) blast

end
